(* ===== verification/Xv6_Prelude.thy ===== *)
theory Xv6_Prelude
  imports Main "HOL-Library.Word" "HOL-Library.Monad_Syntax"
begin

text \<open>
  Shared vocabulary of the development: the machine integer types of \<^verbatim>\<open>types.h\<close>, the
  treatment of \<^verbatim>\<open>panic\<close>, linear scans over fixed tables, and in-place writes to byte arrays.

  A kernel or server routine is a function from its arguments and the state it works on to
  \<open>('result \<times> state) option\<close>. The value \<open>None\<close> stands for an execution that does
  not return to its caller: \<^verbatim>\<open>panic\<close> stops the machine, and a thread that sleeps on a lock
  nobody else holds is blocked for ever. Error codes (\<open>-1\<close>, null pointers) are ordinary
  results.
\<close>

unbundle bit_operations_syntax

section \<open>Types\<close>

type_synonym byte = "8 word"
type_synonym u16 = "16 word"
type_synonym u32 = "32 word"
type_synonym u64 = "64 word"

text \<open>Collections that the component theories fill and their proofs use.\<close>

named_theorems frame "what an operation leaves unchanged"
named_theorems inv_intro "preservation of a component's invariant"

section \<open>Executions that do not return\<close>

definition panic :: "string \<Rightarrow> 'a option" where
  "panic msg = None"

definition blocked :: "'a option" where
  "blocked = None"

lemma panic_None [simp]: "panic msg = None"
  by (simp add: panic_def)

lemma blocked_None [simp]: "blocked = None"
  by (simp add: blocked_def)

text \<open>Inversion of a sequential composition in the option monad.\<close>

lemma bind_SomeE:
  assumes "m \<bind> f = Some y"
  obtains x where "m = Some x" and "f x = Some y"
  using assms by (auto simp: bind_eq_Some_conv)

text \<open>
  What holds of the result of an execution, if it returns: a postcondition, with one rule for
  each construct of the language of the models.
\<close>

definition post :: "'a option \<Rightarrow> ('a \<Rightarrow> bool) \<Rightarrow> bool" where
  "post m Q \<longleftrightarrow> (\<forall>x. m = Some x \<longrightarrow> Q x)"

lemma postI: "(\<And>x. m = Some x \<Longrightarrow> Q x) \<Longrightarrow> post m Q"
  by (simp add: post_def)

lemma postD: "post m Q \<Longrightarrow> m = Some x \<Longrightarrow> Q x"
  by (simp add: post_def)

lemma post_Some [simp]: "post (Some x) Q = Q x"
  by (simp add: post_def)

lemma post_None [simp]: "post None Q"
  by (simp add: post_def)

lemma post_bind: "post m P \<Longrightarrow> (\<And>x. P x \<Longrightarrow> post (f x) Q) \<Longrightarrow> post (m \<bind> f) Q"
  by (auto simp: post_def bind_eq_Some_conv)

lemma post_if: "(b \<Longrightarrow> post m Q) \<Longrightarrow> (\<not> b \<Longrightarrow> post n Q) \<Longrightarrow> post (if b then m else n) Q"
  by simp

lemma post_option: "(x = None \<Longrightarrow> post m Q) \<Longrightarrow> (\<And>y. x = Some y \<Longrightarrow> post (f y) Q) \<Longrightarrow>
    post (case x of None \<Rightarrow> m | Some y \<Rightarrow> f y) Q"
  by (cases x) simp_all

lemma post_prod: "(\<And>a b. x = (a, b) \<Longrightarrow> post (f a b) Q) \<Longrightarrow> post (case x of (a, b) \<Rightarrow> f a b) Q"
  by (cases x) simp

lemma post_Let: "post (f x) Q \<Longrightarrow> post (let y = x in f y) Q"
  by simp

lemma post_weaken: "post m P \<Longrightarrow> (\<And>x. P x \<Longrightarrow> Q x) \<Longrightarrow> post m Q"
  by (auto simp: post_def)

lemma post_bind_if: "(b \<Longrightarrow> post (m \<bind> f) Q) \<Longrightarrow> (\<not> b \<Longrightarrow> post (n \<bind> f) Q) \<Longrightarrow>
    post ((if b then m else n) \<bind> f) Q"
  by simp

lemma post_bind_option: "(x = None \<Longrightarrow> post (m \<bind> g) Q) \<Longrightarrow> (\<And>y. x = Some y \<Longrightarrow> post (f y \<bind> g) Q) \<Longrightarrow>
    post ((case x of None \<Rightarrow> m | Some y \<Rightarrow> f y) \<bind> g) Q"
  by (cases x) simp_all

lemma post_bind_prod: "(\<And>a b. x = (a, b) \<Longrightarrow> post (f a b \<bind> g) Q) \<Longrightarrow> post ((case x of (a, b) \<Rightarrow> f a b) \<bind> g) Q"
  by (cases x) simp

lemma post_bind_bind: "post (m \<bind> (\<lambda>x. f x \<bind> g)) Q \<Longrightarrow> post ((m \<bind> f) \<bind> g) Q"
  by simp

lemmas post_rules = post_if post_option post_prod post_Let post_bind_if post_bind_option post_bind_prod post_bind_bind

lemma unat_less_u32: "unat (w :: u32) < 2 ^ 32"
  using unsigned_less [of w] by simp

section \<open>Linear scans over fixed tables\<close>

text \<open>
  The loops \<^verbatim>\<open>for(p = tab; p < &tab[N]; p++) if(test(p)) goto found;\<close> return the first slot
  that passes the test.
\<close>

fun first_idx :: "('a \<Rightarrow> bool) \<Rightarrow> 'a list \<Rightarrow> nat option" where
  "first_idx P [] = None"
| "first_idx P (x # xs) = (if P x then Some 0 else map_option Suc (first_idx P xs))"

lemma first_idx_Some_iff:
  "first_idx P xs = Some i \<longleftrightarrow> i < length xs \<and> P (xs ! i) \<and> (\<forall>j < i. \<not> P (xs ! j))"
proof (induction xs arbitrary: i)
  case Nil
  then show ?case by simp
next
  case (Cons x xs)
  show ?case
  proof (cases i)
    case 0
    then show ?thesis by auto
  next
    case (Suc k)
    then show ?thesis using Cons.IH [of k] by (auto simp: All_less_Suc2)
  qed
qed

lemma first_idx_None_iff: "first_idx P xs = None \<longleftrightarrow> (\<forall>x \<in> set xs. \<not> P x)"
  by (induction xs) auto

lemma first_idx_SomeD:
  assumes "first_idx P xs = Some i"
  shows "i < length xs" "P (xs ! i)" "\<And>j. j < i \<Longrightarrow> \<not> P (xs ! j)"
  using assms by (auto simp: first_idx_Some_iff)

lemma first_idx_ex: "i < length xs \<Longrightarrow> P (xs ! i) \<Longrightarrow> \<exists>j \<le> i. first_idx P xs = Some j"
proof -
  assume i: "i < length xs" and p: "P (xs ! i)"
  define j where "j = (LEAST k. k < length xs \<and> P (xs ! k))"
  have j: "j < length xs \<and> P (xs ! j)"
    unfolding j_def by (rule LeastI [of _ i]) (use i p in simp)
  have least: "\<not> P (xs ! k)" if "k < j" for k
    using not_less_Least [of k "\<lambda>k. k < length xs \<and> P (xs ! k)"] that j
    unfolding j_def by auto
  have "j \<le> i"
    unfolding j_def by (rule Least_le) (use i p in simp)
  moreover have "first_idx P xs = Some j"
    using j least by (simp add: first_idx_Some_iff)
  ultimately show ?thesis by blast
qed

section \<open>Byte arrays\<close>

text \<open>\<^verbatim>\<open>memmove(base + off, bs, n)\<close> into an array that does not overlap the source.\<close>

definition blit :: "nat \<Rightarrow> 'a list \<Rightarrow> 'a list \<Rightarrow> 'a list" where
  "blit off bs base = take off base @ bs @ drop (off + length bs) base"

definition cut :: "nat \<Rightarrow> nat \<Rightarrow> 'a list \<Rightarrow> 'a list" where
  "cut off n base = take n (drop off base)"

lemma length_blit [simp]:
  "off + length bs \<le> length base \<Longrightarrow> length (blit off bs base) = length base"
  by (simp add: blit_def)

lemma length_cut [simp]:
  "off + n \<le> length base \<Longrightarrow> length (cut off n base) = n"
  by (simp add: cut_def)

lemma cut_blit_same [simp]:
  "off + length bs \<le> length base \<Longrightarrow> n = length bs \<Longrightarrow> cut off n (blit off bs base) = bs"
  by (simp add: cut_def blit_def)

lemma nth_blit:
  assumes "off + length bs \<le> length base" and "i < length base"
  shows "blit off bs base ! i =
    (if off \<le> i \<and> i < off + length bs then bs ! (i - off) else base ! i)"
  using assms by (auto simp: blit_def nth_append min_def)

lemma nth_cut: "i < n \<Longrightarrow> off + n \<le> length base \<Longrightarrow> cut off n base ! i = base ! (off + i)"
  by (simp add: cut_def)

lemma cut_blit_disjoint:
  assumes "off + length bs \<le> length base" and "o2 + n \<le> length base"
    and "o2 + n \<le> off \<or> off + length bs \<le> o2"
  shows "cut o2 n (blit off bs base) = cut o2 n base"
  using assms by (intro nth_equalityI) (auto simp: nth_cut nth_blit)

section \<open>Little-endian integers\<close>

definition le16 :: "u16 \<Rightarrow> byte list" where
  "le16 w = [ucast w, ucast (drop_bit 8 w)]"

definition le32 :: "u32 \<Rightarrow> byte list" where
  "le32 w = [ucast w, ucast (drop_bit 8 w), ucast (drop_bit 16 w), ucast (drop_bit 24 w)]"

definition get16 :: "nat \<Rightarrow> byte list \<Rightarrow> u16" where
  "get16 off bs = ucast (bs ! off) OR push_bit 8 (ucast (bs ! (off + 1)))"

definition get32 :: "nat \<Rightarrow> byte list \<Rightarrow> u32" where
  "get32 off bs = ucast (bs ! off) OR push_bit 8 (ucast (bs ! (off + 1)))
     OR push_bit 16 (ucast (bs ! (off + 2))) OR push_bit 24 (ucast (bs ! (off + 3)))"

lemma length_le16 [simp]: "length (le16 w) = 2"
  by (simp add: le16_def)

lemma length_le32 [simp]: "length (le32 w) = 4"
  by (simp add: le32_def)

lemma get16_le16 [simp]: "get16 0 (le16 w @ rest) = w"
  by (rule bit_eqI) (auto simp: get16_def le16_def bit_simps less_Suc_eq)

lemma get32_le32 [simp]: "get32 0 (le32 w @ rest) = w"
proof (rule bit_eqI)
  fix n
  assume "possible_bit TYPE(u32) n"
  then have "n < 32" by simp
  then consider "n < 8" | "8 \<le> n" "n < 16" | "16 \<le> n" "n < 24" | "24 \<le> n" "n < 32"
    by linarith
  then show "bit (get32 0 (le32 w @ rest)) n \<longleftrightarrow> bit w n"
    by cases (auto simp: get32_def le32_def bit_simps)
qed

lemma get16_cut: "off + 2 \<le> length bs \<Longrightarrow> get16 off bs = get16 0 (cut off 2 bs)"
  by (simp add: get16_def nth_cut)

lemma get32_cut: "off + 4 \<le> length bs \<Longrightarrow> get32 off bs = get32 0 (cut off 4 bs)"
  by (simp add: get32_def nth_cut)

lemma le16_inj [simp]: "le16 v = le16 w \<longleftrightarrow> v = w"
  by (metis get16_le16)

lemma le32_inj [simp]: "le32 v = le32 w \<longleftrightarrow> v = w"
  by (metis get32_le32)

text \<open>Reading back a value stored with \<^verbatim>\<open>memmove\<close>, and storing what was read.\<close>

lemma get32_blit_same:
  assumes "off + 4 \<le> length bs"
  shows "get32 off (blit off (le32 w) bs) = w"
proof -
  have "get32 off (blit off (le32 w) bs) = get32 0 (cut off 4 (blit off (le32 w) bs))"
    using assms by (intro get32_cut) simp
  also have "\<dots> = get32 0 (le32 w @ [])"
    using assms by simp
  finally show ?thesis by (simp only: get32_le32)
qed

lemma get32_blit_other:
  assumes "o1 + 4 \<le> length bs" "o2 + length xs \<le> length bs" "o1 + 4 \<le> o2 \<or> o2 + length xs \<le> o1"
  shows "get32 o1 (blit o2 xs bs) = get32 o1 bs"
  using assms by (simp add: get32_cut cut_blit_disjoint)

end
