(* ===== verification/Xv6_String.thy ===== *)
theory Xv6_String
  imports Xv6_Prelude
begin

text \<open>
  The byte and string routines of \<^verbatim>\<open>string.c\<close> (kernel) and \<^verbatim>\<open>ulib.c\<close> (user space).

  An object in memory is a byte list, a pointer into it an index. A routine that only reads
  through a pointer takes the bytes from the pointer to the end of the object. Reading or
  writing outside the object is undefined behaviour in C and is the value \<open>None\<close> here, so
  that a theorem with a \<open>Some\<close> on its right also says that no access leaves the object.
\<close>

section \<open>Filling: \<^verbatim>\<open>memset\<close>\<close>

text \<open>\<^verbatim>\<open>rep stosb\<close> and \<^verbatim>\<open>rep stosl\<close> store \<^verbatim>\<open>cnt\<close> bytes or 32-bit words, upwards.\<close>

fun stosb :: "nat \<Rightarrow> u32 \<Rightarrow> nat \<Rightarrow> byte list \<Rightarrow> byte list option" where
  "stosb d dat 0 m = Some m"
| "stosb d dat (Suc cnt) m =
     (if d < length m then stosb (d + 1) dat cnt (m[d := ucast dat]) else None)"

fun stosl :: "nat \<Rightarrow> u32 \<Rightarrow> nat \<Rightarrow> byte list \<Rightarrow> byte list option" where
  "stosl d dat 0 m = Some m"
| "stosl d dat (Suc cnt) m =
     (if d + 4 \<le> length m then stosl (d + 4) dat cnt (blit d (le32 dat) m) else None)"

text \<open>
  \<open>addr\<close> is the address of the object, which decides about the alignment of
  \<^verbatim>\<open>dst\<close>. The count argument of the two instructions is an \<^verbatim>\<open>int\<close>: a 64-bit count
  loses its upper half.
\<close>

definition memset :: "u64 \<Rightarrow> nat \<Rightarrow> u32 \<Rightarrow> u64 \<Rightarrow> byte list \<Rightarrow> byte list option" where
  "memset addr d c n m =
     (if (addr + of_nat d) mod 4 = 0 \<and> n mod 4 = 0 then
        let c = c AND 0xFF in
        stosl d (push_bit 24 c OR push_bit 16 c OR push_bit 8 c OR c)
          (unat (ucast (n div 4) :: u32)) m
      else stosb d c (unat (ucast n :: u32)) m)"

section \<open>Comparing: \<^verbatim>\<open>memcmp\<close>, \<^verbatim>\<open>strncmp\<close>, \<^verbatim>\<open>strcmp\<close>\<close>

fun memcmp :: "byte list \<Rightarrow> byte list \<Rightarrow> nat \<Rightarrow> int option" where
  "memcmp v1 v2 0 = Some 0"
| "memcmp (a # v1) (b # v2) (Suc n) =
     (if a \<noteq> b then Some (uint a - uint b) else memcmp v1 v2 n)"
| "memcmp _ _ (Suc n) = None"

fun strncmp :: "byte list \<Rightarrow> byte list \<Rightarrow> nat \<Rightarrow> int option" where
  "strncmp p q 0 = Some 0"
| "strncmp (a # p) (b # q) (Suc n) =
     (if a \<noteq> 0 \<and> a = b then strncmp p q n else Some (uint a - uint b))"
| "strncmp _ _ (Suc n) = None"

fun strcmp :: "byte list \<Rightarrow> byte list \<Rightarrow> int option" where
  "strcmp (a # p) (b # q) =
     (if a \<noteq> 0 \<and> a = b then strcmp p q else Some (uint a - uint b))"
| "strcmp _ _ = None"

section \<open>Copying: \<^verbatim>\<open>memmove\<close>\<close>

fun copy_up :: "nat \<Rightarrow> nat \<Rightarrow> nat \<Rightarrow> byte list \<Rightarrow> byte list option" where
  "copy_up 0 d s m = Some m"
| "copy_up (Suc n) d s m =
     (if d < length m \<and> s < length m then copy_up n (d + 1) (s + 1) (m[d := m ! s]) else None)"

fun copy_down :: "nat \<Rightarrow> nat \<Rightarrow> nat \<Rightarrow> byte list \<Rightarrow> byte list option" where
  "copy_down 0 d s m = Some m"
| "copy_down (Suc n) d s m =
     (if 0 < d \<and> d \<le> length m \<and> 0 < s \<and> s \<le> length m
      then copy_down n (d - 1) (s - 1) (m[d - 1 := m ! (s - 1)]) else None)"

definition memmove :: "nat \<Rightarrow> nat \<Rightarrow> nat \<Rightarrow> byte list \<Rightarrow> byte list option" where
  "memmove d s n m =
     (if s < d \<and> s + n > d then copy_down n (d + n) (s + n) m else copy_up n d s m)"

definition memcpy :: "nat \<Rightarrow> nat \<Rightarrow> nat \<Rightarrow> byte list \<Rightarrow> byte list option" where
  "memcpy d s n m = memmove d s n m"

text \<open>The user library's \<^verbatim>\<open>memmove\<close> always copies upwards.\<close>

definition ulib_memmove :: "nat \<Rightarrow> nat \<Rightarrow> int \<Rightarrow> byte list \<Rightarrow> byte list option" where
  "ulib_memmove d s n m = copy_up (nat n) d s m"

section \<open>Strings: \<^verbatim>\<open>strlen\<close>, \<^verbatim>\<open>strncpy\<close>, \<^verbatim>\<open>safestrcpy\<close>, \<^verbatim>\<open>strcpy\<close>, \<^verbatim>\<open>strchr\<close>, \<^verbatim>\<open>atoi\<close>\<close>

fun strlen :: "byte list \<Rightarrow> nat option" where
  "strlen [] = None"
| "strlen (a # s) = (if a = 0 then Some 0 else map_option Suc (strlen s))"

text \<open>\<open>s\<close> is the destination array, \<open>t\<close> the source from its pointer on.\<close>

fun pad0 :: "nat \<Rightarrow> byte list \<Rightarrow> byte list option" where
  "pad0 0 s = Some s"
| "pad0 (Suc n) [] = None"
| "pad0 (Suc n) (_ # s) = map_option ((#) 0) (pad0 n s)"

fun strncpy_n :: "nat \<Rightarrow> byte list \<Rightarrow> byte list \<Rightarrow> byte list option" where
  "strncpy_n 0 s t = Some s"
| "strncpy_n (Suc n) (_ # s) (b # t) =
     map_option ((#) b) (if b \<noteq> 0 then strncpy_n n s t else pad0 n s)"
| "strncpy_n (Suc n) _ _ = None"

definition strncpy :: "byte list \<Rightarrow> byte list \<Rightarrow> int \<Rightarrow> byte list option" where
  "strncpy s t n = strncpy_n (nat n) s t"

text \<open>The loop \<^verbatim>\<open>while(--n > 0 && (*s++ = *t++) != 0)\<close>, then \<^verbatim>\<open>*s = 0\<close>.\<close>

fun safestrcpy_n :: "nat \<Rightarrow> byte list \<Rightarrow> byte list \<Rightarrow> byte list option" where
  "safestrcpy_n 0 (_ # s) t = Some (0 # s)"
| "safestrcpy_n (Suc n) (_ # s) (b # t) =
     map_option ((#) b)
       (if b \<noteq> 0 then safestrcpy_n n s t
        else case s of [] \<Rightarrow> None | _ # s' \<Rightarrow> Some (0 # s'))"
| "safestrcpy_n _ _ _ = None"

definition safestrcpy :: "byte list \<Rightarrow> byte list \<Rightarrow> int \<Rightarrow> byte list option" where
  "safestrcpy s t n = (if n \<le> 0 then Some s else safestrcpy_n (nat (n - 1)) s t)"

fun strcpy :: "byte list \<Rightarrow> byte list \<Rightarrow> byte list option" where
  "strcpy (_ # s) (b # t) = map_option ((#) b) (if b \<noteq> 0 then strcpy s t else Some s)"
| "strcpy _ _ = None"

text \<open>\<^verbatim>\<open>strchr\<close> gives the index of the character, or the null pointer (inner \<open>None\<close>).\<close>

fun strchr :: "byte list \<Rightarrow> byte \<Rightarrow> nat option option" where
  "strchr [] c = None"
| "strchr (a # s) c =
     (if a = 0 then Some None else if a = c then Some (Some 0)
      else map_option (map_option Suc) (strchr s c))"

fun atoi_from :: "int \<Rightarrow> byte list \<Rightarrow> int option" where
  "atoi_from n [] = None"
| "atoi_from n (a # s) =
     (if 48 \<le> sint a \<and> sint a \<le> 57 then atoi_from (n * 10 + sint a - 48) s else Some n)"

definition atoi :: "byte list \<Rightarrow> int option" where
  "atoi s = atoi_from 0 s"

section \<open>Copying is correct\<close>

lemma blit_Nil [simp]: "blit d [] m = m"
  by (simp add: blit_def)

lemma cut_0 [simp]: "cut s 0 m = []"
  by (simp add: cut_def)

lemma copy_up_blit:
  assumes "d + n \<le> length m" "s + n \<le> length m" "d \<le> s \<or> s + n \<le> d"
  shows "copy_up n d s m = Some (blit d (cut s n m) m)"
  using assms
proof (induction n arbitrary: d s m)
  case 0
  then show ?case by simp
next
  case (Suc n)
  let ?m = "m[d := m ! s]"
  have "copy_up n (d + 1) (s + 1) ?m = Some (blit (d + 1) (cut (s + 1) n ?m) ?m)"
    using Suc.prems by (intro Suc.IH) auto
  moreover have "blit (d + 1) (cut (s + 1) n ?m) ?m = blit d (cut s (Suc n) m) m"
    using Suc.prems
    by (intro nth_equalityI) (auto simp: nth_blit nth_cut nth_list_update Suc_diff_Suc not_less_eq_eq)
  ultimately show ?case using Suc.prems by simp
qed

lemma copy_down_blit:
  assumes "d + n \<le> length m" "s + n \<le> length m" "s \<le> d"
  shows "copy_down n (d + n) (s + n) m = Some (blit d (cut s n m) m)"
  using assms
proof (induction n arbitrary: m)
  case 0
  then show ?case by simp
next
  case (Suc n)
  let ?m = "m[d + n := m ! (s + n)]"
  have "copy_down n (d + n) (s + n) ?m = Some (blit d (cut s n ?m) ?m)"
    using Suc.prems by (intro Suc.IH) auto
  moreover have "blit d (cut s n ?m) ?m = blit d (cut s (Suc n) m) m"
    using Suc.prems
    by (intro nth_equalityI) (auto simp: nth_blit nth_cut nth_list_update)
  ultimately show ?case using Suc.prems by simp
qed

text \<open>
  C39. The kernel's \<^verbatim>\<open>memmove\<close> moves the old contents of the source range to the destination
  range and changes nothing else, whether or not the ranges overlap, and makes no access
  outside them.
\<close>

theorem memmove_correct:
  assumes "d + n \<le> length m" and "s + n \<le> length m"
  shows "memmove d s n m = Some (blit d (cut s n m) m)"
proof (cases "s < d \<and> s + n > d")
  case True
  then show ?thesis using assms by (simp add: memmove_def copy_down_blit)
next
  case False
  then show ?thesis using assms by (auto simp: memmove_def intro!: copy_up_blit)
qed

theorem memmove_correct_witness:
  "(2::nat) + 3 \<le> length ([1,2,3,4,5] :: byte list) \<and>
   memmove 2 1 3 [1,2,3,4,5] = Some [1,2,2,3,4]"
  using memmove_correct [of 2 3 "[1,2,3,4,5]" 1] by (simp add: blit_def cut_def)



section \<open>Filling is correct\<close>

lemma blit_Cons:
  assumes "d < length m"
  shows "blit (d + 1) bs (m[d := b]) = blit d (b # bs) m"
  using assms by (simp add: blit_def take_Suc_conv_app_nth upd_conv_take_nth_drop ac_simps)

lemma blit_append:
  assumes "d + length as + length bs \<le> length m"
  shows "blit (d + length as) bs (blit d as m) = blit d (as @ bs) m"
  using assms by (simp add: blit_def ac_simps)

lemma stosb_blit:
  "d + cnt \<le> length m \<Longrightarrow> stosb d dat cnt m = Some (blit d (replicate cnt (ucast dat)) m)"
proof (induction cnt arbitrary: d m)
  case 0
  then show ?case by simp
next
  case (Suc cnt)
  then show ?case using blit_Cons [of d m] by simp
qed

lemma stosl_blit:
  assumes "le32 dat = replicate 4 b" and "d + 4 * cnt \<le> length m"
  shows "stosl d dat cnt m = Some (blit d (replicate (4 * cnt) b) m)"
  using assms(2)
proof (induction cnt arbitrary: d m)
  case 0
  then show ?case by simp
next
  case (Suc cnt)
  then have "stosl (d + 4) dat cnt (blit d (le32 dat) m) =
      Some (blit (d + 4) (replicate (4 * cnt) b) (blit d (le32 dat) m))"
    by (intro Suc.IH) simp
  also have "blit (d + 4) (replicate (4 * cnt) b) (blit d (le32 dat) m) =
      blit d (le32 dat @ replicate (4 * cnt) b) m"
    using blit_append [of d "le32 dat" "replicate (4 * cnt) b" m] Suc.prems by simp
  also have "le32 dat @ replicate (4 * cnt) b = replicate (4 * Suc cnt) b"
    by (simp add: assms(1) replicate_add [symmetric])
  finally show ?case using Suc.prems by simp
qed

lemma stosl_pattern:
  "le32 (push_bit 24 (c AND 0xFF) OR push_bit 16 (c AND 0xFF) OR push_bit 8 (c AND 0xFF)
     OR (c AND 0xFF)) = replicate 4 (ucast (c :: u32))"
  (is "le32 ?p = _")
proof -
  have mask: "c AND 0xFF = take_bit 8 c"
    by (simp add: take_bit_eq_mask mask_eq_exp_minus_1)
  have "ucast (drop_bit k ?p) = (ucast c :: byte)" if "k \<in> {0, 8, 16, 24}" for k
    using that by (intro bit_eqI) (auto simp: mask bit_simps)
  from this [of 0] this [of 8] this [of 16] this [of 24] show ?thesis
    by (simp add: le32_def numeral_eq_Suc)
qed

text \<open>
  \<^verbatim>\<open>memset\<close> fills exactly \<^verbatim>\<open>n\<close> bytes with the low byte of \<^verbatim>\<open>c\<close>, on the word-wise and
  on the byte-wise path, for every count below 4 GiB (the count of the string instructions is
  an \<^verbatim>\<open>int\<close>).
\<close>

theorem memset_fills:
  assumes "unat n < 2 ^ 32" and "d + unat n \<le> length m"
  shows "memset addr d c n m = Some (blit d (replicate (unat n) (ucast c)) m)"
proof (cases "(addr + of_nat d) mod 4 = 0 \<and> n mod 4 = 0")
  case True
  then have "unat (n mod 4) = 0" by simp
  then have n4: "unat n mod 4 = 0" by (simp add: unat_mod)
  have q: "unat (ucast (n div 4) :: u32) = unat n div 4"
    using assms(1) by (simp add: unsigned_ucast_eq unat_div take_bit_nat_eq_self)
  have "4 * (unat n div 4) = unat n" using n4 by auto
  then show ?thesis
    using True assms stosl_blit [OF stosl_pattern, of d "unat n div 4" m c]
    by (simp add: memset_def Let_def q)
next
  case False
  have "unat (ucast n :: u32) = unat n"
    using assms(1) by (simp add: unsigned_ucast_eq take_bit_nat_eq_self)
  then show ?thesis
    using False assms by (auto simp: memset_def stosb_blit)
qed

theorem memset_fills_witness:
  "memset 0 0 0x1FF 4 [1,2,3,4,5] = Some [255,255,255,255,5] \<and> unat (4 :: u64) < 2 ^ 32"
proof -
  have four: "replicate 4 x = [x,x,x,x]" for x :: byte
    by (simp add: numeral_eq_Suc)
  show ?thesis
    using memset_fills [of 4 0 "[1,2,3,4,5]" 0 "0x1FF"] by (simp add: blit_def four)
qed

section \<open>Strings as lists\<close>

text \<open>The string held in the first \<open>n\<close> bytes of an array: up to the first NUL, if any.\<close>

definition cstr :: "nat \<Rightarrow> byte list \<Rightarrow> byte list" where
  "cstr n p = takeWhile (\<lambda>b. b \<noteq> 0) (take n p)"

lemma cstr_0 [simp]: "cstr 0 p = []"
  by (simp add: cstr_def)

lemma cstr_Suc [simp]: "cstr (Suc n) (a # p) = (if a \<noteq> 0 then a # cstr n p else [])"
  by (simp add: cstr_def)

lemma length_cstr_le: "length (cstr n p) \<le> n"
  using length_takeWhile_le [of "\<lambda>b. b \<noteq> 0" "take n p"] by (simp add: cstr_def)

lemma cstr_pad:
  assumes "length c \<le> k" and "0 \<notin> set c"
  shows "cstr k (c @ replicate (k - length c) 0 @ rest) = c"
proof -
  have "takeWhile (\<lambda>b :: byte. b \<noteq> 0) (replicate j 0) = []" for j
    by (cases j) auto
  moreover have "\<forall>b \<in> set c. b \<noteq> 0" using assms(2) by auto
  ultimately show ?thesis
    using assms(1) by (simp add: cstr_def takeWhile_append2)
qed

lemma strncmp_cstr:
  assumes "n \<le> length p" and "n \<le> length q"
  shows "\<exists>r. strncmp p q n = Some r \<and> (r = 0 \<longleftrightarrow> cstr n p = cstr n q)"
  using assms
proof (induction p q n rule: strncmp.induct)
  case (2 a p b q n)
  then show ?case
    by (cases "a \<noteq> 0 \<and> a = b") (auto simp: uint_0_iff dest: unsigned_word_eqI)
qed auto

lemma pad0_eq: "n \<le> length s \<Longrightarrow> pad0 n s = Some (replicate n 0 @ drop n s)"
  by (induction n s rule: pad0.induct) auto

lemma strncpy_n_eq:
  assumes "n \<le> length s" and "n \<le> length t \<or> 0 \<in> set t"
  shows "strncpy_n n s t = Some (cstr n t @ replicate (n - length (cstr n t)) 0 @ drop n s)"
  using assms
  by (induction n s t rule: strncpy_n.induct) (auto simp: pad0_eq)

lemma strlen_Some_iff: "strlen s = Some k \<longleftrightarrow> k < length s \<and> s ! k = 0 \<and> 0 \<notin> set (take k s)"
proof (induction s arbitrary: k)
  case Nil
  then show ?case by simp
next
  case (Cons a s)
  then show ?case by (cases k) auto
qed

text \<open>
  \<^verbatim>\<open>strncpy\<close> writes exactly the \<^verbatim>\<open>n\<close> bytes of the destination: the source string cut
  at \<^verbatim>\<open>n\<close> bytes, then zeros; and \<^verbatim>\<open>strncmp\<close> on the first \<^verbatim>\<open>n\<close> bytes of the result and of
  the source finds them equal. This is what \<^verbatim>\<open>dirlink\<close> and \<^verbatim>\<open>dirlookup\<close> rely on for names.
\<close>

theorem strncpy_then_strncmp:
  assumes "0 \<le> n" and "nat n \<le> length s" and "nat n \<le> length t"
  shows "\<exists>r. strncpy s t n = Some r \<and> length r = length s \<and> drop (nat n) r = drop (nat n) s
    \<and> strncmp t r (nat n) = Some 0"
proof -
  define k where "k = nat n"
  let ?c = "cstr k t"
  let ?r = "?c @ replicate (k - length ?c) 0 @ drop k s"
  have le: "length ?c \<le> k" by (rule length_cstr_le)
  have "strncpy s t n = Some ?r"
    unfolding strncpy_def k_def [symmetric] using assms by (intro strncpy_n_eq) (auto simp: k_def)
  moreover have len: "length ?r = length s" using le assms by (simp add: k_def)
  moreover have "drop k ?r = drop k s" using le by simp
  moreover have "cstr k ?r = ?c"
    by (rule cstr_pad) (use le in \<open>auto simp: cstr_def dest: set_takeWhileD\<close>)
  then have "strncmp t ?r k = Some 0"
    using strncmp_cstr [of k t ?r] len assms by (auto simp: k_def)
  ultimately show ?thesis by (auto simp: k_def)
qed

theorem strncpy_then_strncmp_witness:
  "\<exists>r. strncpy [9,9,9,9] [97,98,0,7] 4 = Some r \<and> r = [97,98,0,0] \<and> strncmp [97,98,0,7] r 4 = Some 0"
proof -
  have "strncpy [9,9,9,9] [97,98,0,7] 4 = Some [97,98,0,0]" by code_simp
  then show ?thesis
    using strncpy_then_strncmp [of 4 "[9,9,9,9]" "[97,98,0,7]"] by auto
qed

end
