(* ===== verification/Xv6_Disk.thy ===== *)
theory Xv6_Disk
  imports Xv6_Prelude
begin

text \<open>
  The on-disk format of \<^verbatim>\<open>fs.h\<close>, shared by the kernel file system, the file server and
  \<^verbatim>\<open>mkfs\<close>: block geometry, the super block, inodes, directory entries, arrays of block
  numbers and the free bitmap, as byte layouts inside a block. A block is a list of
  \<open>BSIZE\<close> bytes; \<^verbatim>\<open>uint\<close> fields are 32-bit words, \<^verbatim>\<open>short\<close> fields 16-bit words.
\<close>

section \<open>Geometry\<close>

abbreviation (input) BSIZE :: nat where "BSIZE \<equiv> 512"
abbreviation (input) NDIRECT :: nat where "NDIRECT \<equiv> 12"
abbreviation (input) NINDIRECT :: nat where "NINDIRECT \<equiv> 128"
abbreviation (input) MAXFILE :: nat where "MAXFILE \<equiv> 140"
abbreviation (input) IPB :: nat where "IPB \<equiv> 8"
abbreviation (input) BPB :: nat where "BPB \<equiv> 4096"
abbreviation (input) DIRSIZ :: nat where "DIRSIZ \<equiv> 14"
abbreviation (input) ROOTINO :: u32 where "ROOTINO \<equiv> 1"
abbreviation (input) ROOTDEV :: u32 where "ROOTDEV \<equiv> 1"

type_synonym block = "byte list"

abbreviation (input) zero_block :: block where "zero_block \<equiv> replicate BSIZE 0"

text \<open>File types of \<^verbatim>\<open>stat.h\<close>.\<close>

abbreviation (input) T_DIR :: u16 where "T_DIR \<equiv> 1"
abbreviation (input) T_FILE :: u16 where "T_FILE \<equiv> 2"
abbreviation (input) T_DEV :: u16 where "T_DEV \<equiv> 3"

section \<open>Super block\<close>

record superblock =
  sb_size :: u32
  sb_nblocks :: u32
  sb_ninodes :: u32
  sb_nlog :: u32
  sb_logstart :: u32
  sb_inodestart :: u32
  sb_bmapstart :: u32

definition decode_sb :: "block \<Rightarrow> superblock" where
  "decode_sb bs = \<lparr>sb_size = get32 0 bs, sb_nblocks = get32 4 bs, sb_ninodes = get32 8 bs,
     sb_nlog = get32 12 bs, sb_logstart = get32 16 bs, sb_inodestart = get32 20 bs,
     sb_bmapstart = get32 24 bs\<rparr>"

definition encode_sb :: "superblock \<Rightarrow> byte list" where
  "encode_sb sb = le32 (sb_size sb) @ le32 (sb_nblocks sb) @ le32 (sb_ninodes sb)
     @ le32 (sb_nlog sb) @ le32 (sb_logstart sb) @ le32 (sb_inodestart sb) @ le32 (sb_bmapstart sb)"

text \<open>The block that holds inode \<open>i\<close>, and the bitmap block with the bit of block \<open>b\<close>.\<close>

definition IBLOCK :: "u32 \<Rightarrow> superblock \<Rightarrow> u32" where
  "IBLOCK i sb = i div 8 + sb_inodestart sb"

definition BBLOCK :: "u32 \<Rightarrow> superblock \<Rightarrow> u32" where
  "BBLOCK b sb = b div 4096 + sb_bmapstart sb"

section \<open>Inodes\<close>

record dinode =
  di_type :: u16
  di_major :: u16
  di_minor :: u16
  di_nlink :: u16
  di_size :: u32
  di_addrs :: "u32 list"

definition zero_dinode :: dinode where
  "zero_dinode = \<lparr>di_type = 0, di_major = 0, di_minor = 0, di_nlink = 0, di_size = 0,
     di_addrs = replicate (NDIRECT + 1) 0\<rparr>"

abbreviation (input) dinode_size :: nat where "dinode_size \<equiv> 64"

definition encode_dinode :: "dinode \<Rightarrow> byte list" where
  "encode_dinode d = le16 (di_type d) @ le16 (di_major d) @ le16 (di_minor d) @ le16 (di_nlink d)
     @ le32 (di_size d) @ concat (map le32 (di_addrs d))"

definition decode_dinode :: "byte list \<Rightarrow> dinode" where
  "decode_dinode bs = \<lparr>di_type = get16 0 bs, di_major = get16 2 bs, di_minor = get16 4 bs,
     di_nlink = get16 6 bs, di_size = get32 8 bs,
     di_addrs = map (\<lambda>k. get32 (12 + 4 * k) bs) [0..<NDIRECT + 1]\<rparr>"

text \<open>\<^verbatim>\<open>(struct dinode*)bp->data + k\<close>, read and written.\<close>

definition get_dinode :: "nat \<Rightarrow> block \<Rightarrow> dinode" where
  "get_dinode k blk = decode_dinode (cut (dinode_size * k) dinode_size blk)"

definition put_dinode :: "nat \<Rightarrow> dinode \<Rightarrow> block \<Rightarrow> block" where
  "put_dinode k d blk = blit (dinode_size * k) (encode_dinode d) blk"

section \<open>Directory entries and arrays of block numbers\<close>

record dirent =
  de_inum :: u16
  de_name :: "byte list"

abbreviation (input) dirent_size :: nat where "dirent_size \<equiv> 16"

definition encode_dirent :: "dirent \<Rightarrow> byte list" where
  "encode_dirent de = le16 (de_inum de) @ de_name de"

definition decode_dirent :: "byte list \<Rightarrow> dirent" where
  "decode_dirent bs = \<lparr>de_inum = get16 0 bs, de_name = cut 2 DIRSIZ bs\<rparr>"

definition get_addr :: "nat \<Rightarrow> block \<Rightarrow> u32" where
  "get_addr k blk = get32 (4 * k) blk"

definition put_addr :: "nat \<Rightarrow> u32 \<Rightarrow> block \<Rightarrow> block" where
  "put_addr k a blk = blit (4 * k) (le32 a) blk"

section \<open>The free bitmap\<close>

text \<open>\<^verbatim>\<open>m = 1 << (bi % 8)\<close>, then \<^verbatim>\<open>data[bi/8] & m\<close>, \<^verbatim>\<open>|= m\<close> and \<^verbatim>\<open>&= ~m\<close>.\<close>

definition bm_mask :: "nat \<Rightarrow> byte" where
  "bm_mask bi = push_bit (bi mod 8) 1"

definition bm_free :: "nat \<Rightarrow> block \<Rightarrow> bool" where
  "bm_free bi blk \<longleftrightarrow> (blk ! (bi div 8)) AND bm_mask bi = 0"

definition bm_set :: "nat \<Rightarrow> block \<Rightarrow> block" where
  "bm_set bi blk = blk[bi div 8 := (blk ! (bi div 8)) OR bm_mask bi]"

definition bm_clear :: "nat \<Rightarrow> block \<Rightarrow> block" where
  "bm_clear bi blk = blk[bi div 8 := (blk ! (bi div 8)) AND NOT (bm_mask bi)]"

section \<open>Lemmas on layouts\<close>

lemma length_encode_dinode [simp]:
  "length (di_addrs d) = 13 \<Longrightarrow> length (encode_dinode d) = 64"
  by (simp add: encode_dinode_def length_concat comp_def sum_list_triv)

lemma length_put_dinode [simp]:
  "k < IPB \<Longrightarrow> length (di_addrs d) = 13 \<Longrightarrow> length blk = BSIZE \<Longrightarrow> length (put_dinode k d blk) = BSIZE"
  by (simp add: put_dinode_def)

lemma length_put_addr [simp]:
  "k < NINDIRECT \<Longrightarrow> length blk = BSIZE \<Longrightarrow> length (put_addr k a blk) = BSIZE"
  by (simp add: put_addr_def)

lemma length_bm_set [simp]: "length (bm_set bi blk) = length blk"
  by (simp add: bm_set_def)

lemma length_bm_clear [simp]: "length (bm_clear bi blk) = length blk"
  by (simp add: bm_clear_def)

lemma get32_append2: "length as \<le> n \<Longrightarrow> get32 n (as @ bs) = get32 (n - length as) bs"
  by (simp add: get32_def nth_append Suc_diff_le)

lemma get16_append2: "length as \<le> n \<Longrightarrow> get16 n (as @ bs) = get16 (n - length as) bs"
  by (simp add: get16_def nth_append Suc_diff_le)

lemma get32_concat_le32:
  "k < length ws \<Longrightarrow> get32 (4 * k) (concat (map le32 ws) @ rest) = ws ! k"
proof (induction ws arbitrary: k)
  case Nil
  then show ?case by simp
next
  case (Cons w ws)
  then show ?case by (cases k) (simp_all add: get32_append2)
qed

lemma decode_encode_dinode:
  assumes "length (di_addrs d) = 13"
  shows "decode_dinode (encode_dinode d) = d"
proof -
  have "get32 (12 + 4 * k) (encode_dinode d) = di_addrs d ! k" if "k < 13" for k
    using get32_concat_le32 [of k "di_addrs d" "[]"] that assms
    by (simp add: encode_dinode_def get32_append2)
  then have "map (\<lambda>k. get32 (12 + 4 * k) (encode_dinode d)) [0..<13] = di_addrs d"
    using assms by (intro nth_equalityI) auto
  moreover have "get16 0 (encode_dinode d) = di_type d" "get16 2 (encode_dinode d) = di_major d"
    "get16 4 (encode_dinode d) = di_minor d" "get16 6 (encode_dinode d) = di_nlink d"
    "get32 8 (encode_dinode d) = di_size d"
    by (simp_all add: encode_dinode_def get32_append2 get16_append2)
  ultimately show ?thesis by (simp add: decode_dinode_def)
qed

lemma get_put_dinode_same:
  assumes "k < IPB" and "length (di_addrs d) = 13" and "length blk = BSIZE"
  shows "get_dinode k (put_dinode k d blk) = d"
  using assms by (simp add: get_dinode_def put_dinode_def decode_encode_dinode)

lemma get_put_dinode_other:
  assumes "j < IPB" "k < IPB" "j \<noteq> k" and "length (di_addrs d) = 13" and "length blk = BSIZE"
  shows "get_dinode j (put_dinode k d blk) = get_dinode j blk"
proof -
  have "cut (64 * j) 64 (blit (64 * k) (encode_dinode d) blk) = cut (64 * j) 64 blk"
    using assms by (intro cut_blit_disjoint) auto
  then show ?thesis by (simp add: get_dinode_def put_dinode_def)
qed

lemma length_di_addrs_get [simp]: "length (di_addrs (get_dinode k blk)) = 13"
  by (simp add: get_dinode_def decode_dinode_def)

lemma get_put_addr_same:
  "k < NINDIRECT \<Longrightarrow> length blk = BSIZE \<Longrightarrow> get_addr k (put_addr k a blk) = a"
  by (simp add: get_addr_def put_addr_def get32_blit_same)

lemma get_put_addr_other:
  "j < NINDIRECT \<Longrightarrow> k < NINDIRECT \<Longrightarrow> j \<noteq> k \<Longrightarrow> length blk = BSIZE \<Longrightarrow>
   get_addr j (put_addr k a blk) = get_addr j blk"
  unfolding get_addr_def put_addr_def by (rule get32_blit_other) auto

lemma decode_encode_dirent:
  "length (de_name de) = DIRSIZ \<Longrightarrow> decode_dirent (encode_dirent de) = de"
  by (simp add: decode_dirent_def encode_dirent_def cut_def)

lemma length_encode_dirent [simp]:
  "length (de_name de) = DIRSIZ \<Longrightarrow> length (encode_dirent de) = dirent_size"
  by (simp add: encode_dirent_def)

lemma length_de_name_decode [simp]:
  "length bs = dirent_size \<Longrightarrow> length (de_name (decode_dirent bs)) = DIRSIZ"
  by (simp add: decode_dirent_def)

lemma decode_encode_sb: "decode_sb (encode_sb sb @ rest) = sb"
  by (simp add: decode_sb_def encode_sb_def get32_append2)

section \<open>Lemmas on the bitmap\<close>

lemma bm_free_bit: "bm_free bi blk \<longleftrightarrow> \<not> bit (blk ! (bi div 8)) (bi mod 8)"
proof
  assume "bm_free bi blk"
  then have "bit ((blk ! (bi div 8)) AND bm_mask bi) (bi mod 8) = bit (0 :: byte) (bi mod 8)"
    by (simp add: bm_free_def)
  then show "\<not> bit (blk ! (bi div 8)) (bi mod 8)"
    by (simp add: bm_mask_def bit_simps)
next
  assume a: "\<not> bit (blk ! (bi div 8)) (bi mod 8)"
  have "(blk ! (bi div 8)) AND bm_mask bi = 0"
    by (rule bit_eqI) (use a in \<open>auto simp: bm_mask_def bit_simps\<close>)
  then show "bm_free bi blk" by (simp add: bm_free_def)
qed

lemma bm_free_set:
  assumes "bi div 8 < length blk"
  shows "bm_free bj (bm_set bi blk) \<longleftrightarrow> bj \<noteq> bi \<and> bm_free bj blk"
proof (cases "bj div 8 = bi div 8")
  case True
  then have "bj = bi \<longleftrightarrow> bj mod 8 = bi mod 8"
    by (metis div_mult_mod_eq)
  then show ?thesis using True assms
    by (auto simp: bm_free_bit bm_set_def bm_mask_def bit_simps)
next
  case False
  then show ?thesis by (auto simp: bm_free_bit bm_set_def)
qed

lemma bm_free_clear:
  assumes "bi div 8 < length blk"
  shows "bm_free bj (bm_clear bi blk) \<longleftrightarrow> bj = bi \<or> bm_free bj blk"
proof (cases "bj div 8 = bi div 8")
  case True
  then have "bj = bi \<longleftrightarrow> bj mod 8 = bi mod 8"
    by (metis div_mult_mod_eq)
  then show ?thesis using True assms
    by (auto simp: bm_free_bit bm_clear_def bm_mask_def bit_simps)
next
  case False
  then show ?thesis by (auto simp: bm_free_bit bm_clear_def)
qed

end
