(* ===== verification/Xv6_Bio.thy ===== *)
theory Xv6_Bio
  imports Xv6_Disk
begin

text \<open>
  The buffer cache of \<^verbatim>\<open>bio.c\<close> over the memory disk of \<^verbatim>\<open>memide.c\<close>.

  \<^verbatim>\<open>struct buf\<close> is a record; the two bits of \<^verbatim>\<open>flags\<close> are the fields \<open>b_valid\<close> and
  \<open>b_dirty\<close>, the sleep lock is its \<^verbatim>\<open>locked\<close> word \<open>b_locked\<close>. A buffer pointer is an
  index into \<open>bufs\<close>; the doubly linked list through \<^verbatim>\<open>prev\<close> and \<^verbatim>\<open>next\<close> is the list
  \<open>mru\<close> of these indices, \<^verbatim>\<open>head.next\<close> first. The state is an extensible record, so that the
  log, the file system and the file server extend it and call these operations directly.

  The spin lock \<^verbatim>\<open>bcache.lock\<close> makes the sections it protects atomic, which they are here by
  construction. A buffer that is locked when \<^verbatim>\<open>acquiresleep\<close> is called blocks the caller: in
  one thread of control there is nobody to release it.

  \<open>dhist\<close> is a history variable: the block writes that reached the disk, oldest first. No
  operation reads it; the crash theorems of the log are stated with it.
\<close>

abbreviation (input) NBUF :: nat where "NBUF \<equiv> 30"

record buf =
  b_valid :: bool
  b_dirty :: bool
  b_dev :: u32
  b_blockno :: u32
  b_locked :: bool
  b_refcnt :: u32
  b_data :: block

record bio =
  bufs :: "buf list"
  mru :: "nat list"
  memdisk :: "u32 \<Rightarrow> block"
  disksize :: u32
  dhist :: "(u32 \<times> block) list"

definition zero_buf :: buf where
  "zero_buf = \<lparr>b_valid = False, b_dirty = False, b_dev = 0, b_blockno = 0, b_locked = False,
     b_refcnt = 0, b_data = zero_block\<rparr>"

abbreviation buf_at :: "'a bio_scheme \<Rightarrow> nat \<Rightarrow> buf" where
  "buf_at s i \<equiv> bufs s ! i"

definition upd_buf :: "nat \<Rightarrow> (buf \<Rightarrow> buf) \<Rightarrow> 'a bio_scheme \<Rightarrow> 'a bio_scheme" where
  "upd_buf i f s = s\<lparr>bufs := (bufs s)[i := f (bufs s ! i)]\<rparr>"

text \<open>A caller that holds buffer \<open>i\<close> stores to \<^verbatim>\<open>b->data\<close>.\<close>

definition set_data :: "nat \<Rightarrow> block \<Rightarrow> 'a bio_scheme \<Rightarrow> 'a bio_scheme" where
  "set_data i d s = upd_buf i (\<lambda>b. b\<lparr>b_data := d\<rparr>) s"

section \<open>Operations\<close>

text \<open>\<^verbatim>\<open>binit\<close> pushes every buffer to the front of the list.\<close>

definition binit :: "'a bio_scheme \<Rightarrow> 'a bio_scheme" where
  "binit s = s\<lparr>mru := fold (#) [0..<NBUF] []\<rparr>"

definition acquiresleep_buf :: "nat \<Rightarrow> 'a bio_scheme \<Rightarrow> 'a bio_scheme option" where
  "acquiresleep_buf i s =
     (if b_locked (buf_at s i) then blocked else Some (upd_buf i (\<lambda>b. b\<lparr>b_locked := True\<rparr>) s))"

definition bget :: "u32 \<Rightarrow> u32 \<Rightarrow> 'a bio_scheme \<Rightarrow> (nat \<times> 'a bio_scheme) option" where
  "bget dev blockno s =
     (case find (\<lambda>i. b_dev (buf_at s i) = dev \<and> b_blockno (buf_at s i) = blockno) (mru s) of
        Some i \<Rightarrow> do {
          let s = upd_buf i (\<lambda>b. b\<lparr>b_refcnt := b_refcnt b + 1\<rparr>) s;
          s \<leftarrow> acquiresleep_buf i s;
          Some (i, s)
        }
      | None \<Rightarrow>
        (case find (\<lambda>i. b_refcnt (buf_at s i) = 0 \<and> \<not> b_dirty (buf_at s i)) (rev (mru s)) of
           Some i \<Rightarrow> do {
             let s = upd_buf i (\<lambda>b. b\<lparr>b_dev := dev, b_blockno := blockno, b_valid := False,
                       b_dirty := False, b_refcnt := 1\<rparr>) s;
             s \<leftarrow> acquiresleep_buf i s;
             Some (i, s)
           }
         | None \<Rightarrow> panic ''bget: no buffers''))"

text \<open>\<^verbatim>\<open>iderw\<close> of \<^verbatim>\<open>memide.c\<close>: the request completes before it returns.\<close>

definition iderw :: "nat \<Rightarrow> 'a bio_scheme \<Rightarrow> 'a bio_scheme option" where
  "iderw i s =
     (let b = buf_at s i in
      if \<not> b_locked b then panic ''iderw: buf not locked''
      else if b_valid b \<and> \<not> b_dirty b then panic ''iderw: nothing to do''
      else if b_dev b \<noteq> 1 then panic ''iderw: request not for disk 1''
      else if b_blockno b \<ge> disksize s then panic ''iderw: block out of range''
      else if b_dirty b then
        Some (upd_buf i (\<lambda>b. b\<lparr>b_dirty := False, b_valid := True\<rparr>)
                (s\<lparr>memdisk := (memdisk s)(b_blockno b := b_data b),
                   dhist := dhist s @ [(b_blockno b, b_data b)]\<rparr>))
      else Some (upd_buf i (\<lambda>b. b\<lparr>b_data := memdisk s (b_blockno b), b_valid := True\<rparr>) s))"

definition bread :: "u32 \<Rightarrow> u32 \<Rightarrow> 'a bio_scheme \<Rightarrow> (nat \<times> 'a bio_scheme) option" where
  "bread dev blockno s = do {
     (i, s) \<leftarrow> bget dev blockno s;
     s \<leftarrow> (if \<not> b_valid (buf_at s i) then iderw i s else Some s);
     Some (i, s)
   }"

definition bwrite :: "nat \<Rightarrow> 'a bio_scheme \<Rightarrow> 'a bio_scheme option" where
  "bwrite i s =
     (if \<not> b_locked (buf_at s i) then panic ''bwrite''
      else iderw i (upd_buf i (\<lambda>b. b\<lparr>b_dirty := True\<rparr>) s))"

definition brelse :: "nat \<Rightarrow> 'a bio_scheme \<Rightarrow> 'a bio_scheme option" where
  "brelse i s =
     (if \<not> b_locked (buf_at s i) then panic ''brelse''
      else
        let s = upd_buf i (\<lambda>b. b\<lparr>b_locked := False\<rparr>) s;
            s = upd_buf i (\<lambda>b. b\<lparr>b_refcnt := b_refcnt b - 1\<rparr>) s
        in Some (if b_refcnt (buf_at s i) = 0 then s\<lparr>mru := i # remove1 i (mru s)\<rparr> else s))"

section \<open>The invariant and the view of the cache\<close>

text \<open>
  What holds between calls: the list is a permutation of the buffers, a block of the disk has
  at most one buffer (device 0 marks buffers that were never used), only buffers of the disk
  (device 1) hold data, a buffer is referenced
  exactly while it is locked, a locked buffer has been read, and a clean buffer that nobody
  holds agrees with the disk.
\<close>

definition bio_inv :: "'a bio_scheme \<Rightarrow> bool" where
  "bio_inv s \<longleftrightarrow>
     length (bufs s) = NBUF \<and> distinct (mru s) \<and> set (mru s) = {0..<NBUF} \<and>
     (\<forall>i < NBUF. length (b_data (buf_at s i)) = BSIZE) \<and>
     (\<forall>b. length (memdisk s b) = BSIZE) \<and>
     (\<forall>i < NBUF. b_refcnt (buf_at s i) = (if b_locked (buf_at s i) then 1 else 0)) \<and>
     (\<forall>i < NBUF. \<forall>j < NBUF. b_dev (buf_at s i) \<noteq> 0 \<longrightarrow> b_dev (buf_at s i) = b_dev (buf_at s j) \<longrightarrow>
        b_blockno (buf_at s i) = b_blockno (buf_at s j) \<longrightarrow> i = j) \<and>
     (\<forall>i < NBUF. b_dev (buf_at s i) \<noteq> 1 \<longrightarrow> \<not> b_valid (buf_at s i) \<and> \<not> b_dirty (buf_at s i)) \<and>
     (\<forall>i < NBUF. b_dirty (buf_at s i) \<longrightarrow> b_valid (buf_at s i)) \<and>
     (\<forall>i < NBUF. b_locked (buf_at s i) \<longrightarrow> b_valid (buf_at s i) \<and> b_dev (buf_at s i) = 1) \<and>
     (\<forall>i < NBUF. b_dev (buf_at s i) = 1 \<longrightarrow> b_valid (buf_at s i) \<longrightarrow> \<not> b_dirty (buf_at s i) \<longrightarrow>
        \<not> b_locked (buf_at s i) \<longrightarrow> b_data (buf_at s i) = memdisk s (b_blockno (buf_at s i)))"

text \<open>The contents of a block as readers see them: the cached copy, or else the disk.\<close>

definition cached :: "'a bio_scheme \<Rightarrow> u32 \<Rightarrow> nat option" where
  "cached s b = first_idx (\<lambda>x. b_dev x = 1 \<and> b_blockno x = b \<and> b_valid x) (bufs s)"

definition bview :: "'a bio_scheme \<Rightarrow> u32 \<Rightarrow> block" where
  "bview s b = (case cached s b of Some i \<Rightarrow> b_data (buf_at s i) | None \<Rightarrow> memdisk s b)"

text \<open>Handles: buffer \<open>i\<close> is locked and holds block \<open>b\<close>. Pinned buffers cannot be recycled.\<close>

definition holds_buf :: "'a bio_scheme \<Rightarrow> nat \<Rightarrow> u32 \<Rightarrow> bool" where
  "holds_buf s i b \<longleftrightarrow> i < NBUF \<and> b_dev (buf_at s i) = 1 \<and> b_blockno (buf_at s i) = b \<and>
     b_locked (buf_at s i) \<and> b_valid (buf_at s i)"

definition held :: "'a bio_scheme \<Rightarrow> u32 \<Rightarrow> bool" where
  "held s b \<longleftrightarrow> (\<exists>i < NBUF. b_dev (buf_at s i) = 1 \<and> b_blockno (buf_at s i) = b \<and> b_locked (buf_at s i))"

definition bdirty :: "'a bio_scheme \<Rightarrow> u32 \<Rightarrow> bool" where
  "bdirty s b \<longleftrightarrow> (\<exists>i < NBUF. b_dev (buf_at s i) = 1 \<and> b_blockno (buf_at s i) = b \<and> b_dirty (buf_at s i))"

definition pins :: "'a bio_scheme \<Rightarrow> nat set" where
  "pins s = {i. i < NBUF \<and> (b_locked (buf_at s i) \<or> b_dirty (buf_at s i))}"

section \<open>Effects of the operations\<close>

lemma find_SomeD: "find P xs = Some x \<Longrightarrow> x \<in> set xs \<and> P x"
  by (auto simp: find_Some_iff)

lemma find_NoneD: "find P xs = None \<Longrightarrow> x \<in> set xs \<Longrightarrow> \<not> P x"
  by (auto simp: find_None_iff)

lemma buf_at_upd [simp]:
  "i < length (bufs s) \<Longrightarrow> buf_at (upd_buf i f s) j = (if i = j then f (buf_at s i) else buf_at s j)"
  by (simp add: upd_buf_def)

lemma upd_buf_frame [simp]:
  "mru (upd_buf i f s) = mru s" "memdisk (upd_buf i f s) = memdisk s"
  "disksize (upd_buf i f s) = disksize s" "dhist (upd_buf i f s) = dhist s"
  "bio.more (upd_buf i f s) = bio.more s" "length (bufs (upd_buf i f s)) = length (bufs s)"
  by (simp_all add: upd_buf_def)

text \<open>The conjuncts of the invariant, as rules.\<close>

lemma bio_invD:
  assumes "bio_inv s"
  shows bio_length: "length (bufs s) = NBUF"
    and bio_distinct: "distinct (mru s)"
    and bio_mru: "set (mru s) = {0..<NBUF}"
    and bio_data: "i < NBUF \<Longrightarrow> length (b_data (buf_at s i)) = BSIZE"
    and bio_disk: "length (memdisk s b) = BSIZE"
    and bio_refcnt: "i < NBUF \<Longrightarrow> b_refcnt (buf_at s i) = (if b_locked (buf_at s i) then 1 else 0)"
    and bio_unique: "i < NBUF \<Longrightarrow> j < NBUF \<Longrightarrow> b_dev (buf_at s i) \<noteq> 0 \<Longrightarrow>
      b_dev (buf_at s i) = b_dev (buf_at s j) \<Longrightarrow> b_blockno (buf_at s i) = b_blockno (buf_at s j) \<Longrightarrow> i = j"
    and bio_unused: "i < NBUF \<Longrightarrow> b_dev (buf_at s i) \<noteq> 1 \<Longrightarrow> \<not> b_valid (buf_at s i) \<and> \<not> b_dirty (buf_at s i)"
    and bio_dirty_valid: "i < NBUF \<Longrightarrow> b_dirty (buf_at s i) \<Longrightarrow> b_valid (buf_at s i)"
    and bio_locked: "i < NBUF \<Longrightarrow> b_locked (buf_at s i) \<Longrightarrow> b_valid (buf_at s i) \<and> b_dev (buf_at s i) = 1"
    and bio_clean: "i < NBUF \<Longrightarrow> b_dev (buf_at s i) = 1 \<Longrightarrow> b_valid (buf_at s i) \<Longrightarrow>
      \<not> b_dirty (buf_at s i) \<Longrightarrow> \<not> b_locked (buf_at s i) \<Longrightarrow>
      b_data (buf_at s i) = memdisk s (b_blockno (buf_at s i))"
  using assms unfolding bio_inv_def by blast+

lemma cached_Some:
  assumes "bio_inv s" "i < NBUF" "b_dev (buf_at s i) = 1" "b_blockno (buf_at s i) = b" "b_valid (buf_at s i)"
  shows "cached s b = Some i"
proof -
  let ?P = "\<lambda>x. b_dev x = 1 \<and> b_blockno x = b \<and> b_valid x"
  obtain j where j: "j \<le> i" "first_idx ?P (bufs s) = Some j"
    using first_idx_ex [of i "bufs s" ?P] assms bio_length [OF assms(1)] by auto
  then have P: "?P (buf_at s j)" by (blast dest: first_idx_SomeD(2))
  have "i = j"
    by (rule bio_unique [OF assms(1)]) (use assms j P in auto)
  with j show ?thesis by (simp add: cached_def)
qed

lemma cached_SomeD:
  assumes "bio_inv s" "cached s b = Some i"
  shows "i < NBUF" "b_dev (buf_at s i) = 1" "b_blockno (buf_at s i) = b" "b_valid (buf_at s i)"
  using first_idx_SomeD(1,2) [OF assms(2) [unfolded cached_def]] bio_length [OF assms(1)] by auto

lemma cached_NoneD:
  assumes "bio_inv s" "cached s b = None" "i < NBUF"
  shows "\<not> (b_dev (buf_at s i) = 1 \<and> b_blockno (buf_at s i) = b \<and> b_valid (buf_at s i))"
proof -
  have "buf_at s i \<in> set (bufs s)" using assms(3) bio_length [OF assms(1)] by simp
  then show ?thesis using assms(2) unfolding cached_def first_idx_None_iff by blast
qed

text \<open>The notions above depend on the fields of the cache only.\<close>

lemma bio_cong:
  assumes "bufs t = bufs s" "mru t = mru s" "memdisk t = memdisk s"
  shows "bio_inv t = bio_inv s" "bview t = bview s" "bdirty t = bdirty s" "pins t = pins s"
    "holds_buf t = holds_buf s" "held t = held s"
  using assms by (simp_all add: fun_eq_iff bio_inv_def bview_def cached_def bdirty_def pins_def
      holds_buf_def held_def split: option.splits)

lemma bview_cached:
  "bio_inv s \<Longrightarrow> i < NBUF \<Longrightarrow> b_dev (buf_at s i) = 1 \<Longrightarrow> b_blockno (buf_at s i) = b \<Longrightarrow>
   b_valid (buf_at s i) \<Longrightarrow> bview s b = b_data (buf_at s i)"
  by (simp add: bview_def cached_Some)

lemma bview_uncached:
  assumes "bio_inv s" "\<And>i. i < NBUF \<Longrightarrow> b_dev (buf_at s i) = 1 \<Longrightarrow> b_blockno (buf_at s i) = b \<Longrightarrow>
     \<not> b_valid (buf_at s i)"
  shows "bview s b = memdisk s b"
proof (cases "cached s b")
  case None
  then show ?thesis by (simp add: bview_def)
next
  case (Some i)
  from cached_SomeD [OF assms(1) Some] assms(2) show ?thesis by blast
qed

lemma bview_holds: "bio_inv s \<Longrightarrow> holds_buf s i b \<Longrightarrow> bview s b = b_data (buf_at s i)"
  by (rule bview_cached) (auto simp: holds_buf_def)

lemma length_bview: "bio_inv s \<Longrightarrow> length (bview s b) = BSIZE"
  by (cases "cached s b") (simp_all add: bview_def bio_disk bio_data cached_SomeD(1))

text \<open>
  The view of a state is determined by its valid buffers and its disk: a buffer that is not
  valid, or agrees with the disk, can be dropped.
\<close>

lemma bview_eqI:
  assumes inv: "bio_inv s" "bio_inv t"
    and keep: "\<And>i. i < NBUF \<Longrightarrow> b_dev (buf_at s i) = 1 \<Longrightarrow> b_valid (buf_at s i) \<Longrightarrow>
       b_blockno (buf_at s i) = b \<Longrightarrow> bview t b = b_data (buf_at s i)"
    and none: "(\<And>i. i < NBUF \<Longrightarrow> b_dev (buf_at s i) = 1 \<Longrightarrow> b_blockno (buf_at s i) = b \<Longrightarrow>
       \<not> b_valid (buf_at s i)) \<Longrightarrow> bview t b = memdisk s b"
  shows "bview t b = bview s b"
proof (cases "cached s b")
  case None
  have "bview t b = memdisk s b"
    using cached_NoneD [OF inv(1) None] by (intro none) blast
  then show ?thesis using None by (simp add: bview_def)
next
  case (Some i)
  have "bview t b = b_data (buf_at s i)"
    using cached_SomeD [OF inv(1) Some] by (intro keep)
  then show ?thesis using Some by (simp add: bview_def)
qed

text \<open>Changing one buffer keeps the invariant if the new buffer satisfies its part of it.\<close>

definition buf_ok :: "(u32 \<Rightarrow> block) \<Rightarrow> buf \<Rightarrow> bool" where
  "buf_ok disk x \<longleftrightarrow> length (b_data x) = BSIZE \<and> b_refcnt x = (if b_locked x then 1 else 0) \<and>
     (b_dev x \<noteq> 1 \<longrightarrow> \<not> b_valid x \<and> \<not> b_dirty x) \<and> (b_dirty x \<longrightarrow> b_valid x) \<and>
     (b_locked x \<longrightarrow> b_valid x \<and> b_dev x = 1) \<and>
     (b_dev x = 1 \<longrightarrow> b_valid x \<longrightarrow> \<not> b_dirty x \<longrightarrow> \<not> b_locked x \<longrightarrow> b_data x = disk (b_blockno x))"

lemma buf_ok_at: "bio_inv s \<Longrightarrow> i < NBUF \<Longrightarrow> buf_ok (memdisk s) (buf_at s i)"
  unfolding buf_ok_def bio_inv_def by blast

lemma bio_inv_alt:
  "bio_inv s \<longleftrightarrow> length (bufs s) = NBUF \<and> distinct (mru s) \<and> set (mru s) = {0..<NBUF} \<and>
     (\<forall>b. length (memdisk s b) = BSIZE) \<and> (\<forall>i < NBUF. buf_ok (memdisk s) (buf_at s i)) \<and>
     (\<forall>i < NBUF. \<forall>j < NBUF. b_dev (buf_at s i) \<noteq> 0 \<longrightarrow> b_dev (buf_at s i) = b_dev (buf_at s j) \<longrightarrow>
        b_blockno (buf_at s i) = b_blockno (buf_at s j) \<longrightarrow> i = j)"
  unfolding bio_inv_def buf_ok_def by blast

lemma bio_inv_upd:
  assumes inv: "bio_inv s" and i: "i < NBUF" and ok: "buf_ok (memdisk s) (f (buf_at s i))"
    and uni: "\<And>j. j < NBUF \<Longrightarrow> j \<noteq> i \<Longrightarrow> b_dev (f (buf_at s i)) \<noteq> 0 \<Longrightarrow>
      b_dev (f (buf_at s i)) = b_dev (buf_at s j) \<Longrightarrow>
      b_blockno (f (buf_at s i)) = b_blockno (buf_at s j) \<Longrightarrow> False"
  shows "bio_inv (upd_buf i f s)"
proof -
  have len: "i < length (bufs s)" using i bio_length [OF inv] by simp
  have "buf_ok (memdisk s) (buf_at (upd_buf i f s) j)" if "j < NBUF" for j
    using ok buf_ok_at [OF inv that] len by auto
  moreover have "j = k" if "j < NBUF" "k < NBUF" "b_dev (buf_at (upd_buf i f s) j) \<noteq> 0"
    "b_dev (buf_at (upd_buf i f s) j) = b_dev (buf_at (upd_buf i f s) k)"
    "b_blockno (buf_at (upd_buf i f s) j) = b_blockno (buf_at (upd_buf i f s) k)" for j k
  proof (cases "j = i")
    case True
    then show ?thesis using that uni [of k] len by (auto split: if_splits)
  next
    case False
    then show ?thesis
      using that uni [of j] bio_unique [OF inv that(1,2)] len by (auto split: if_splits)
  qed
  ultimately show ?thesis
    using inv by (simp add: bio_inv_alt)
qed

text \<open>An update that keeps device and block number.\<close>

lemma bio_inv_upd_same:
  assumes inv: "bio_inv s" and i: "i < NBUF" and ok: "buf_ok (memdisk s) (f (buf_at s i))"
    and same: "b_dev (f (buf_at s i)) = b_dev (buf_at s i)" "b_blockno (f (buf_at s i)) = b_blockno (buf_at s i)"
  shows "bio_inv (upd_buf i f s)"
proof (rule bio_inv_upd [where f = f, OF inv i ok])
  fix j
  assume "j < NBUF" "j \<noteq> i" "b_dev (f (buf_at s i)) \<noteq> 0"
    "b_dev (f (buf_at s i)) = b_dev (buf_at s j)" "b_blockno (f (buf_at s i)) = b_blockno (buf_at s j)"
  then show False using bio_unique [OF inv i, of j] same by simp
qed

lemma bio_inv_disk:
  assumes inv: "bio_inv s" and len: "length x = BSIZE" and i: "i < NBUF" "b_dev (buf_at s i) = 1"
    and lk: "b_locked (buf_at s i)"
  shows "bio_inv (s\<lparr>memdisk := (memdisk s)(b_blockno (buf_at s i) := x), dhist := h\<rparr>)"
proof -
  have "buf_ok ((memdisk s)(b_blockno (buf_at s i) := x)) (buf_at s j)" if "j < NBUF" for j
  proof (cases "j = i")
    case True
    then show ?thesis using buf_ok_at [OF inv that] lk by (simp add: buf_ok_def)
  next
    case False
    then have "b_dev (buf_at s j) = 1 \<Longrightarrow> b_blockno (buf_at s j) \<noteq> b_blockno (buf_at s i)"
      using bio_unique [OF inv that i(1)] i(2) by auto
    then show ?thesis using buf_ok_at [OF inv that] by (auto simp: buf_ok_def)
  qed
  then show ?thesis using inv len by (simp add: bio_inv_alt)
qed

lemma bio_inv_mru:
  "bio_inv s \<Longrightarrow> i < NBUF \<Longrightarrow> bio_inv (s\<lparr>mru := i # remove1 i (mru s)\<rparr>)"
  by (auto simp: bio_inv_alt)

text \<open>
  \<^verbatim>\<open>bread\<close> returns a locked, valid buffer with the contents of the block; readers see the same
  contents of every block as before, and nothing reaches the disk.
\<close>

definition bread_post :: "u32 \<Rightarrow> 'a bio_scheme \<Rightarrow> nat \<Rightarrow> 'a bio_scheme \<Rightarrow> bool" where
  "bread_post b s i t \<longleftrightarrow> bio_inv t \<and> holds_buf t i b \<and> bview t = bview s \<and> memdisk t = memdisk s \<and>
     dhist t = dhist s \<and> disksize t = disksize s \<and> bio.more t = bio.more s \<and> bdirty t = bdirty s \<and>
     pins t = insert i (pins s) \<and> i \<notin> {j. \<exists>b. holds_buf s j b} \<and>
     (\<forall>j c. holds_buf t j c \<longleftrightarrow> holds_buf s j c \<or> j = i \<and> c = b) \<and> (bdirty s b \<longrightarrow> i \<in> pins s) \<and> (\<not> bdirty s b \<longrightarrow> bview s b = memdisk s b)"

lemma bview_same:
  assumes "bio_inv s" "bio_inv t" "memdisk t = memdisk s" 
    and "\<And>i. i < NBUF \<Longrightarrow> b_dev (buf_at t i) = b_dev (buf_at s i) \<and> b_blockno (buf_at t i) = b_blockno (buf_at s i)
      \<and> b_valid (buf_at t i) = b_valid (buf_at s i) \<and> b_data (buf_at t i) = b_data (buf_at s i)"
  shows "bview t = bview s"
proof
  fix b
  show "bview t b = bview s b"
  proof (cases "cached s b")
    case None
    then show ?thesis
      using bview_uncached [OF assms(2), of b] cached_NoneD [OF assms(1) None] assms(3,4)
      by (auto simp: bview_def)
  next
    case (Some i)
    then show ?thesis
      using bview_cached [OF assms(2), of i b] cached_SomeD [OF assms(1) Some] assms(3,4)
      by (simp add: bview_def)
  qed
qed

lemma upd_buf_upd [simp]:
  "i < length (bufs s) \<Longrightarrow> upd_buf i g (upd_buf i f s) = upd_buf i (\<lambda>x. g (f x)) s"
  by (simp add: upd_buf_def)

lemma upd_buf_const: "upd_buf i f s = upd_buf i (\<lambda>_. f (buf_at s i)) s"
  by (simp add: upd_buf_def)

text \<open>The two ways \<^verbatim>\<open>bread\<close> succeeds: on a valid copy in the cache, or by reading the disk.\<close>

lemma bread_cases:
  assumes inv: "bio_inv s" and rd: "bread 1 b s = Some (i, t)"
  obtains
    (hit) "i < NBUF" "\<not> b_locked (buf_at s i)" "b_dev (buf_at s i) = 1" "b_blockno (buf_at s i) = b"
      "b_valid (buf_at s i)"
      "t = upd_buf i (\<lambda>_. (buf_at s i)\<lparr>b_locked := True, b_refcnt := 1\<rparr>) s"
  | (miss) "i < NBUF" "\<not> b_locked (buf_at s i)" "\<not> b_dirty (buf_at s i)" "b < disksize s"
      "\<And>j. j < NBUF \<Longrightarrow> b_dev (buf_at s j) = 1 \<Longrightarrow> b_blockno (buf_at s j) = b \<Longrightarrow>
         j = i \<and> \<not> b_valid (buf_at s i)"
      "t = upd_buf i (\<lambda>_. \<lparr>b_valid = True, b_dirty = False, b_dev = 1, b_blockno = b, b_locked = True,
             b_refcnt = 1, b_data = memdisk s b\<rparr>) s"
proof (cases "find (\<lambda>i. b_dev (buf_at s i) = 1 \<and> b_blockno (buf_at s i) = b) (mru s)")
  case (Some k)
  then have k: "k < NBUF" "b_dev (buf_at s k) = 1" "b_blockno (buf_at s k) = b"
    using find_SomeD [OF Some] bio_mru [OF inv] by auto
  then have len: "k < length (bufs s)" using bio_length [OF inv] by simp
  have nl: "\<not> b_locked (buf_at s k)" and ki: "i = k"
    using rd Some len
    by (auto simp: bread_def bget_def acquiresleep_buf_def Let_def bind_eq_Some_conv split: if_splits)
  have r0: "b_refcnt (buf_at s k) = 0" using bio_refcnt [OF inv k(1)] nl by simp
  show thesis
  proof (cases "b_valid (buf_at s k)")
    case True
    have "t = upd_buf k (\<lambda>_. (buf_at s k)\<lparr>b_locked := True, b_refcnt := 1\<rparr>) s"
      using rd Some len nl r0 True
      by (cases "buf_at s k") (auto simp: bread_def bget_def acquiresleep_buf_def Let_def
          bind_eq_Some_conv upd_buf_def)
    then show ?thesis using hit k nl True ki by blast
  next
    case False
    have nd: "\<not> b_dirty (buf_at s k)" using bio_dirty_valid [OF inv k(1)] False by blast
    have "b < disksize s \<and> t = upd_buf k (\<lambda>_. \<lparr>b_valid = True, b_dirty = False, b_dev = 1, b_blockno = b,
        b_locked = True, b_refcnt = 1, b_data = memdisk s b\<rparr>) s"
      using rd Some len nl r0 False nd k
      by (cases "buf_at s k") (auto simp: bread_def bget_def acquiresleep_buf_def iderw_def Let_def
          bind_eq_Some_conv upd_buf_def not_le split: if_splits)
    moreover have "\<And>j. j < NBUF \<Longrightarrow> b_dev (buf_at s j) = 1 \<Longrightarrow> b_blockno (buf_at s j) = b \<Longrightarrow> j = k"
      using bio_unique [OF inv _ k(1)] k by simp
    ultimately show ?thesis using miss k nl nd False ki by blast
  qed
next
  case None
  then have nb: "j < NBUF \<Longrightarrow> \<not> (b_dev (buf_at s j) = 1 \<and> b_blockno (buf_at s j) = b)" for j
    using find_NoneD [OF None, of j] bio_mru [OF inv] by simp
  let ?Q = "\<lambda>i. b_refcnt (buf_at s i) = 0 \<and> \<not> b_dirty (buf_at s i)"
  obtain k where k: "find ?Q (rev (mru s)) = Some k"
    using rd None by (cases "find ?Q (rev (mru s))") (auto simp: bread_def bget_def)
  then have kl: "k < NBUF" "?Q k" using find_SomeD [OF k] bio_mru [OF inv] by auto
  then have len: "k < length (bufs s)" using bio_length [OF inv] by simp
  have nl: "\<not> b_locked (buf_at s k)" using bio_refcnt [OF inv kl(1)] kl(2) by (auto split: if_splits)
  have "i = k \<and> b < disksize s \<and> t = upd_buf k (\<lambda>_. \<lparr>b_valid = True, b_dirty = False, b_dev = 1, b_blockno = b,
      b_locked = True, b_refcnt = 1, b_data = memdisk s b\<rparr>) s"
    using rd None k len nl
    by (cases "buf_at s k") (auto simp: bread_def bget_def acquiresleep_buf_def iderw_def Let_def
        bind_eq_Some_conv upd_buf_def not_le split: if_splits)
  then show thesis using miss kl nl nb by blast
qed

lemma bview_replace:
  assumes inv: "bio_inv s" "bio_inv (upd_buf i (\<lambda>_. y) s)" and i: "i < NBUF"
    and y: "b_valid y \<and> b_dev y = 1 \<and> b_blockno y = b" "b_data y = x"
    and old: "b_dev (buf_at s i) = 1 \<Longrightarrow> b_valid (buf_at s i) \<Longrightarrow> b_blockno (buf_at s i) \<noteq> b \<Longrightarrow>
      b_data (buf_at s i) = memdisk s (b_blockno (buf_at s i))"
  shows "bview (upd_buf i (\<lambda>_. y) s) = (bview s)(b := x)"
proof
  fix c
  let ?t = "upd_buf i (\<lambda>_. y) s"
  have len: "i < length (bufs s)" using i bio_length [OF inv(1)] by simp
  show "bview ?t c = ((bview s)(b := x)) c"
  proof (cases "c = b")
    case True
    then show ?thesis using bview_cached [OF inv(2) i, of b] y len by simp
  next
    case False
    have "bview ?t c = bview s c"
    proof (rule bview_eqI [OF inv])
      fix j
      assume j: "j < NBUF" "b_dev (buf_at s j) = 1" "b_valid (buf_at s j)" "b_blockno (buf_at s j) = c"
      show "bview ?t c = b_data (buf_at s j)"
      proof (cases "j = i")
        case True
        then have "b_data (buf_at s j) = memdisk s c" using j old False by simp
        moreover have "bview ?t c = memdisk ?t c"
        proof (rule bview_uncached [OF inv(2)])
          fix l
          assume l: "l < NBUF" "b_dev (buf_at ?t l) = 1" "b_blockno (buf_at ?t l) = c"
          have "l \<noteq> i" using l y(1) len \<open>c \<noteq> b\<close> by auto
          then have "b_dev (buf_at s l) = 1" "b_blockno (buf_at s l) = c" using l len by simp_all
          then have "l = j" using bio_unique [OF inv(1) l(1) j(1)] j by simp
          with \<open>l \<noteq> i\<close> True show "\<not> b_valid (buf_at ?t l)" by simp
        qed
        ultimately show ?thesis by simp
      next
        case False
        then show ?thesis using bview_cached [OF inv(2) j(1), of c] j len by simp
      qed
    next
      assume "\<And>j. j < NBUF \<Longrightarrow> b_dev (buf_at s j) = 1 \<Longrightarrow> b_blockno (buf_at s j) = c \<Longrightarrow> \<not> b_valid (buf_at s j)"
      then have "bview ?t c = memdisk ?t c"
        using y \<open>c \<noteq> b\<close> len by (intro bview_uncached [OF inv(2)]) (auto split: if_splits)
      then show "bview ?t c = memdisk s c" by simp
    qed
    with False show ?thesis by simp
  qed
qed

lemma holds_upd:
  "bio_inv s \<Longrightarrow> i < NBUF \<Longrightarrow> holds_buf (upd_buf i f s) j c \<longleftrightarrow>
     (if j = i then b_dev (f (buf_at s i)) = 1 \<and> b_blockno (f (buf_at s i)) = c \<and>
        b_locked (f (buf_at s i)) \<and> b_valid (f (buf_at s i)) else holds_buf s j c)"
  using bio_length [of s] by (auto simp: holds_buf_def)

lemma pins_upd:
  "bio_inv s \<Longrightarrow> i < NBUF \<Longrightarrow> pins (upd_buf i f s) =
     (if b_locked (f (buf_at s i)) \<or> b_dirty (f (buf_at s i)) then insert i (pins s) else pins s - {i})"
  using bio_length [of s] by (auto simp: pins_def split: if_splits)

lemma bdirty_upd:
  assumes "bio_inv s" "i < NBUF"
  shows "bdirty (upd_buf i f s) c \<longleftrightarrow>
     b_dev (f (buf_at s i)) = 1 \<and> b_blockno (f (buf_at s i)) = c \<and> b_dirty (f (buf_at s i)) \<or>
     (\<exists>j < NBUF. j \<noteq> i \<and> b_dev (buf_at s j) = 1 \<and> b_blockno (buf_at s j) = c \<and> b_dirty (buf_at s j))"
  using assms bio_length [OF assms(1)] by (auto simp: bdirty_def split: if_splits)

lemma bdirty_at:
  assumes "bio_inv s" "i < NBUF" "b_dev (buf_at s i) = 1" "b_blockno (buf_at s i) = b"
  shows "bdirty s b \<longleftrightarrow> b_dirty (buf_at s i)"
proof -
  have "j = i" if "j < NBUF" "b_dev (buf_at s j) = 1" "b_blockno (buf_at s j) = b" for j
    using bio_unique [OF assms(1) that(1) assms(2)] that assms by simp
  then show ?thesis using assms unfolding bdirty_def by blast
qed

lemma held_iff: "bio_inv s \<Longrightarrow> held s b \<longleftrightarrow> (\<exists>i. holds_buf s i b)"
  using bio_locked [of s] by (auto simp: held_def holds_buf_def)

lemma bdirty_upd_keep:
  assumes "bio_inv s" "i < NBUF"
    and "b_dirty (f (buf_at s i)) = b_dirty (buf_at s i)"
    and "b_dirty (buf_at s i) \<Longrightarrow> b_dev (f (buf_at s i)) = b_dev (buf_at s i) \<and>
      b_blockno (f (buf_at s i)) = b_blockno (buf_at s i)"
  shows "bdirty (upd_buf i f s) = bdirty s"
  unfolding fun_eq_iff bdirty_upd [OF assms(1,2)] using assms by (auto simp: bdirty_def)

lemma bread_post:
  assumes inv: "bio_inv s" and rd: "bread 1 b s = Some (i, t)"
  shows "bread_post b s i t"
  using inv rd
proof (cases rule: bread_cases)
  case hit
  let ?f = "\<lambda>_. (buf_at s i)\<lparr>b_locked := True, b_refcnt := 1\<rparr>"
  have invt: "bio_inv t" unfolding hit(6)
    by (rule bio_inv_upd_same [OF inv hit(1)]) (use buf_ok_at [OF inv hit(1)] hit(3,5) in \<open>auto simp: buf_ok_def\<close>)
  have "bview t = bview s"
    by (rule bview_same [OF inv invt]) (use hit bio_length [OF inv] in auto)
  moreover have "bdirty t = bdirty s" unfolding hit(6)
    by (rule bdirty_upd_keep [OF inv hit(1)]) auto
  moreover have "\<not> bdirty s b \<longrightarrow> bview s b = memdisk s b"
    using bview_cached [OF inv hit(1,3,4,5)] bio_clean [OF inv hit(1,3,5)] hit bdirty_at [OF inv hit(1,3,4)]
    by auto
  moreover have "\<not> holds_buf s i c" for c using hit by (simp add: holds_buf_def)
  moreover have "bdirty s b \<longrightarrow> i \<in> pins s"
    using bdirty_at [OF inv hit(1,3,4)] hit(1) by (simp add: pins_def)
  ultimately show ?thesis
    using invt hit inv by (auto simp: bread_post_def holds_upd pins_upd)
next
  case miss
  have d1: "b_dev (buf_at s j) = 1 \<Longrightarrow> b_blockno (buf_at s j) = b \<Longrightarrow> j < NBUF \<Longrightarrow> j = i" for j
    using miss(5) by blast
  have invt: "bio_inv t" unfolding miss(6)
    by (rule bio_inv_upd [OF inv miss(1)]) (use d1 bio_disk [OF inv] in \<open>auto simp: buf_ok_def\<close>)
  have vb: "bview s b = memdisk s b"
    using miss(5) by (intro bview_uncached [OF inv]) auto
  have "bview t = (bview s)(b := memdisk s b)" unfolding miss(6)
    by (rule bview_replace [OF inv invt [unfolded miss(6)] miss(1)])
       (use bio_clean [OF inv miss(1)] miss(2,3) in auto)
  then have "bview t = bview s" by (simp only: vb [symmetric] fun_upd_triv)
  moreover have "bdirty t = bdirty s" unfolding miss(6)
    by (rule bdirty_upd_keep [OF inv miss(1)]) (use miss(3) in auto)
  moreover have "\<not> holds_buf s i c" for c using miss(2) by (simp add: holds_buf_def)
  moreover have "\<not> bdirty s b" using miss(3) d1 unfolding bdirty_def by blast
  ultimately show ?thesis
    using invt miss(1,6) inv vb by (auto simp: bread_post_def holds_upd pins_upd)
qed

text \<open>\<^verbatim>\<open>bread\<close> returns whenever the block exists, is not held, and some buffer is not pinned.\<close>

lemma bread_returns:
  assumes inv: "bio_inv s" and b: "b < disksize s" "\<not> held s b" and room: "pins s \<noteq> {0..<NBUF}"
  shows "\<exists>i t. bread 1 b s = Some (i, t)"
proof (cases "find (\<lambda>i. b_dev (buf_at s i) = 1 \<and> b_blockno (buf_at s i) = b) (mru s)")
  case (Some k)
  then have k: "k < NBUF" "b_dev (buf_at s k) = 1" "b_blockno (buf_at s k) = b"
    using find_SomeD [OF Some] bio_mru [OF inv] by auto
  moreover have "\<not> b_locked (buf_at s k)" using b(2) k by (auto simp: held_def)
  moreover have "\<not> b_valid (buf_at s k) \<Longrightarrow> \<not> b_dirty (buf_at s k)"
    using bio_dirty_valid [OF inv k(1)] by blast
  ultimately show ?thesis
    using Some b(1) bio_length [OF inv]
    by (auto simp: bread_def bget_def acquiresleep_buf_def iderw_def Let_def)
next
  case None
  let ?Q = "\<lambda>i. b_refcnt (buf_at s i) = 0 \<and> \<not> b_dirty (buf_at s i)"
  have "pins s \<subseteq> {0..<NBUF}" by (auto simp: pins_def)
  with room obtain k where "k \<in> {0..<NBUF} - pins s" by blast
  then have k: "k < NBUF" "k \<notin> pins s" by auto
  then have "?Q k" using bio_refcnt [OF inv k(1)] by (simp add: pins_def)
  then obtain l where l: "find ?Q (rev (mru s)) = Some l"
    using k(1) bio_mru [OF inv] find_NoneD [of ?Q "rev (mru s)" k]
    by (cases "find ?Q (rev (mru s))") auto
  then have lq: "l < NBUF" "?Q l" using find_SomeD [OF l] bio_mru [OF inv] by auto
  then have "\<not> b_locked (buf_at s l)" using bio_refcnt [OF inv lq(1)] by (auto split: if_splits)
  then show ?thesis
    using None l b(1) lq bio_length [OF inv]
    by (auto simp: bread_def bget_def acquiresleep_buf_def iderw_def Let_def)
qed

text \<open>A dirty block is in the cache, so that no free buffer is needed to read it.\<close>

lemma bread_returns_dirty:
  assumes inv: "bio_inv s" and b: "bdirty s b" "\<not> held s b"
  shows "\<exists>i t. bread 1 b s = Some (i, t)"
proof -
  from b(1) obtain i where i: "i < NBUF" "b_dev (buf_at s i) = 1" "b_blockno (buf_at s i) = b" "b_dirty (buf_at s i)"
    by (auto simp: bdirty_def)
  let ?P = "\<lambda>i. b_dev (buf_at s i) = 1 \<and> b_blockno (buf_at s i) = b"
  have "find ?P (mru s) \<noteq> None" using i bio_mru [OF inv] by (auto simp: find_None_iff)
  then obtain k where k: "find ?P (mru s) = Some k" by blast
  then have "k < NBUF" "b_dev (buf_at s k) = 1" "b_blockno (buf_at s k) = b"
    using find_SomeD [OF k] bio_mru [OF inv] by auto
  then have "k = i" using bio_unique [OF inv _ i(1), of k] i by simp
  moreover have "\<not> b_locked (buf_at s i)" using b(2) i by (auto simp: held_def)
  moreover have "b_valid (buf_at s i)" using bio_dirty_valid [OF inv i(1,4)] .
  ultimately show ?thesis
    using k i bio_length [OF inv] by (auto simp: bread_def bget_def acquiresleep_buf_def Let_def)
qed

text \<open>With no buffer held, the pinned buffers are the dirty ones, one for each dirty block.\<close>

lemma card_pins_dirty:
  assumes inv: "bio_inv s" and nh: "\<And>i b. \<not> holds_buf s i b" and d: "\<And>b. bdirty s b \<Longrightarrow> b \<in> set bs"
  shows "card (pins s) \<le> length bs"
proof -
  have p: "b_dev (buf_at s i) = 1 \<and> b_dirty (buf_at s i)" if "i \<in> pins s" for i
  proof -
    have i: "i < NBUF" "b_locked (buf_at s i) \<or> b_dirty (buf_at s i)" using that by (auto simp: pins_def)
    have "\<not> b_locked (buf_at s i)"
      using nh bio_locked [OF inv i(1)] i(1) by (auto simp: holds_buf_def)
    then have di: "b_dirty (buf_at s i)" using i by simp
    moreover have "b_dev (buf_at s i) = 1" using bio_unused [OF inv i(1)] di by blast
    ultimately show ?thesis by simp
  qed
  have "inj_on (\<lambda>i. b_blockno (buf_at s i)) (pins s)"
    using p bio_unique [OF inv] by (auto simp: inj_on_def pins_def)
  moreover have "(\<lambda>i. b_blockno (buf_at s i)) ` pins s \<subseteq> set bs"
    using p d by (auto simp: bdirty_def pins_def)
  ultimately have "card (pins s) \<le> card (set bs)" by (metis card_image card_mono finite_set)
  also have "\<dots> \<le> length bs" by (rule card_length)
  finally show ?thesis .
qed

text \<open>Storing into a held buffer changes the view of its block, and nothing else.\<close>

lemma holds_bufD:
  "holds_buf s i b \<Longrightarrow> i < NBUF \<and> b_dev (buf_at s i) = 1 \<and> b_blockno (buf_at s i) = b \<and>
     b_locked (buf_at s i) \<and> b_valid (buf_at s i)"
  by (simp add: holds_buf_def)

lemma set_data_post:
  assumes inv: "bio_inv s" and h: "holds_buf s i b" and len: "length d = BSIZE"
  shows "bio_inv (set_data i d s)" "bview (set_data i d s) = (bview s)(b := d)"
    "memdisk (set_data i d s) = memdisk s" "dhist (set_data i d s) = dhist s"
    "disksize (set_data i d s) = disksize s" "bio.more (set_data i d s) = bio.more s"
    "bdirty (set_data i d s) = bdirty s" "pins (set_data i d s) = pins s"
    "holds_buf (set_data i d s) = holds_buf s" "b_data (buf_at (set_data i d s) i) = d"
proof -
  note hd = holds_bufD [OF h]
  then have i: "i < NBUF" by simp
  have len': "i < length (bufs s)" using i bio_length [OF inv] by simp
  let ?y = "(buf_at s i)\<lparr>b_data := d\<rparr>"
  have eq: "set_data i d s = upd_buf i (\<lambda>_. ?y) s" by (simp add: set_data_def upd_buf_def)
  show invt: "bio_inv (set_data i d s)" unfolding eq
    by (rule bio_inv_upd_same [OF inv i]) (use buf_ok_at [OF inv i] hd len in \<open>auto simp: buf_ok_def\<close>)
  show "bview (set_data i d s) = (bview s)(b := d)" unfolding eq
    by (rule bview_replace [OF inv invt [unfolded eq] i]) (use hd in auto)
  show "bdirty (set_data i d s) = bdirty s" unfolding eq
    by (rule bdirty_upd_keep [OF inv i]) auto
  show "pins (set_data i d s) = pins s" unfolding eq pins_upd [OF inv i] using hd by (auto simp: pins_def)
  show "holds_buf (set_data i d s) = holds_buf s" unfolding eq fun_eq_iff holds_upd [OF inv i] using hd
    by (auto simp: holds_buf_def)
  show "b_data (buf_at (set_data i d s) i) = d" unfolding eq using len' by simp
qed (simp_all add: set_data_def)

text \<open>\<^verbatim>\<open>bwrite\<close> of a held buffer makes the disk agree with the view of its block.\<close>

lemma bwrite_post:
  assumes inv: "bio_inv s" and h: "holds_buf s i b"
  shows "b < disksize s \<Longrightarrow> \<exists>t. bwrite i s = Some t"
    and "bwrite i s = Some t \<Longrightarrow> bio_inv t \<and> bview t = bview s \<and>
      memdisk t = (memdisk s)(b := bview s b) \<and> dhist t = dhist s @ [(b, bview s b)] \<and>
      disksize t = disksize s \<and> bio.more t = bio.more s \<and> bdirty t = (bdirty s)(b := False) \<and>
      pins t = pins s \<and> holds_buf t = holds_buf s \<and> b < disksize s"
proof -
  note hd = holds_bufD [OF h]
  then have i: "i < NBUF" by simp
  have len: "i < length (bufs s)" using i bio_length [OF inv] by simp
  let ?d = "b_data (buf_at s i)" and ?y = "(buf_at s i)\<lparr>b_dirty := False, b_valid := True\<rparr>"
  have v: "bview s b = ?d" by (rule bview_holds [OF inv h])
  let ?s1 = "s\<lparr>memdisk := (memdisk s)(b := ?d), dhist := dhist s @ [(b, ?d)]\<rparr>"
  have eq: "bwrite i s = (if b < disksize s then Some (upd_buf i (\<lambda>_. ?y) ?s1) else None)"
    using hd len by (cases "buf_at s i") (auto simp: bwrite_def iderw_def Let_def upd_buf_def not_le)
  then show "b < disksize s \<Longrightarrow> \<exists>t. bwrite i s = Some t" by simp
  assume w: "bwrite i s = Some t"
  then have t: "t = upd_buf i (\<lambda>_. ?y) ?s1" and bd: "b < disksize s" using eq by (auto split: if_splits)
  have inv1: "bio_inv ?s1"
    using bio_inv_disk [OF inv, of ?d i "dhist s @ [(b, ?d)]"] hd bio_data [OF inv i] by simp
  have invt: "bio_inv t" unfolding t
    by (rule bio_inv_upd_same [OF inv1 i]) (use buf_ok_at [OF inv1 i] hd in \<open>auto simp: buf_ok_def\<close>)
  have "bview ?s1 c = ((bview s)(b := ?d)) c" for c
  proof (cases "cached s c")
    case None
    then have "c \<noteq> b" using cached_NoneD [OF inv None i] hd by auto
    then show ?thesis using None by (simp add: bview_def cached_def)
  next
    case (Some k)
    then show ?thesis using v by (auto simp: bview_def cached_def)
  qed
  then have v1: "bview ?s1 = bview s" using v by (auto simp: fun_eq_iff)
  have "bview t = (bview ?s1)(b := ?d)" unfolding t
    by (rule bview_replace [OF inv1 invt [unfolded t] i]) (use hd in auto)
  then have "bview t = bview s" using v v1 by (auto simp: fun_eq_iff)
  moreover have "bdirty t = (bdirty s)(b := False)"
  proof
    fix c
    have "j = i" if "j < NBUF" "b_dev (buf_at s j) = 1" "b_blockno (buf_at s j) = b" for j
      using bio_unique [OF inv that(1) i] that hd by simp
    then show "bdirty t c = ((bdirty s)(b := False)) c"
      unfolding t bdirty_upd [OF inv1 i] using hd by (auto simp: bdirty_def)
  qed
  moreover have "pins t = pins s" unfolding t pins_upd [OF inv1 i] using hd by (auto simp: pins_def)
  moreover have "holds_buf t = holds_buf s" unfolding t fun_eq_iff holds_upd [OF inv1 i] using hd
    by (auto simp: holds_buf_def)
  ultimately show "bio_inv t \<and> bview t = bview s \<and>
      memdisk t = (memdisk s)(b := bview s b) \<and> dhist t = dhist s @ [(b, bview s b)] \<and>
      disksize t = disksize s \<and> bio.more t = bio.more s \<and> bdirty t = (bdirty s)(b := False) \<and>
      pins t = pins s \<and> holds_buf t = holds_buf s \<and> b < disksize s"
    using invt v bd by (simp add: t)
qed

text \<open>
  A held buffer whose contents are on the disk, or are marked dirty, can be released. It then
  is the most recently used one.
\<close>

lemma brelse_post:
  assumes inv: "bio_inv s" and h: "holds_buf s i b" and clean: "bdirty s b \<or> bview s b = memdisk s b"
  shows "\<exists>t. brelse i s = Some t \<and> bio_inv t \<and> bview t = bview s \<and> memdisk t = memdisk s \<and>
    dhist t = dhist s \<and> disksize t = disksize s \<and> bio.more t = bio.more s \<and> bdirty t = bdirty s \<and>
    pins t = (if bdirty s b then pins s else pins s - {i}) \<and>
    (\<forall>j c. holds_buf t j c \<longleftrightarrow> j \<noteq> i \<and> holds_buf s j c) \<and> mru t = i # remove1 i (mru s)"
proof -
  note hd = holds_bufD [OF h]
  then have i: "i < NBUF" by simp
  have len: "i < length (bufs s)" using i bio_length [OF inv] by simp
  have r: "b_refcnt (buf_at s i) = 1" using bio_refcnt [OF inv i] hd by simp
  let ?y = "(buf_at s i)\<lparr>b_locked := False, b_refcnt := 0\<rparr>"
  let ?s1 = "upd_buf i (\<lambda>_. ?y) s"
  let ?t = "?s1\<lparr>mru := i # remove1 i (mru s)\<rparr>"
  have rel: "brelse i s = Some ?t"
    using hd len r by (cases "buf_at s i") (auto simp: brelse_def Let_def upd_buf_def)
  have di: "bdirty s b \<longleftrightarrow> b_dirty (buf_at s i)" using bdirty_at [OF inv i] hd by simp
  have cl: "\<not> b_dirty (buf_at s i) \<Longrightarrow> b_data (buf_at s i) = memdisk s b"
    using clean di bview_holds [OF inv h] by simp
  have inv1: "bio_inv ?s1"
    by (rule bio_inv_upd_same [OF inv i])
       (use buf_ok_at [OF inv i] hd cl in \<open>auto simp: buf_ok_def\<close>)
  have invt: "bio_inv ?t" using bio_inv_mru [OF inv1 i] by simp
  have "bview ?t = bview s"
    by (rule bview_same [OF inv invt]) (use len in auto)
  moreover have "bdirty ?s1 = bdirty s"
    by (rule bdirty_upd_keep [OF inv i]) auto
  then have "bdirty ?t = bdirty s" by (simp add: bdirty_def fun_eq_iff)
  moreover have "pins ?s1 = (if bdirty s b then pins s else pins s - {i})"
    unfolding pins_upd [OF inv i] di using hd by (auto simp: pins_def)
  then have "pins ?t = (if bdirty s b then pins s else pins s - {i})" by (simp add: pins_def)
  moreover have "holds_buf ?t j c \<longleftrightarrow> j \<noteq> i \<and> holds_buf s j c" for j c
    using holds_upd [OF inv i, of "\<lambda>_. ?y" j c] by (simp add: holds_buf_def)
  ultimately show ?thesis using rel invt by simp
qed

lemma brelse_release:
  assumes "bio_inv s" and "holds_buf s i b" and "bdirty s b \<or> bview s b = memdisk s b"
    and "brelse i s = Some t"
  shows "bio_inv t" "bview t = bview s" "memdisk t = memdisk s" "dhist t = dhist s"
    "disksize t = disksize s" "bio.more t = bio.more s" "bdirty t = bdirty s"
    "pins t = (if bdirty s b then pins s else pins s - {i})"
    "\<And>j c. holds_buf t j c \<longleftrightarrow> j \<noteq> i \<and> holds_buf s j c"
  using brelse_post [OF assms(1-3)] assms(4) by auto

lemma bread_read:
  assumes "bio_inv s" and "bread 1 b s = Some (i, t)"
  shows "bio_inv t" "holds_buf t i b" "bview t = bview s" "memdisk t = memdisk s" "dhist t = dhist s"
    "disksize t = disksize s" "bio.more t = bio.more s" "bdirty t = bdirty s" "pins t = insert i (pins s)"
    "\<And>j c. holds_buf s j c \<Longrightarrow> j \<noteq> i" "\<And>j c. holds_buf t j c \<longleftrightarrow> holds_buf s j c \<or> j = i \<and> c = b"
    "\<not> bdirty s b \<Longrightarrow> bview s b = memdisk s b" "b_data (buf_at t i) = bview s b"
    "bdirty s b \<Longrightarrow> i \<in> pins s"
  using bread_post [OF assms] bview_holds [of t i b] by (auto simp: bread_post_def)

lemma bwrite_write:
  assumes "bio_inv s" and "holds_buf s i b" and "bwrite i s = Some t"
  shows "bio_inv t" "bview t = bview s" "memdisk t = (memdisk s)(b := bview s b)"
    "dhist t = dhist s @ [(b, bview s b)]" "disksize t = disksize s" "bio.more t = bio.more s"
    "bdirty t = (bdirty s)(b := False)" "pins t = pins s" "holds_buf t = holds_buf s" "b < disksize s"
  using bwrite_post(2) [OF assms] by auto

section \<open>The interface of a block cache\<close>

text \<open>
  What the clients of a buffer cache rely on. \<open>view\<close> is the contents of every block,
  \<open>owns s h b\<close> says that handle \<open>h\<close> holds block \<open>b\<close>, \<open>settled s b\<close> that the
  cached contents of \<open>b\<close> will not be lost when the handle is released. The kernel's cache
  provides it with \<^verbatim>\<open>bwrite\<close> (here) and with \<^verbatim>\<open>log_write\<close> (theory of the log), the file server's
  own cache with \<^verbatim>\<open>ubwrite\<close>.
\<close>

locale block_cache =
  fixes inv :: "'s \<Rightarrow> bool"
    and view :: "'s \<Rightarrow> u32 \<Rightarrow> block"
    and owns :: "'s \<Rightarrow> 'h \<Rightarrow> u32 \<Rightarrow> bool"
    and settled :: "'s \<Rightarrow> u32 \<Rightarrow> bool"
    and contents :: "'s \<Rightarrow> 'h \<Rightarrow> block"
    and rd :: "u32 \<Rightarrow> 's \<Rightarrow> ('h \<times> 's) option"
    and put :: "'h \<Rightarrow> block \<Rightarrow> 's \<Rightarrow> 's"
    and sync :: "'h \<Rightarrow> 's \<Rightarrow> 's option"
    and rel :: "'h \<Rightarrow> 's \<Rightarrow> 's option"
  assumes rd_spec: "inv s \<Longrightarrow> rd b s = Some (h, t) \<Longrightarrow> inv t \<and> owns t h b \<and> view t = view s \<and>
      contents t h = view s b \<and> settled t b \<and> (\<forall>g c. owns s g c \<longrightarrow> g \<noteq> h \<and> owns t g c)
      \<and> (\<forall>c. settled s c \<longrightarrow> settled t c)"
    and put_spec: "inv s \<Longrightarrow> owns s h b \<Longrightarrow> length x = BSIZE \<Longrightarrow> inv (put h x s) \<and>
      owns (put h x s) = owns s \<and> view (put h x s) = (view s)(b := x) \<and> contents (put h x s) h = x
      \<and> (\<forall>c. c \<noteq> b \<longrightarrow> settled s c \<longrightarrow> settled (put h x s) c)"
    and sync_spec: "inv s \<Longrightarrow> owns s h b \<Longrightarrow> sync h s = Some t \<Longrightarrow> inv t \<and> owns t = owns s \<and>
      view t = view s \<and> settled t b \<and> (\<forall>c. settled s c \<longrightarrow> settled t c)"
    and rel_spec: "inv s \<Longrightarrow> owns s h b \<Longrightarrow> settled s b \<Longrightarrow> rel h s = Some t \<Longrightarrow> inv t \<and>
      view t = view s \<and> (\<forall>g c. owns t g c \<longleftrightarrow> g \<noteq> h \<and> owns s g c) \<and> (\<forall>c. settled s c \<longrightarrow> settled t c)"
    and view_length: "inv s \<Longrightarrow> length (view s b) = BSIZE"
begin

text \<open>Reading a block and releasing it changes nothing that a client can see.\<close>

lemma peek:
  assumes "inv s" and "rd b s = Some (h, s1)" and "rel h s1 = Some t"
  shows "inv t" "view t = view s" "contents s1 h = view s b" "\<And>g c. owns s g c \<Longrightarrow> owns t g c"
  using rd_spec [OF assms(1,2)] rel_spec [of s1 h b t] assms(3) by auto

text \<open>Read, modify, write, release: the view changes at the one block.\<close>

lemma modify:
  assumes "inv s" and "rd b s = Some (h, s1)" and "length x = BSIZE"
    and "sync h (put h x s1) = Some s2" and "rel h s2 = Some t"
  shows "inv t" "view t = (view s)(b := x)" "contents s1 h = view s b" "\<And>g c. owns s g c \<Longrightarrow> owns t g c"
proof -
  have 1: "inv s1" "owns s1 h b" "view s1 = view s" "contents s1 h = view s b"
    "\<And>g c. owns s g c \<Longrightarrow> g \<noteq> h \<and> owns s1 g c"
    using rd_spec [OF assms(1,2)] by auto
  have 2: "inv (put h x s1)" "owns (put h x s1) = owns s1" "view (put h x s1) = (view s1)(b := x)"
    using put_spec [OF 1(1,2) assms(3)] by auto
  have 3: "inv s2" "owns s2 = owns s1" "view s2 = (view s1)(b := x)" "settled s2 b"
    using sync_spec [OF 2(1) _ assms(4), of b] 1 2 by auto
  have 4: "inv t" "view t = view s2" "\<And>g c. owns t g c \<longleftrightarrow> g \<noteq> h \<and> owns s2 g c"
    using rel_spec [OF 3(1) _ 3(4) assms(5)] 1 3 by auto
  show "inv t" "view t = (view s)(b := x)" "contents s1 h = view s b" "\<And>g c. owns s g c \<Longrightarrow> owns t g c"
    using 1 3 4 by auto
qed

text \<open>What was written is what the next reader of the block finds.\<close>

lemma read_back:
  assumes "inv s" and "rd b s = Some (h, s1)" and "length x = BSIZE"
    and "sync h (put h x s1) = Some s2" and "rel h s2 = Some t"
    and "rd c t = Some (g, t1)"
  shows "contents t1 g = (if c = b then x else view s c)"
  using modify [OF assms(1-5)] rd_spec [OF _ assms(6)] by auto

end

definition on_disk :: "'a bio_scheme \<Rightarrow> u32 \<Rightarrow> bool" where
  "on_disk s b \<longleftrightarrow> bdirty s b \<or> bview s b = memdisk s b"

interpretation kb: block_cache bio_inv bview holds_buf on_disk "\<lambda>s i. b_data (buf_at s i)" "bread 1"
  set_data bwrite brelse
proof unfold_locales
  fix s t :: "'a bio_scheme" and b h
  assume a: "bio_inv s" "bread 1 b s = Some (h, t)"
  show "bio_inv t \<and> holds_buf t h b \<and> bview t = bview s \<and> b_data (buf_at t h) = bview s b \<and> on_disk t b \<and>
      (\<forall>g c. holds_buf s g c \<longrightarrow> g \<noteq> h \<and> holds_buf t g c) \<and> (\<forall>c. on_disk s c \<longrightarrow> on_disk t c)"
    using bread_read [OF a] by (auto simp: on_disk_def)
next
  fix s :: "'a bio_scheme" and h b and x :: block
  assume a: "bio_inv s" "holds_buf s h b" "length x = BSIZE"
  show "bio_inv (set_data h x s) \<and> holds_buf (set_data h x s) = holds_buf s \<and>
      bview (set_data h x s) = (bview s)(b := x) \<and> b_data (buf_at (set_data h x s) h) = x \<and>
      (\<forall>c. c \<noteq> b \<longrightarrow> on_disk s c \<longrightarrow> on_disk (set_data h x s) c)"
    using set_data_post [OF a] by (auto simp: on_disk_def)
next
  fix s t :: "'a bio_scheme" and h b
  assume a: "bio_inv s" "holds_buf s h b" "bwrite h s = Some t"
  show "bio_inv t \<and> holds_buf t = holds_buf s \<and> bview t = bview s \<and> on_disk t b \<and>
      (\<forall>c. on_disk s c \<longrightarrow> on_disk t c)"
    using bwrite_write [OF a] by (auto simp: on_disk_def)
next
  fix s t :: "'a bio_scheme" and h b
  assume a: "bio_inv s" "holds_buf s h b" "on_disk s b" "brelse h s = Some t"
  show "bio_inv t \<and> bview t = bview s \<and> (\<forall>g c. holds_buf t g c \<longleftrightarrow> g \<noteq> h \<and> holds_buf s g c) \<and>
      (\<forall>c. on_disk s c \<longrightarrow> on_disk t c)"
    using brelse_release [OF a(1,2) _ a(4)] a(3) by (auto simp: on_disk_def)
qed (rule length_bview)

section \<open>Start and use of the cache\<close>

lemma fold_Cons_rev: "fold (#) xs ys = rev xs @ ys"
  by (induction xs arbitrary: ys) auto

lemma bio_inv_binit:
  assumes "bufs s = replicate NBUF zero_buf" and "\<And>b. length (memdisk s b) = BSIZE"
  shows "bio_inv (binit s)" "bview (binit s) = memdisk s" "pins (binit s) = {}" "\<not> holds_buf (binit s) i b"
    "\<not> bdirty (binit s) b"
proof -
  have at: "buf_at (binit s) i = zero_buf" if "i < NBUF" for i
    using assms(1) that by (simp add: binit_def)
  have "mru (binit s) = rev [0..<NBUF]" by (simp only: binit_def fold_Cons_rev) simp
  then have m: "distinct (mru (binit s))" "set (mru (binit s)) = {0..<NBUF}"
    by (simp_all only: distinct_rev distinct_upt set_rev set_upt)
  show inv: "bio_inv (binit s)"
    unfolding bio_inv_alt using assms m at by (auto simp: buf_ok_def zero_buf_def binit_def)
  show "bview (binit s) = memdisk s"
    using bview_uncached [OF inv] at by (auto simp: fun_eq_iff zero_buf_def binit_def)
  show "pins (binit s) = {}" "\<not> holds_buf (binit s) i b" "\<not> bdirty (binit s) b"
    using at by (auto simp: pins_def holds_buf_def bdirty_def zero_buf_def)
qed

definition bio_boot :: "(u32 \<Rightarrow> block) \<Rightarrow> u32 \<Rightarrow> bio" where
  "bio_boot d n = binit \<lparr>bufs = replicate NBUF zero_buf, mru = [], memdisk = d, disksize = n, dhist = []\<rparr>"

lemma bio_boot_inv:
  assumes "\<And>b. length (d b) = BSIZE"
  shows "bio_inv (bio_boot d n)" "bview (bio_boot d n) = d" "pins (bio_boot d n) = {}"
    "\<not> held (bio_boot d n) b" "disksize (bio_boot d n) = n" "memdisk (bio_boot d n) = d" "dhist (bio_boot d n) = []"
  using bio_inv_binit [of "\<lparr>bufs = replicate NBUF zero_buf, mru = [], memdisk = d, disksize = n, dhist = []\<rparr>"]
    assms held_iff [of "bio_boot d n" b] by (auto simp: bio_boot_def binit_def)

text \<open>
  C19. In every state between calls, \<^verbatim>\<open>bread\<close> of an existing block that nobody holds returns, if
  some buffer is neither locked nor dirty. The buffer it returns is locked and holds the
  current contents of the block; the contents of all blocks, the disk and the dirty marks
  are unchanged, and a buffer that was in use keeps its block. While a block is held, another
  \<^verbatim>\<open>bread\<close> of it does not return.
\<close>

theorem bread_correct:
  assumes "bio_inv s" and "b < disksize s" and "pins s \<noteq> {0..<NBUF}"
  shows "(\<not> held s b \<longrightarrow> (\<exists>i t. bread 1 b s = Some (i, t) \<and> bio_inv t \<and> holds_buf t i b \<and>
            b_data (buf_at t i) = bview s b \<and> bview t = bview s \<and> memdisk t = memdisk s \<and>
            bdirty t = bdirty s \<and> (\<forall>j c. holds_buf s j c \<longrightarrow> j \<noteq> i \<and> holds_buf t j c)))
    \<and> (held s b \<longrightarrow> bread 1 b s = None)"
proof (intro conjI impI)
  assume "\<not> held s b"
  then obtain i t where rd: "bread 1 b s = Some (i, t)"
    using bread_returns [OF assms(1,2) _ assms(3)] by blast
  then show "\<exists>i t. bread 1 b s = Some (i, t) \<and> bio_inv t \<and> holds_buf t i b \<and>
      b_data (buf_at t i) = bview s b \<and> bview t = bview s \<and> memdisk t = memdisk s \<and>
      bdirty t = bdirty s \<and> (\<forall>j c. holds_buf s j c \<longrightarrow> j \<noteq> i \<and> holds_buf t j c)"
    using bread_read [OF assms(1) rd] by auto
next
  assume h: "held s b"
  show "bread 1 b s = None"
  proof (rule ccontr)
    assume "bread 1 b s \<noteq> None"
    then obtain i t where rd: "bread 1 b s = Some (i, t)" by auto
    obtain j where j: "holds_buf s j b" using h held_iff [OF assms(1)] by blast
    have "holds_buf t i b" "holds_buf t j b" "j \<noteq> i" using bread_read [OF assms(1) rd] j by auto
    then show False
      using bio_unique [OF bread_read(1) [OF assms(1) rd], of i j] by (auto simp: holds_buf_def)
  qed
qed

theorem bread_correct_witness:
  "\<exists>i t. bread 1 5 (bio_boot (\<lambda>_. zero_block) 1000) = Some (i, t) \<and> b_data (buf_at t i) = zero_block"
  using bread_correct [of "bio_boot (\<lambda>_. zero_block) 1000" 5] bio_boot_inv [of "\<lambda>_. zero_block" 1000]
  by auto

lemma bwrite_cycle_runs:
  assumes inv: "bio_inv s" and b: "b < disksize s" "\<not> held s b" and room: "pins s \<noteq> {0..<NBUF}"
    and len: "length x = BSIZE"
  obtains h s1 s2 t where "bread 1 b s = Some (h, s1)" "bwrite h (set_data h x s1) = Some s2"
    "brelse h s2 = Some t" "bio_inv t" "disksize t = disksize s" "pins t \<subseteq> pins s"
proof -
  obtain h s1 where rd: "bread 1 b s = Some (h, s1)" using bread_returns [OF inv b room] by blast
  note 1 = bread_read [OF inv rd]
  note 2 = set_data_post [OF 1(1,2) len]
  have h2: "holds_buf (set_data h x s1) h b" using 1 2 by simp
  obtain s2 where w: "bwrite h (set_data h x s1) = Some s2"
    using bwrite_post(1) [OF 2(1) h2] b 1 2 by auto
  note 3 = bwrite_write [OF 2(1) h2 w]
  have h3: "holds_buf s2 h b" "bdirty s2 b \<or> bview s2 b = memdisk s2 b" using 2 3 h2 by auto
  obtain t where r: "brelse h s2 = Some t" using brelse_post [OF 3(1) h3] by blast
  note 4 = brelse_release [OF 3(1) h3 r]
  have "pins t \<subseteq> pins s" using 1 2 3 4 by auto
  then show thesis using 1 2 3 4 by (intro that [OF rd w r]) simp_all
qed

text \<open>
  C32. A block written with \<^verbatim>\<open>bwrite\<close> and released is read back with the bytes that were stored,
  every other block with its old contents, and the disk itself has the new contents.
\<close>

theorem bwrite_read_back:
  assumes "bio_inv s" and "bread 1 b s = Some (h, s1)" and "length x = BSIZE"
    and "bwrite h (set_data h x s1) = Some s2" and "brelse h s2 = Some t"
    and "bread 1 c t = Some (g, t1)"
  shows "b_data (buf_at t1 g) = (if c = b then x else bview s c) \<and> memdisk t1 = (memdisk s)(b := x)"
proof
  show "b_data (buf_at t1 g) = (if c = b then x else bview s c)"
    by (rule kb.read_back [OF assms])
  note 1 = bread_read [OF assms(1,2)]
  note 2 = set_data_post [OF 1(1,2) assms(3)]
  have h2: "holds_buf (set_data h x s1) h b" using 1 2 by simp
  note 3 = bwrite_write [OF 2(1) h2 assms(4)]
  have h3: "holds_buf s2 h b" "bdirty s2 b \<or> bview s2 b = memdisk s2 b" using 2 3 h2 by auto
  note 4 = brelse_release [OF 3(1) h3 assms(5)]
  show "memdisk t1 = (memdisk s)(b := x)"
    using bread_read [OF 4(1) assms(6)] 1 2 3 4 by simp
qed

theorem bwrite_read_back_witness:
  "\<exists>h s1 s2 t g t1. bread 1 5 (bio_boot (\<lambda>_. zero_block) 1000) = Some (h, s1) \<and>
     bwrite h (set_data h (replicate BSIZE 7) s1) = Some s2 \<and> brelse h s2 = Some t \<and>
     bread 1 5 t = Some (g, t1) \<and> b_data (buf_at t1 g) = replicate BSIZE 7"
proof -
  let ?s = "bio_boot (\<lambda>_. zero_block) 1000" and ?x = "replicate BSIZE 7 :: block"
  note s = bio_boot_inv [of "\<lambda>_. zero_block" 1000, simplified]
  have len: "length ?x = BSIZE" by simp
  obtain h s1 s2 t where r: "bread 1 5 ?s = Some (h, s1)" "bwrite h (set_data h ?x s1) = Some s2"
    "brelse h s2 = Some t" "bio_inv t" "disksize t = disksize ?s" "pins t \<subseteq> pins ?s"
    by (rule bwrite_cycle_runs [OF s(1) _ _ _ len, of 5]) (use s in auto)
  have "pins t = {}" using r s by simp
  then have "\<not> held t 5" by (auto simp: held_def pins_def)
  then obtain g t1 where "bread 1 5 t = Some (g, t1)"
    using bread_returns [OF r(4), of 5] r s \<open>pins t = {}\<close> by auto
  then show ?thesis
    using bwrite_read_back [OF s(1) r(1) len r(2,3)] r by auto
qed

end
