(* ===== verification/Xv6_Log.thy ===== *)
theory Xv6_Log
  imports Xv6_Bio
begin

text \<open>
  The write-ahead log of \<^verbatim>\<open>log.c\<close>, with \<^verbatim>\<open>readsb\<close> of \<^verbatim>\<open>fs.c\<close>, which it calls.

  The state extends the buffer cache with the fields of \<^verbatim>\<open>struct log\<close>. The in-memory header
  (\<^verbatim>\<open>lh.n\<close> and the first \<^verbatim>\<open>n\<close> entries of \<^verbatim>\<open>lh.block\<close>) is the list \<open>lh\<close>. Where
  \<^verbatim>\<open>begin_op\<close> sleeps until another operation ends, the caller is blocked.

  The lemmas determine the block writes that \<^verbatim>\<open>commit\<close> and the recovery perform, in their order,
  for the crash theorems of \<^verbatim>\<open>Xv6_Txn\<close>: the machine may stop after any of these writes.
\<close>

abbreviation (input) LOGSIZE :: nat where "LOGSIZE \<equiv> 30"
abbreviation (input) MAXOPBLOCKS :: nat where "MAXOPBLOCKS \<equiv> 10"

record logst = bio +
  log_start :: u32
  log_size :: u32
  outstanding :: int
  committing :: bool
  log_dev :: u32
  lh :: "u32 list"

section \<open>Operations\<close>

definition readsb :: "u32 \<Rightarrow> 'a bio_scheme \<Rightarrow> (superblock \<times> 'a bio_scheme) option" where
  "readsb dev s = do {
     (bp, s) \<leftarrow> bread dev 1 s;
     let sb = decode_sb (b_data (buf_at s bp));
     s \<leftarrow> brelse bp s;
     Some (sb, s)
   }"

text \<open>
  \<^verbatim>\<open>read_head\<close> copies \<^verbatim>\<open>n\<close> entries into an array of \<open>LOGSIZE\<close>; a header with a larger
  \<^verbatim>\<open>n\<close> would overrun it. A negative \<^verbatim>\<open>n\<close> copies nothing.
\<close>

definition decode_head :: "block \<Rightarrow> u32 list option" where
  "decode_head blk =
     (let n = sint (get32 0 blk) in
      if n > int LOGSIZE then None else Some (map (\<lambda>i. get32 (4 + 4 * i) blk) [0..<nat n]))"

definition encode_head :: "u32 list \<Rightarrow> block \<Rightarrow> block" where
  "encode_head bs blk = blit 0 (le32 (of_nat (length bs)) @ concat (map le32 bs)) blk"

fun install_trans_from :: "nat \<Rightarrow> u32 list \<Rightarrow> 'a logst_scheme \<Rightarrow> 'a logst_scheme option" where
  "install_trans_from tail [] s = Some s"
| "install_trans_from tail (b # bs) s = do {
     (lbuf, s) \<leftarrow> bread (log_dev s) (log_start s + of_nat tail + 1) s;
     (dbuf, s) \<leftarrow> bread (log_dev s) b s;
     let s = set_data dbuf (b_data (buf_at s lbuf)) s;
     s \<leftarrow> bwrite dbuf s;
     s \<leftarrow> brelse lbuf s;
     s \<leftarrow> brelse dbuf s;
     install_trans_from (Suc tail) bs s
   }"

definition install_trans :: "'a logst_scheme \<Rightarrow> 'a logst_scheme option" where
  "install_trans s = install_trans_from 0 (lh s) s"

definition read_head :: "'a logst_scheme \<Rightarrow> 'a logst_scheme option" where
  "read_head s = do {
     (bp, s) \<leftarrow> bread (log_dev s) (log_start s) s;
     bs \<leftarrow> decode_head (b_data (buf_at s bp));
     let s = s\<lparr>lh := bs\<rparr>;
     brelse bp s
   }"

definition write_head :: "'a logst_scheme \<Rightarrow> 'a logst_scheme option" where
  "write_head s = do {
     (bp, s) \<leftarrow> bread (log_dev s) (log_start s) s;
     let s = set_data bp (encode_head (lh s) (b_data (buf_at s bp))) s;
     s \<leftarrow> bwrite bp s;
     brelse bp s
   }"

definition recover_from_log :: "'a logst_scheme \<Rightarrow> 'a logst_scheme option" where
  "recover_from_log s = do {
     s \<leftarrow> read_head s;
     s \<leftarrow> install_trans s;
     write_head (s\<lparr>lh := []\<rparr>)
   }"

text \<open>The header has \<open>4 + 4 * LOGSIZE\<close> bytes, less than a block.\<close>

definition initlog :: "u32 \<Rightarrow> 'a logst_scheme \<Rightarrow> 'a logst_scheme option" where
  "initlog dev s =
     (if 4 + 4 * LOGSIZE \<ge> BSIZE then panic ''initlog: too big logheader''
      else do {
        (sb, s) \<leftarrow> readsb dev s;
        recover_from_log (s\<lparr>log_start := sb_logstart sb, log_size := sb_nlog sb, log_dev := dev\<rparr>)
      })"

definition begin_op :: "'a logst_scheme \<Rightarrow> 'a logst_scheme option" where
  "begin_op s =
     (if committing s then blocked
      else if int (length (lh s)) + (outstanding s + 1) * int MAXOPBLOCKS > int LOGSIZE then blocked
      else Some (s\<lparr>outstanding := outstanding s + 1\<rparr>))"

fun write_log_from :: "nat \<Rightarrow> u32 list \<Rightarrow> 'a logst_scheme \<Rightarrow> 'a logst_scheme option" where
  "write_log_from tail [] s = Some s"
| "write_log_from tail (b # bs) s = do {
     (to, s) \<leftarrow> bread (log_dev s) (log_start s + of_nat tail + 1) s;
     (from, s) \<leftarrow> bread (log_dev s) b s;
     let s = set_data to (b_data (buf_at s from)) s;
     s \<leftarrow> bwrite to s;
     s \<leftarrow> brelse from s;
     s \<leftarrow> brelse to s;
     write_log_from (Suc tail) bs s
   }"

definition write_log :: "'a logst_scheme \<Rightarrow> 'a logst_scheme option" where
  "write_log s = write_log_from 0 (lh s) s"

definition commit :: "'a logst_scheme \<Rightarrow> 'a logst_scheme option" where
  "commit s =
     (if length (lh s) > 0 then do {
        s \<leftarrow> write_log s;
        s \<leftarrow> write_head s;
        s \<leftarrow> install_trans s;
        write_head (s\<lparr>lh := []\<rparr>)
      } else Some s)"

definition end_op :: "'a logst_scheme \<Rightarrow> 'a logst_scheme option" where
  "end_op s = (let s = s\<lparr>outstanding := outstanding s - 1\<rparr> in
     if committing s then panic ''log.committing''
     else if outstanding s = 0 then do {
       s \<leftarrow> commit (s\<lparr>committing := True\<rparr>);
       Some (s\<lparr>committing := False\<rparr>)
     } else Some s)"

definition log_write :: "nat \<Rightarrow> 'a logst_scheme \<Rightarrow> 'a logst_scheme option" where
  "log_write i s =
     (if int (length (lh s)) \<ge> int LOGSIZE \<or> int (length (lh s)) \<ge> sint (log_size s) - 1
        then panic ''too big a transaction''
      else if outstanding s < 1 then panic ''log_write outside of trans''
      else
        let b = b_blockno (buf_at s i);
            s = (if b \<in> set (lh s) then s else s\<lparr>lh := lh s @ [b]\<rparr>)
        in Some (upd_buf i (\<lambda>x. x\<lparr>b_dirty := True\<rparr>) s))"

section \<open>Sequences of block writes\<close>

definition apply_writes :: "(u32 \<Rightarrow> block) \<Rightarrow> (u32 \<times> block) list \<Rightarrow> u32 \<Rightarrow> block" where
  "apply_writes d ws = foldl (\<lambda>d (b, x). d(b := x)) d ws"

lemma apply_writes_Nil [simp]: "apply_writes d [] = d"
  by (simp add: apply_writes_def)

lemma apply_writes_Cons [simp]: "apply_writes d ((b, x) # ws) = apply_writes (d(b := x)) ws"
  by (simp add: apply_writes_def)

lemma apply_writes_append: "apply_writes d (vs @ ws) = apply_writes (apply_writes d vs) ws"
  by (simp add: apply_writes_def)

lemma apply_writes_other: "b \<notin> fst ` set ws \<Longrightarrow> apply_writes d ws b = d b"
proof (induction ws arbitrary: d)
  case (Cons w ws)
  then show ?case by (cases w) auto
qed simp

lemma apply_writes_same:
  "(b, x) \<in> set ws \<Longrightarrow> distinct (map fst ws) \<Longrightarrow> apply_writes d ws b = x"
proof (induction ws arbitrary: d)
  case (Cons w ws)
  show ?case
  proof (cases "w = (b, x)")
    case True
    with Cons.prems show ?thesis by (auto simp: apply_writes_other image_iff)
  next
    case False
    with Cons show ?thesis by (cases w) auto
  qed
qed simp

lemma length_apply_writes:
  "(\<And>b. length (d b) = n) \<Longrightarrow> (\<And>b x. (b, x) \<in> set ws \<Longrightarrow> length x = n) \<Longrightarrow>
   length (apply_writes d ws b) = n"
proof (induction ws arbitrary: d)
  case (Cons w ws)
  obtain c y where w: "w = (c, y)" by (cases w)
  have "length (apply_writes (d(c := y)) ws b) = n"
    using Cons.prems w by (intro Cons.IH) auto
  then show ?case by (simp add: w)
qed simp

section \<open>Copying one block to another\<close>

text \<open>
  \<open>wrote ws s t\<close>: from \<open>s\<close> to \<open>t\<close> exactly the writes \<open>ws\<close> reached the disk, in
  this order, and readers see each of them; the written blocks are clean, every lock that was
  taken is released again, and no further buffer is pinned.
\<close>

definition wrote :: "(u32 \<times> block) list \<Rightarrow> 'a bio_scheme \<Rightarrow> 'a bio_scheme \<Rightarrow> bool" where
  "wrote ws s t \<longleftrightarrow> bio_inv t \<and> memdisk t = apply_writes (memdisk s) ws \<and> dhist t = dhist s @ ws \<and>
     bview t = apply_writes (bview s) ws \<and> disksize t = disksize s \<and> bio.more t = bio.more s \<and>
     holds_buf t = holds_buf s \<and> pins t \<subseteq> pins s \<and>
     (\<forall>b. bdirty t b \<longleftrightarrow> bdirty s b \<and> b \<notin> fst ` set ws)"

lemma wrote_trans: "wrote vs s t \<Longrightarrow> wrote ws t u \<Longrightarrow> wrote (vs @ ws) s u"
  unfolding wrote_def apply_writes_append by auto

lemma wrote_refl: "bio_inv s \<Longrightarrow> wrote [] s s"
  by (simp add: wrote_def)

text \<open>
  The common tail of \<^verbatim>\<open>write_log\<close> and \<^verbatim>\<open>install_trans\<close>, once both buffers are held:
  \<open>a\<close> is written with the data of \<open>c\<close>, then \<open>c\<close> and \<open>a\<close> are released.
\<close>

lemma copy_tail:
  assumes inv: "bio_inv s" and ha: "holds_buf s a A" and hc: "holds_buf s c C" and ne: "a \<noteq> c"
    and AC: "A \<noteq> C" and set_c: "bdirty s C \<or> bview s C = memdisk s C"
    and w: "bwrite a (set_data a (b_data (buf_at s c)) s) = Some s1"
    and r1: "brelse c s1 = Some s2" and r2: "brelse a s2 = Some t"
  shows "bio_inv t" "bview t = (bview s)(A := bview s C)" "memdisk t = (memdisk s)(A := bview s C)"
    "dhist t = dhist s @ [(A, bview s C)]" "disksize t = disksize s" "bio.more t = bio.more s"
    "bdirty t = (bdirty s)(A := False)" "pins t = (if bdirty s C then pins s - {a} else pins s - {a, c})"
    "\<And>j d. holds_buf t j d \<longleftrightarrow> j \<noteq> a \<and> j \<noteq> c \<and> holds_buf s j d"
proof -
  let ?x = "b_data (buf_at s c)"
  have x: "?x = bview s C" using bview_holds [OF inv hc] by simp
  have len: "length ?x = BSIZE" unfolding x by (rule length_bview [OF inv])
  note 1 = set_data_post [OF inv ha len]
  have h1: "holds_buf (set_data a ?x s) a A" using ha 1 by simp
  note 2 = bwrite_write [OF 1(1) h1 w]
  have hc2: "holds_buf s1 c C" "bdirty s1 C \<or> bview s1 C = memdisk s1 C"
    using hc set_c AC 1 2 by auto
  note 3 = brelse_release [OF 2(1) hc2 r1]
  have ha3: "holds_buf s2 a A" "bdirty s2 A \<or> bview s2 A = memdisk s2 A"
    using ha ne 1 2 3 by auto
  note 4 = brelse_release [OF 3(1) ha3 r2]
  show "bio_inv t" "bview t = (bview s)(A := bview s C)" "memdisk t = (memdisk s)(A := bview s C)"
    "dhist t = dhist s @ [(A, bview s C)]" "disksize t = disksize s" "bio.more t = bio.more s"
    "bdirty t = (bdirty s)(A := False)"
    using 1 2 3 4 x by (auto simp: fun_eq_iff)
  show "pins t = (if bdirty s C then pins s - {a} else pins s - {a, c})"
    using 1 2 3 4 AC by auto
  show "holds_buf t j d \<longleftrightarrow> j \<noteq> a \<and> j \<noteq> c \<and> holds_buf s j d" for j d
    using 1 2 3 4 by auto
qed

lemma copy_tail_returns:
  assumes inv: "bio_inv s" and ha: "holds_buf s a A" and hc: "holds_buf s c C" and ne: "a \<noteq> c"
    and AC: "A \<noteq> C" and set_c: "bdirty s C \<or> bview s C = memdisk s C" and A: "A < disksize s"
  obtains s1 s2 t where "bwrite a (set_data a (b_data (buf_at s c)) s) = Some s1"
    "brelse c s1 = Some s2" "brelse a s2 = Some t"
proof -
  let ?x = "b_data (buf_at s c)"
  have len: "length ?x = BSIZE" using bview_holds [OF inv hc] length_bview [OF inv, of C] by simp
  note 1 = set_data_post [OF inv ha len]
  have h1: "holds_buf (set_data a ?x s) a A" using ha 1 by simp
  obtain s1 where w: "bwrite a (set_data a ?x s) = Some s1" using bwrite_post(1) [OF 1(1) h1] A 1 by auto
  note 2 = bwrite_write [OF 1(1) h1 w]
  have hc2: "holds_buf s1 c C" "bdirty s1 C \<or> bview s1 C = memdisk s1 C"
    using hc set_c AC 1 2 by auto
  obtain s2 where r1: "brelse c s1 = Some s2" using brelse_post [OF 2(1) hc2] by blast
  note 3 = brelse_release [OF 2(1) hc2 r1]
  have ha3: "holds_buf s2 a A" "bdirty s2 A \<or> bview s2 A = memdisk s2 A"
    using ha ne 1 2 3 by auto
  obtain t where r2: "brelse a s2 = Some t" using brelse_post [OF 3(1) ha3] by blast
  show thesis by (rule that [OF w r1 r2])
qed

lemma two_breads:
  assumes inv: "bio_inv s" and r1: "bread 1 X s = Some (p, s1)" and r2: "bread 1 Y s1 = Some (q, s2)"
  shows "X \<noteq> Y" "p \<noteq> q" "bio_inv s2" "holds_buf s2 p X" "holds_buf s2 q Y" "bview s2 = bview s"
    "memdisk s2 = memdisk s" "dhist s2 = dhist s" "disksize s2 = disksize s" "bio.more s2 = bio.more s"
    "bdirty s2 = bdirty s" "pins s2 = insert q (insert p (pins s))"
    "bdirty s2 X \<or> bview s2 X = memdisk s2 X" "bdirty s2 Y \<or> bview s2 Y = memdisk s2 Y"
    "\<And>j d. j \<noteq> p \<Longrightarrow> j \<noteq> q \<Longrightarrow> holds_buf s2 j d \<longleftrightarrow> holds_buf s j d"
    "\<And>j d. holds_buf s j d \<Longrightarrow> j \<noteq> p \<and> j \<noteq> q"
proof -
  note 1 = bread_read [OF inv r1]
  note 2 = bread_read [OF 1(1) r2]
  show pq: "p \<noteq> q" using 1(2) 2(10) by blast
  have "holds_buf s2 p X" "holds_buf s2 q Y" using 1 2 by auto
  then show "X \<noteq> Y" "holds_buf s2 p X" "holds_buf s2 q Y"
    using bio_unique [OF 2(1), of p q] pq by (auto simp: holds_buf_def)
  show "bio_inv s2" by (rule 2(1))
  show "bview s2 = bview s" "memdisk s2 = memdisk s" "dhist s2 = dhist s" "disksize s2 = disksize s"
    "bio.more s2 = bio.more s" "bdirty s2 = bdirty s" "pins s2 = insert q (insert p (pins s))"
    using 1 2 by simp_all
  show "bdirty s2 X \<or> bview s2 X = memdisk s2 X" "bdirty s2 Y \<or> bview s2 Y = memdisk s2 Y"
    using 1 2 by auto
  show "holds_buf s2 j d \<longleftrightarrow> holds_buf s j d" if "j \<noteq> p" "j \<noteq> q" for j d
    using 1(11) 2(11) that by auto
  show "j \<noteq> p \<and> j \<noteq> q" if "holds_buf s j d" for j d
    using 1(10,11) 2(10) that by blast
qed

lemma card_pins_room: "card (pins s) < NBUF \<Longrightarrow> pins s \<noteq> {0..<NBUF}"
  by auto

lemma two_breads_return:
  assumes inv: "bio_inv s" and room: "card (pins s) < NBUF" "bdirty s Y \<or> card (pins s) + 2 \<le> NBUF"
    and X: "X < disksize s" "\<not> held s X" and Y: "Y < disksize s" "\<not> held s Y" and ne: "X \<noteq> Y"
  obtains p s1 q s2 where "bread 1 X s = Some (p, s1)" "bread 1 Y s1 = Some (q, s2)"
proof -
  obtain p s1 where r1: "bread 1 X s = Some (p, s1)"
    using bread_returns [OF inv X card_pins_room [OF room(1)]] by auto
  note 1 = bread_read [OF inv r1]
  have nh: "\<not> held s1 Y" using Y(2) ne 1(11) by (auto simp: held_iff [OF inv] held_iff [OF 1(1)])
  have "\<exists>q s2. bread 1 Y s1 = Some (q, s2)"
  proof (cases "bdirty s Y")
    case True
    then show ?thesis using bread_returns_dirty [OF 1(1) _ nh] 1(8) by simp
  next
    case False
    have "card (pins s1) \<le> Suc (card (pins s))" unfolding 1(9) by (rule card_insert_le_m1) auto
    then have "pins s1 \<noteq> {0..<NBUF}" using room(2) False by (intro card_pins_room) simp
    then show ?thesis using bread_returns [OF 1(1) _ nh] Y 1 by simp
  qed
  with r1 that show thesis by blast
qed

text \<open>One round of \<^verbatim>\<open>write_log\<close> (destination read first) and of \<^verbatim>\<open>install_trans\<close> (source first).\<close>

lemma copy_dst_first:
  assumes inv: "bio_inv s" and r1: "bread 1 A s = Some (a, s1)" and r2: "bread 1 C s1 = Some (c, s2)"
    and w: "bwrite a (set_data a (b_data (buf_at s2 c)) s2) = Some s3"
    and l1: "brelse c s3 = Some s4" and l2: "brelse a s4 = Some t"
  shows "wrote [(A, bview s C)] s t" "A \<noteq> C"
proof -
  note 1 = two_breads [OF inv r1 r2]
  note 2 = copy_tail [OF 1(3,4,5,2,1,14) w l1 l2]
  show "A \<noteq> C" by (rule 1(1))
  have "holds_buf t j d \<longleftrightarrow> holds_buf s j d" for j d
    using 2(9) [of j d] 1(15) [of j d] 1(16) [of j d] by auto
  then have "holds_buf t = holds_buf s" by (simp add: fun_eq_iff)
  moreover have "bdirty s C \<Longrightarrow> c \<in> pins s"
    using bread_read(14) [OF bread_read(1) [OF inv r1] r2] bread_read(8,9) [OF inv r1] 1(2) by auto
  then have "pins t \<subseteq> pins s" using 1(11,12) 2(8) by auto
  ultimately show "wrote [(A, bview s C)] s t"
    using 1(6-11) 2(1-7) by (auto simp: wrote_def)
qed

lemma copy_src_first:
  assumes inv: "bio_inv s" and r1: "bread 1 C s = Some (c, s1)" and r2: "bread 1 A s1 = Some (a, s2)"
    and w: "bwrite a (set_data a (b_data (buf_at s2 c)) s2) = Some s3"
    and l1: "brelse c s3 = Some s4" and l2: "brelse a s4 = Some t"
  shows "wrote [(A, bview s C)] s t" "A \<noteq> C"
proof -
  note 1 = two_breads [OF inv r1 r2]
  note 2 = copy_tail [OF 1(3,5,4) 1(2) [symmetric] 1(1) [symmetric] 1(13) w l1 l2]
  show "A \<noteq> C" using 1(1) by simp
  have "holds_buf t j d \<longleftrightarrow> holds_buf s j d" for j d
    using 2(9) [of j d] 1(15) [of j d] 1(16) [of j d] by auto
  then have "holds_buf t = holds_buf s" by (simp add: fun_eq_iff)
  moreover have "bdirty s C \<Longrightarrow> c \<in> pins s"
    by (rule bread_read(14) [OF inv r1])
  then have "pins t \<subseteq> pins s" using 1(11,12) 2(8) by auto
  ultimately show "wrote [(A, bview s C)] s t"
    using 1(6-11) 2(1-7) by (auto simp: wrote_def)
qed

section \<open>What the loops of the log write\<close>

lemma more_log:
  assumes "bio.more t = bio.more (s :: 'a logst_scheme)"
  shows "log_dev t = log_dev s" "log_start t = log_start s" "log_size t = log_size s" "lh t = lh s"
    "outstanding t = outstanding s" "committing t = committing s" "logst.more t = logst.more s"
  using assms by (cases s; cases t; simp)+

text \<open>Updates of the log's own fields do not concern the cache.\<close>

lemma bio_upd_lh [simp]:
  "bio_inv (s\<lparr>lh := l\<rparr>) = bio_inv s" "bview (s\<lparr>lh := l\<rparr>) = bview s" "bdirty (s\<lparr>lh := l\<rparr>) = bdirty s"
  "pins (s\<lparr>lh := l\<rparr>) = pins s" "holds_buf (s\<lparr>lh := l\<rparr>) = holds_buf s" "held (s\<lparr>lh := l\<rparr>) = held s"
  by (rule bio_cong; simp)+

lemma bio_upd_start [simp]:
  "bio_inv (s\<lparr>log_start := x\<rparr>) = bio_inv s" "bview (s\<lparr>log_start := x\<rparr>) = bview s"
  "bdirty (s\<lparr>log_start := x\<rparr>) = bdirty s" "pins (s\<lparr>log_start := x\<rparr>) = pins s"
  "holds_buf (s\<lparr>log_start := x\<rparr>) = holds_buf s" "held (s\<lparr>log_start := x\<rparr>) = held s"
  by (rule bio_cong; simp)+

lemma bio_upd_size [simp]:
  "bio_inv (s\<lparr>log_size := x\<rparr>) = bio_inv s" "bview (s\<lparr>log_size := x\<rparr>) = bview s"
  "bdirty (s\<lparr>log_size := x\<rparr>) = bdirty s" "pins (s\<lparr>log_size := x\<rparr>) = pins s"
  "holds_buf (s\<lparr>log_size := x\<rparr>) = holds_buf s" "held (s\<lparr>log_size := x\<rparr>) = held s"
  by (rule bio_cong; simp)+

lemma bio_upd_dev [simp]:
  "bio_inv (s\<lparr>log_dev := x\<rparr>) = bio_inv s" "bview (s\<lparr>log_dev := x\<rparr>) = bview s"
  "bdirty (s\<lparr>log_dev := x\<rparr>) = bdirty s" "pins (s\<lparr>log_dev := x\<rparr>) = pins s"
  "holds_buf (s\<lparr>log_dev := x\<rparr>) = holds_buf s" "held (s\<lparr>log_dev := x\<rparr>) = held s"
  by (rule bio_cong; simp)+

lemma bio_upd_outstanding [simp]:
  "bio_inv (s\<lparr>outstanding := x\<rparr>) = bio_inv s" "bview (s\<lparr>outstanding := x\<rparr>) = bview s"
  "bdirty (s\<lparr>outstanding := x\<rparr>) = bdirty s" "pins (s\<lparr>outstanding := x\<rparr>) = pins s"
  "holds_buf (s\<lparr>outstanding := x\<rparr>) = holds_buf s" "held (s\<lparr>outstanding := x\<rparr>) = held s"
  by (rule bio_cong; simp)+

lemma bio_upd_committing [simp]:
  "bio_inv (s\<lparr>committing := x\<rparr>) = bio_inv s" "bview (s\<lparr>committing := x\<rparr>) = bview s"
  "bdirty (s\<lparr>committing := x\<rparr>) = bdirty s" "pins (s\<lparr>committing := x\<rparr>) = pins s"
  "holds_buf (s\<lparr>committing := x\<rparr>) = holds_buf s" "held (s\<lparr>committing := x\<rparr>) = held s"
  by (rule bio_cong; simp)+

lemma more_upd_lh: "bio.more t = bio.more s \<Longrightarrow> bio.more (t\<lparr>lh := l\<rparr>) = bio.more (s\<lparr>lh := l\<rparr>)"
  by (cases s; cases t) simp

lemma wrote_upd_lh: "wrote ws s t \<Longrightarrow> wrote ws (s\<lparr>lh := l\<rparr>) (t\<lparr>lh := l\<rparr>)"
  unfolding wrote_def bio_upd_lh using more_upd_lh [of t s l] by simp

text \<open>The blocks of the log body: block \<open>k\<close> of a transaction goes to \<^verbatim>\<open>start + k + 1\<close>.\<close>

definition log_blocks :: "u32 \<Rightarrow> nat \<Rightarrow> nat \<Rightarrow> u32 list" where
  "log_blocks start k n = map (\<lambda>i. start + of_nat i + 1) [k..<k + n]"

lemma length_log_blocks [simp]: "length (log_blocks start k n) = n"
  by (simp add: log_blocks_def)

lemma log_blocks_Suc: "log_blocks start k (Suc n) = (start + of_nat k + 1) # log_blocks start (Suc k) n"
  by (simp add: log_blocks_def upt_rec)

lemma wrote_frame:
  assumes "wrote ws s t"
  shows "bio_inv t" "memdisk t = apply_writes (memdisk s) ws" "dhist t = dhist s @ ws"
    "bview t = apply_writes (bview s) ws" "disksize t = disksize s" "bio.more t = bio.more s"
    "holds_buf t = holds_buf s" "pins t \<subseteq> pins s"
    "\<And>b. bdirty t b \<longleftrightarrow> bdirty s b \<and> b \<notin> fst ` set ws"
  using assms by (auto simp: wrote_def)

lemma write_log_from_wrote:
  assumes "bio_inv s" "log_dev s = 1" "write_log_from k bs s = Some t"
    and "set bs \<inter> set (log_blocks (log_start s) k (length bs)) = {}"
  shows "wrote (zip (log_blocks (log_start s) k (length bs)) (map (bview s) bs)) s t"
  using assms
proof (induction bs arbitrary: k s)
  case Nil
  then show ?case by (simp add: wrote_refl)
next
  case (Cons b bs)
  let ?L = "log_start s + of_nat k + 1"
  from Cons.prems(2,3) obtain a s1 c s2 s3 s4 s5 where
    r: "bread 1 ?L s = Some (a, s1)" "bread (log_dev s1) b s1 = Some (c, s2)"
      "bwrite a (set_data a (b_data (buf_at s2 c)) s2) = Some s3" "brelse c s3 = Some s4"
      "brelse a s4 = Some s5" "write_log_from (Suc k) bs s5 = Some t"
    by (auto simp: bind_eq_Some_conv Let_def)
  have d1: "log_dev s1 = 1"
    using more_log(1) [OF bread_read(7) [OF Cons.prems(1) r(1)]] Cons.prems(2) by simp
  have w1: "wrote [(?L, bview s b)] s s5"
    using copy_dst_first(1) [OF Cons.prems(1) r(1) _ r(3-5)] r(2) d1 by simp
  note f = wrote_frame [OF w1] and m = more_log [OF wrote_frame(6) [OF w1]]
  have "?L \<notin> set (b # bs)" using Cons.prems(4) by (auto simp: log_blocks_Suc)
  then have v: "map (bview s5) bs = map (bview s) bs" by (auto simp: f(4))
  have "wrote (zip (log_blocks (log_start s5) (Suc k) (length bs)) (map (bview s5) bs)) s5 t"
    using Cons.prems(2,4) m by (intro Cons.IH [OF f(1) _ r(6)]) (auto simp: log_blocks_Suc)
  then show ?case
    using wrote_trans [OF w1] v m by (simp add: log_blocks_Suc)
qed

lemma install_trans_from_wrote:
  assumes "bio_inv s" "log_dev s = 1" "install_trans_from k bs s = Some t"
    and "set bs \<inter> set (log_blocks (log_start s) k (length bs)) = {}"
  shows "wrote (zip bs (map (bview s) (log_blocks (log_start s) k (length bs)))) s t"
  using assms
proof (induction bs arbitrary: k s)
  case Nil
  then show ?case by (simp add: wrote_refl)
next
  case (Cons b bs)
  let ?L = "log_start s + of_nat k + 1"
  from Cons.prems(2,3) obtain c s1 a s2 s3 s4 s5 where
    r: "bread 1 ?L s = Some (c, s1)" "bread (log_dev s1) b s1 = Some (a, s2)"
      "bwrite a (set_data a (b_data (buf_at s2 c)) s2) = Some s3" "brelse c s3 = Some s4"
      "brelse a s4 = Some s5" "install_trans_from (Suc k) bs s5 = Some t"
    by (auto simp: bind_eq_Some_conv Let_def)
  have d1: "log_dev s1 = 1"
    using more_log(1) [OF bread_read(7) [OF Cons.prems(1) r(1)]] Cons.prems(2) by simp
  have w1: "wrote [(b, bview s ?L)] s s5"
    using copy_src_first(1) [OF Cons.prems(1) r(1) _ r(3-5)] r(2) d1 by simp
  note f = wrote_frame [OF w1] and m = more_log [OF wrote_frame(6) [OF w1]]
  have "b \<notin> set (log_blocks (log_start s) (Suc k) (length bs))"
    using Cons.prems(4) by (auto simp: log_blocks_Suc)
  then have v: "map (bview s5) (log_blocks (log_start s) (Suc k) (length bs)) =
      map (bview s) (log_blocks (log_start s) (Suc k) (length bs))"
    by (auto simp: f(4))
  have "wrote (zip bs (map (bview s5) (log_blocks (log_start s5) (Suc k) (length bs)))) s5 t"
    using Cons.prems(2,4) m by (intro Cons.IH [OF f(1) _ r(6)]) (auto simp: log_blocks_Suc)
  then show ?case
    using wrote_trans [OF w1] v m by (simp add: log_blocks_Suc)
qed

lemma length_encode_head:
  "length bs \<le> LOGSIZE \<Longrightarrow> length blk = BSIZE \<Longrightarrow> length (encode_head bs blk) = BSIZE"
  by (simp add: encode_head_def length_concat comp_def sum_list_triv)

lemma sint_of_nat_small: "n < 2 ^ 31 \<Longrightarrow> sint (of_nat n :: u32) = int n"
  by (simp add: signed_of_nat signed_take_bit_int_eq_self)

lemma sint_le_unat: "sint (x :: u32) \<le> int (unat x)"
  using order_trans [of "- 2147483648" 0 "uint x"] by (simp add: sint_uint signed_take_bit_int_less_eq_self_iff)

lemma decode_encode_head:
  assumes "length bs \<le> LOGSIZE" "length blk = BSIZE"
  shows "decode_head (encode_head bs blk) = Some bs"
proof -
  let ?rest = "drop (4 + 4 * length bs) blk"
  have eq: "encode_head bs blk = le32 (of_nat (length bs)) @ (concat (map le32 bs) @ ?rest)"
    by (simp add: encode_head_def blit_def length_concat comp_def sum_list_triv mult.commute)
  have "get32 0 (encode_head bs blk) = of_nat (length bs)" unfolding eq by (rule get32_le32)
  then have n: "sint (get32 0 (encode_head bs blk)) = int (length bs)"
    using assms sint_of_nat_small [of "length bs"] by simp
  have "get32 (4 + 4 * i) (encode_head bs blk) = bs ! i" if "i < length bs" for i
    unfolding eq using get32_concat_le32 [OF that, of ?rest] by (simp add: get32_append2)
  then have "map (\<lambda>i. get32 (4 + 4 * i) (encode_head bs blk)) [0..<length bs] = bs"
    by (intro nth_equalityI) auto
  then show ?thesis using assms n by (simp add: decode_head_def)
qed

lemma write_head_wrote:
  assumes inv: "bio_inv s" and dev: "log_dev s = 1" and n: "length (lh s) \<le> LOGSIZE"
    and w: "write_head s = Some t"
  shows "wrote [(log_start s, encode_head (lh s) (bview s (log_start s)))] s t"
proof -
  let ?S = "log_start s"
  from w dev obtain i s1 s2 where
    r: "bread 1 ?S s = Some (i, s1)" "bwrite i (set_data i (encode_head (lh s1) (b_data (buf_at s1 i))) s1) = Some s2"
      "brelse i s2 = Some t"
    by (auto simp: write_head_def bind_eq_Some_conv Let_def)
  note 1 = bread_read [OF inv r(1)]
  let ?x = "encode_head (lh s1) (b_data (buf_at s1 i))"
  have x: "?x = encode_head (lh s) (bview s ?S)" using 1(13) more_log(4) [OF 1(7)] by simp
  have len: "length ?x = BSIZE" unfolding x by (rule length_encode_head [OF n length_bview [OF inv]])
  note 2 = set_data_post [OF 1(1,2) len]
  have h2: "holds_buf (set_data i ?x s1) i ?S" using 1 2 by simp
  note 3 = bwrite_write [OF 2(1) h2 r(2)]
  have h3: "holds_buf s2 i ?S" "bdirty s2 ?S \<or> bview s2 ?S = memdisk s2 ?S" using 2 3 h2 by auto
  note 4 = brelse_release [OF 3(1) h3 r(3)]
  have "holds_buf t j c \<longleftrightarrow> holds_buf s j c" for j c
    using 1(10) [of j c] 1(11) [of j c] 2(9) 3(9) 4(9) [of j c] by auto
  then have "holds_buf t = holds_buf s" by (simp add: fun_eq_iff)
  moreover have "pins t \<subseteq> pins s" using 1(9) 2(8) 3(7,8) 4(8) 2(7) by auto
  ultimately show ?thesis unfolding x [symmetric]
    using 1(3-8) 2(2-7) 3(2-7) 4(1-7) by (auto simp: wrote_def)
qed

lemma write_head_returns:
  assumes inv: "bio_inv s" and dev: "log_dev s = 1" and n: "length (lh s) \<le> LOGSIZE"
    and b: "log_start s < disksize s" "\<not> held s (log_start s)" and room: "card (pins s) < NBUF"
  shows "\<exists>t. write_head s = Some t"
proof -
  let ?S = "log_start s" and ?x = "encode_head (lh s) (bview s (log_start s))"
  have len: "length ?x = BSIZE" by (rule length_encode_head [OF n length_bview [OF inv]])
  obtain i s1 s2 t where r: "bread 1 ?S s = Some (i, s1)" "bwrite i (set_data i ?x s1) = Some s2"
    "brelse i s2 = Some t"
    by (rule bwrite_cycle_runs [OF inv b card_pins_room [OF room] len])
  have "lh s1 = lh s" "b_data (buf_at s1 i) = bview s ?S"
    using bread_read [OF inv r(1)] by (auto dest: more_log(4))
  then show ?thesis using r dev by (simp add: write_head_def)
qed

lemma read_head_read:
  assumes inv: "bio_inv s" and dev: "log_dev s = 1" and r: "read_head s = Some t"
  shows "decode_head (bview s (log_start s)) = Some (lh t)" "wrote [] (s\<lparr>lh := lh t\<rparr>) t"
proof -
  let ?S = "log_start s"
  from r dev obtain i s1 bs where
    r: "bread 1 ?S s = Some (i, s1)" "decode_head (b_data (buf_at s1 i)) = Some bs"
      "brelse i (s1\<lparr>lh := bs\<rparr>) = Some t"
    by (auto simp: read_head_def bind_eq_Some_conv Let_def)
  note 1 = bread_read [OF inv r(1)]
  let ?u = "s1\<lparr>lh := bs\<rparr>"
  have h: "bio_inv ?u" "holds_buf ?u i ?S" "bdirty ?u ?S \<or> bview ?u ?S = memdisk ?u ?S" using 1 by auto
  note 4 = brelse_release [OF h r(3)]
  have l: "lh t = bs" using more_log(4) [OF 4(6)] by simp
  show "decode_head (bview s ?S) = Some (lh t)" using r(2) 1(13) l by simp
  have "holds_buf t j c \<longleftrightarrow> holds_buf s j c" for j c
    using 1(10) [of j c] 1(11) [of j c] 4(9) [of j c] by auto
  then have "holds_buf t = holds_buf s" by (simp add: fun_eq_iff)
  moreover have "pins t \<subseteq> pins s" using 1(8,9,14) 4(8) by auto
  moreover have "bio.more t = bio.more (s\<lparr>lh := bs\<rparr>)" using 4(6) more_upd_lh [OF 1(7), of bs] by simp
  ultimately show "wrote [] (s\<lparr>lh := lh t\<rparr>) t"
    unfolding l using 1(3-8) 4(1-7) by (auto simp: wrote_def)
qed

section \<open>Commit and recovery\<close>

text \<open>
  The log occupies \<^verbatim>\<open>size\<close> blocks from \<^verbatim>\<open>start\<close>. The header lists distinct blocks outside the
  log that fit into it, and these are the blocks with a dirty buffer. Between the steps of
  operations no buffer is held.
\<close>

definition log_region :: "'a logst_scheme \<Rightarrow> u32 set" where
  "log_region s = (\<lambda>k. log_start s + of_nat k) ` {k. k < unat (log_size s)}"

definition log_inv :: "'a logst_scheme \<Rightarrow> bool" where
  "log_inv s \<longleftrightarrow> bio_inv s \<and> log_dev s = 1 \<and> length (lh s) \<le> LOGSIZE \<and> length (lh s) < unat (log_size s) \<and>
     distinct (lh s) \<and> set (lh s) \<inter> log_region s = {} \<and> (\<forall>b. bdirty s b \<longleftrightarrow> b \<in> set (lh s))"

definition log_ok :: "'a logst_scheme \<Rightarrow> bool" where
  "log_ok s \<longleftrightarrow> log_inv s \<and> (\<forall>i b. \<not> holds_buf s i b)"

lemma log_okD:
  assumes "log_ok s"
  shows "bio_inv s" "log_dev s = 1" "length (lh s) \<le> LOGSIZE" "length (lh s) < unat (log_size s)"
    "distinct (lh s)" "set (lh s) \<inter> log_region s = {}" "\<And>b. bdirty s b \<longleftrightarrow> b \<in> set (lh s)"
    "\<And>i b. \<not> holds_buf s i b" "\<And>b. \<not> held s b"
  using assms held_iff [of s] by (auto simp: log_ok_def log_inv_def)

lemma bview_clean:
  assumes inv: "bio_inv s" and "\<not> held s b" and "\<not> bdirty s b"
  shows "bview s b = memdisk s b"
proof (cases "cached s b")
  case None
  then show ?thesis by (simp add: bview_def)
next
  case (Some i)
  note c = cached_SomeD [OF inv Some]
  then have "\<not> b_locked (buf_at s i)" "\<not> b_dirty (buf_at s i)"
    using assms by (auto simp: held_def bdirty_def)
  then show ?thesis using bio_clean [OF inv c(1,2,4)] c Some by (simp add: bview_def)
qed

lemma log_blocks_region:
  assumes "n < unat (log_size s)" shows "set (log_blocks (log_start s) 0 n) \<subseteq> log_region s"
proof
  fix b assume "b \<in> set (log_blocks (log_start s) 0 n)"
  then obtain i where i: "i < n" "b = log_start s + of_nat (Suc i)" by (auto simp: log_blocks_def)
  then show "b \<in> log_region s" using assms by (auto simp: log_region_def simp del: of_nat_Suc intro!: imageI)
qed

lemma log_start_region: "0 < unat (log_size s) \<Longrightarrow> log_start s \<in> log_region s"
  unfolding log_region_def by (rule image_eqI [of _ _ 0]) auto

lemma of_nat_u32_inj: "(of_nat i :: u32) = of_nat j \<Longrightarrow> i < 2 ^ 32 \<Longrightarrow> j < 2 ^ 32 \<Longrightarrow> i = j"
proof -
  assume "(of_nat i :: u32) = of_nat j" and b: "i < 2 ^ 32" "j < 2 ^ 32"
  then have "unat (of_nat i :: u32) = unat (of_nat j :: u32)" by simp
  then show "i = j" using b by (simp add: unat_of_nat)
qed

lemma log_blocks_distinct:
  assumes "n < 2 ^ 32"
  shows "distinct (log_blocks start 0 n)" "start \<notin> set (log_blocks start 0 n)"
proof -
  show "distinct (log_blocks start 0 n)"
    using assms by (auto simp: log_blocks_def distinct_map inj_on_def dest!: of_nat_u32_inj)
  have "(of_nat (Suc i) :: u32) \<noteq> of_nat 0" if "i < n" for i
    using of_nat_u32_inj [of "Suc i" 0] that assms by auto
  then show "start \<notin> set (log_blocks start 0 n)" by (auto simp: log_blocks_def add.commute)
qed

definition commit_writes :: "'a logst_scheme \<Rightarrow> (u32 \<times> block) list" where
  "commit_writes s =
     (let S = log_start s; hdr = encode_head (lh s) (bview s S) in
      zip (log_blocks S 0 (length (lh s))) (map (bview s) (lh s)) @ [(S, hdr)] @
      zip (lh s) (map (bview s) (lh s)) @ [(S, encode_head [] hdr)])"

lemma commit_wrote:
  assumes ok: "log_ok s" and ne: "lh s \<noteq> []" and c: "commit s = Some t"
  shows "wrote (commit_writes s) (s\<lparr>lh := []\<rparr>) t"
proof -
  let ?n = "length (lh s)" and ?S = "log_start s"
  let ?L = "log_blocks ?S 0 ?n" and ?V = "map (bview s) (lh s)"
  let ?hdr = "encode_head (lh s) (bview s ?S)"
  have inv: "bio_inv s" and dev: "log_dev s = 1" and n: "?n \<le> LOGSIZE" "?n < unat (log_size s)"
    and dist: "distinct (lh s)" and reg: "set (lh s) \<inter> log_region s = {}"
    using log_okD [OF ok] by auto
  have L: "set (lh s) \<inter> set ?L = {}" "?S \<notin> set (lh s)"
    using reg log_blocks_region [OF n(2)] log_start_region [of s] n by auto
  have D: "distinct ?L" "?S \<notin> set ?L" using log_blocks_distinct [of ?n ?S] n by auto
  from c ne obtain s1 s2 s3 where
    r: "write_log s = Some s1" "write_head s1 = Some s2" "install_trans s2 = Some s3"
      "write_head (s3\<lparr>lh := []\<rparr>) = Some t"
    by (auto simp: commit_def bind_eq_Some_conv)
  have w1: "wrote (zip ?L ?V) s s1"
    using write_log_from_wrote [OF inv dev, of 0 "lh s" s1] r(1) L by (simp add: write_log_def)
  note f1 = wrote_frame [OF w1] and m1 = more_log [OF wrote_frame(6) [OF w1]]
  have "bview s1 ?S = bview s ?S" unfolding f1(4)
    by (rule apply_writes_other) (use D in \<open>auto dest: set_zip_leftD\<close>)
  then have w2: "wrote [(?S, ?hdr)] s1 s2"
    using write_head_wrote [OF f1(1) _ _ r(2)] m1 dev n by simp
  note f2 = wrote_frame [OF w2] and m2 = more_log [OF wrote_frame(6) [OF w2]]
  have v2: "bview s2 (?L ! i) = ?V ! i" if "i < ?n" for i
  proof -
    have "?L ! i \<noteq> ?S" using D that by (metis length_log_blocks nth_mem)
    moreover have "(?L ! i, ?V ! i) \<in> set (zip ?L ?V)" using that by (auto simp: in_set_zip)
    then have "apply_writes (bview s) (zip ?L ?V) (?L ! i) = ?V ! i"
      using D by (intro apply_writes_same) simp_all
    ultimately show ?thesis by (simp add: f2(4) f1(4))
  qed
  then have "map (bview s2) ?L = ?V" by (intro nth_equalityI) auto
  moreover have "wrote (zip (lh s) (map (bview s2) ?L)) s2 s3"
    using install_trans_from_wrote [OF f2(1), of 0 "lh s" s3] r(3) L dev m1 m2
    by (simp add: install_trans_def)
  ultimately have w3: "wrote (zip (lh s) ?V) s2 s3" by simp
  note f3 = wrote_frame [OF w3] and m3 = more_log [OF wrote_frame(6) [OF w3]]
  have "bview s3 ?S = ?hdr" unfolding f3(4)
    by (subst apply_writes_other) (use L in \<open>auto dest: set_zip_leftD simp: f2(4)\<close>)
  then have w4: "wrote [(?S, encode_head [] ?hdr)] (s3\<lparr>lh := []\<rparr>) t"
    using write_head_wrote [of "s3\<lparr>lh := []\<rparr>" t] r(4) f3(1) m1 m2 m3 dev by simp
  have "wrote (zip ?L ?V @ [(?S, ?hdr)] @ zip (lh s) ?V) (s\<lparr>lh := []\<rparr>) (s3\<lparr>lh := []\<rparr>)"
    using wrote_upd_lh [OF wrote_trans [OF w1 wrote_trans [OF w2 w3]]] by simp
  from wrote_trans [OF this w4] show ?thesis by (simp add: commit_writes_def Let_def)
qed

text \<open>
  Recovery installs the blocks that the header on disk lists, then clears the header.
\<close>

lemma recover_wrote:
  assumes inv: "bio_inv s" and dev: "log_dev s = 1" and rc: "recover_from_log s = Some t"
    and hs: "decode_head (bview s (log_start s)) = Some hs"
    and dis: "set hs \<inter> set (log_blocks (log_start s) 0 (length hs)) = {}" "log_start s \<notin> set hs"
  shows "wrote (zip hs (map (bview s) (log_blocks (log_start s) 0 (length hs))) @
      [(log_start s, encode_head [] (bview s (log_start s)))]) (s\<lparr>lh := []\<rparr>) t"
proof -
  let ?S = "log_start s" and ?L = "log_blocks (log_start s) 0 (length hs)"
  from rc obtain s1 s2 where
    r: "read_head s = Some s1" "install_trans s1 = Some s2" "write_head (s2\<lparr>lh := []\<rparr>) = Some t"
    by (auto simp: recover_from_log_def bind_eq_Some_conv)
  note h = read_head_read [OF inv dev r(1)]
  have l1: "lh s1 = hs" using h(1) hs by simp
  have w1: "wrote [] (s\<lparr>lh := hs\<rparr>) s1" using h(2) l1 by simp
  note f1 = wrote_frame [OF w1] and m1 = more_log [OF wrote_frame(6) [OF w1]]
  have w2: "wrote (zip hs (map (bview s) ?L)) s1 s2"
    using install_trans_from_wrote [OF f1(1), of 0 hs s2] r(2) l1 dis dev m1 f1(4)
    by (simp add: install_trans_def)
  note f2 = wrote_frame [OF w2] and m2 = more_log [OF wrote_frame(6) [OF w2]]
  have "bview s2 ?S = bview s ?S" unfolding f2(4)
    by (subst apply_writes_other) (use dis f1(4) in \<open>auto dest: set_zip_leftD\<close>)
  then have w3: "wrote [(?S, encode_head [] (bview s ?S))] (s2\<lparr>lh := []\<rparr>) t"
    using write_head_wrote [of "s2\<lparr>lh := []\<rparr>" t] r(3) f2(1) m1 m2 dev by simp
  have "wrote (zip hs (map (bview s) ?L)) (s\<lparr>lh := []\<rparr>) (s2\<lparr>lh := []\<rparr>)"
    using wrote_upd_lh [OF wrote_trans [OF w1 w2], of "[]"] by simp
  from wrote_trans [OF this w3] show ?thesis by simp
qed

lemma peek_wrote:
  assumes inv: "bio_inv s" and r: "bread 1 b s = Some (i, s1)" "brelse i s1 = Some t"
  shows "wrote [] s t" "b_data (buf_at s1 i) = bview s b"
proof -
  note 1 = bread_read [OF inv r(1)]
  show "b_data (buf_at s1 i) = bview s b" by (rule 1(13))
  have "bdirty s1 b \<or> bview s1 b = memdisk s1 b" using 1 by auto
  note 4 = brelse_release [OF 1(1,2) this r(2)]
  have "holds_buf t j c \<longleftrightarrow> holds_buf s j c" for j c
    using 1(10) [of j c] 1(11) [of j c] 4(9) [of j c] by auto
  then have "holds_buf t = holds_buf s" by (simp add: fun_eq_iff)
  moreover have "pins t \<subseteq> pins s" using 1(8,9,14) 4(8) by auto
  ultimately show "wrote [] s t" using 1(3-8) 4(1-7) by (auto simp: wrote_def)
qed

lemma readsb_read:
  assumes inv: "bio_inv s" and r: "readsb 1 s = Some (sb, t)"
  shows "sb = decode_sb (bview s 1)" "wrote [] s t"
proof -
  from r obtain i s1 where rr: "bread 1 1 s = Some (i, s1)" "sb = decode_sb (b_data (buf_at s1 i))"
    "brelse i s1 = Some t"
    by (auto simp: readsb_def bind_eq_Some_conv Let_def)
  show "sb = decode_sb (bview s 1)" "wrote [] s t"
    using peek_wrote [OF inv rr(1,3)] rr(2) by simp_all
qed

text \<open>What a mount of the disk \<open>d\<close> after a restart leaves on the disk.\<close>

definition recovery_writes :: "(u32 \<Rightarrow> block) \<Rightarrow> u32 \<Rightarrow> u32 list \<Rightarrow> (u32 \<times> block) list" where
  "recovery_writes d S hs = zip hs (map d (log_blocks S 0 (length hs))) @ [(S, encode_head [] (d S))]"

abbreviation log_mounted :: "superblock \<Rightarrow> 'a logst_scheme \<Rightarrow> 'a logst_scheme" where
  "log_mounted sb u \<equiv> u\<lparr>log_start := sb_logstart sb, log_size := sb_nlog sb, log_dev := 1, lh := []\<rparr>"

lemma more_mounted: "bio.more t = bio.more u \<Longrightarrow> bio.more (log_mounted sb t) = bio.more (log_mounted sb u)"
  by (cases t; cases u) simp

lemma initlog_wrote:
  assumes inv: "bio_inv u" and d: "bview u = d" and i: "initlog 1 u = Some r"
    and S: "S = sb_logstart (decode_sb (d 1))" and hs: "decode_head (d S) = Some hs"
    and dis: "set hs \<inter> set (log_blocks S 0 (length hs)) = {}" "S \<notin> set hs"
  shows "wrote (recovery_writes d S hs) (log_mounted (decode_sb (d 1)) u) r"
proof -
  from i obtain sb u1 where r1: "readsb 1 u = Some (sb, u1)"
    and r2: "recover_from_log (u1\<lparr>log_start := sb_logstart sb, log_size := sb_nlog sb, log_dev := 1\<rparr>) = Some r"
    by (auto simp: initlog_def bind_eq_Some_conv)
  note sb = readsb_read [OF inv r1]
  note f = wrote_frame [OF sb(2)]
  have v: "bview u1 = d" and sb1: "sb = decode_sb (d 1)" using f sb(1) d by simp_all
  have w2: "wrote (recovery_writes d S hs) (log_mounted sb u1) r"
    using recover_wrote [OF _ _ r2, of hs] f(1) S hs dis v sb1 by (simp add: recovery_writes_def)
  have w1: "wrote [] (log_mounted sb u) (log_mounted sb u1)"
    using f(1-5,7-9) more_mounted [OF f(6), of sb] by (simp add: wrote_def)
  show ?thesis using wrote_trans [OF w1 w2] sb1 by simp
qed

lemma initlog_disk:
  assumes "bio_inv u" and "memdisk u = d" "bview u = d" and "initlog 1 u = Some r"
    and "S = sb_logstart (decode_sb (d 1))" and "decode_head (d S) = Some hs"
    and "set hs \<inter> set (log_blocks S 0 (length hs)) = {}" "S \<notin> set hs"
  shows "memdisk r = apply_writes d (recovery_writes d S hs)"
  using wrote_frame(2) [OF initlog_wrote [OF assms(1,3-8)]] assms(2) by simp

text \<open>
  The disk after a prefix of the writes of a commit, in the three phases: before the header is
  written, from there to the second header write, and after it.
\<close>

lemma apply_zip_take_other:
  "b \<notin> set xs \<Longrightarrow> apply_writes d (take k (zip xs ys)) b = d b"
  by (rule apply_writes_other) (auto dest!: in_set_takeD set_zip_leftD)

lemma apply_zip_other: "b \<notin> set xs \<Longrightarrow> apply_writes d (zip xs ys) b = d b"
  by (rule apply_writes_other) (auto dest!: set_zip_leftD)

lemma apply_zip_nth:
  assumes "distinct xs" "length xs = length ys" "i < length xs"
  shows "apply_writes d (zip xs ys) (xs ! i) = ys ! i"
  using assms by (intro apply_writes_same) (auto simp: in_set_zip)

lemma apply_zip_map:
  assumes "distinct xs" "b \<in> set xs"
  shows "apply_writes d (zip xs (map f xs)) b = f b"
  using assms apply_zip_nth [of xs "map f xs" _ d] by (auto simp: in_set_conv_nth)

lemma take_append3:
  "take k (A @ [h] @ B) = (if k \<le> length A then take k A else A @ [h] @ take (k - length A - 1) B)"
  by (auto simp: not_le take_Cons' Suc_diff_Suc)

text \<open>
  The crash argument itself, on plain disks: \<open>m\<close> is the disk when the commit starts,
  \<open>v\<close> the new contents of the listed blocks.
\<close>

lemma crash_disk:
  fixes m v :: "u32 \<Rightarrow> block" and k :: nat
  assumes n: "length hs \<le> LOGSIZE" and dist: "distinct hs" and hdr: "length (v S) = BSIZE"
    and emp: "decode_head (m S) = Some []"
    and dis: "set hs \<inter> set (log_blocks S 0 (length hs)) = {}" "S \<notin> set hs"
  defines "L \<equiv> log_blocks S 0 (length hs)"
  defines "h1 \<equiv> encode_head hs (v S)"
  defines "ws \<equiv> zip L (map v hs) @ [(S, h1)] @ zip hs (map v hs) @ [(S, encode_head [] h1)]"
  defines "d \<equiv> apply_writes m (take k ws)"
  shows "(decode_head (d S) = Some [] \<and> ((\<forall>b. b \<notin> set L \<longrightarrow> b \<noteq> S \<longrightarrow> d b = m b) \<or>
            (\<forall>b. b \<notin> set L \<longrightarrow> b \<noteq> S \<longrightarrow> d b = (if b \<in> set hs then v b else m b))))
    \<or> (decode_head (d S) = Some hs \<and> map d L = map v hs \<and>
         (\<forall>b. b \<notin> set L \<longrightarrow> b \<noteq> S \<longrightarrow> b \<notin> set hs \<longrightarrow> d b = m b))"
proof -
  let ?n = "length hs" and ?A = "zip L (map v hs)" and ?B = "zip hs (map v hs)"
  have lL: "length L = ?n" by (simp add: L_def)
  have D: "distinct L" "S \<notin> set L"
    using log_blocks_distinct [of ?n S] n by (auto simp: L_def)
  have dec1: "decode_head h1 = Some hs" unfolding h1_def by (rule decode_encode_head [OF n hdr])
  have dec0: "decode_head (encode_head [] h1) = Some []"
    using n hdr by (intro decode_encode_head) (auto simp: h1_def intro: length_encode_head)
  have tk: "take k ws = (if k \<le> ?n then take k ?A
      else ?A @ [(S, h1)] @ take (k - ?n - 1) (?B @ [(S, encode_head [] h1)]))"
    using take_append3 [of k ?A "(S, h1)" "?B @ [(S, encode_head [] h1)]"] lL by (simp add: ws_def)
  consider "k \<le> ?n" | "?n < k" "k \<le> 2 * ?n + 1" | "2 * ?n + 1 < k" by linarith
  then show ?thesis
  proof cases
    case 1
    then have d: "d = apply_writes m (take k ?A)" by (simp add: d_def tk)
    have "d b = m b" if "b \<notin> set L" for b unfolding d by (rule apply_zip_take_other [OF that])
    then show ?thesis using D emp by simp
  next
    case 2
    let ?j = "k - ?n - 1"
    have d: "d = apply_writes ((apply_writes m ?A)(S := h1)) (take ?j ?B)"
      using 2 by (simp add: d_def tk apply_writes_append)
    have "d S = h1" unfolding d by (subst apply_zip_take_other) (use dis in auto)
    moreover have "map d L = map v hs"
    proof (rule nth_equalityI)
      fix i assume "i < length (map d L)"
      then have i: "i < ?n" "i < length L" by (simp_all add: lL)
      have "L ! i \<in> set L" by (rule nth_mem [OF i(2)])
      then have "L ! i \<notin> set hs" "L ! i \<noteq> S" using dis D by (auto simp: L_def)
      then have "d (L ! i) = apply_writes m ?A (L ! i)" unfolding d by (subst apply_zip_take_other) auto
      then show "map d L ! i = map v hs ! i" using apply_zip_nth [OF D(1), of "map v hs" i m] i lL by simp
    qed (simp add: lL)
    moreover have "d b = m b" if "b \<notin> set L" "b \<noteq> S" "b \<notin> set hs" for b
      unfolding d using that by (simp add: apply_zip_take_other apply_zip_other)
    ultimately show ?thesis using dec1 by auto
  next
    case 3
    have d: "d = (apply_writes ((apply_writes m ?A)(S := h1)) ?B)(S := encode_head [] h1)"
      using 3 by (simp add: d_def tk apply_writes_append take_all_iff)
    have "d b = (if b \<in> set hs then v b else m b)" if "b \<notin> set L" "b \<noteq> S" for b
    proof (cases "b \<in> set hs")
      case True
      then show ?thesis using that apply_zip_map [OF dist True] by (simp add: d)
    next
      case False
      then show ?thesis using that by (simp add: d apply_zip_other)
    qed
    then show ?thesis using dec0 by (auto simp: d)
  qed
qed

lemma initlog_disk_outside:
  assumes inv: "bio_inv u" and d: "memdisk u = d" "bview u = d" and i: "initlog 1 u = Some r"
    and S: "S = sb_logstart (decode_sb (d 1))" and hs: "decode_head (d S) = Some hs"
    and dis: "set hs \<inter> set (log_blocks S 0 (length hs)) = {}" "S \<notin> set hs" "distinct hs"
  shows "b \<noteq> S \<Longrightarrow> b \<notin> set hs \<Longrightarrow> memdisk r b = d b"
    and "map (memdisk r) hs = map d (log_blocks S 0 (length hs))"
proof -
  let ?V = "map d (log_blocks S 0 (length hs))"
  have r: "memdisk r b = apply_writes d (zip hs ?V) b" if "b \<noteq> S" for b
    using initlog_disk [OF inv d i S hs dis(1,2)] that by (simp add: recovery_writes_def apply_writes_append)
  show "b \<noteq> S \<Longrightarrow> b \<notin> set hs \<Longrightarrow> memdisk r b = d b" using r [of b] by (simp add: apply_zip_other)
  show "map (memdisk r) hs = ?V"
  proof (rule nth_equalityI)
    fix k assume k: "k < length (map (memdisk r) hs)"
    then have "hs ! k \<in> set hs" by simp
    then have "hs ! k \<noteq> S" using dis by auto
    then show "map (memdisk r) hs ! k = ?V ! k"
      using r [of "hs ! k"] apply_zip_nth [OF dis(3), of ?V k d] k by simp
  qed simp
qed

text \<open>
  The same argument for \<^verbatim>\<open>commit\<close>: after any prefix of its writes the header on disk is empty, with
  the other blocks all old or all new, or it lists the blocks of the transaction and the log
  has their new contents.
\<close>

lemma commit_crash_disk:
  assumes ok: "log_ok s" and ne: "lh s \<noteq> []" and c: "commit s = Some t"
    and emp: "decode_head (memdisk s (log_start s)) = Some []"
    and d: "d = apply_writes (memdisk s) (take k (drop (length (dhist s)) (dhist t)))"
  obtains
    (old) "decode_head (d (log_start s)) = Some []" "\<And>b. b \<notin> log_region s \<Longrightarrow> d b = memdisk s b"
  | (new) "decode_head (d (log_start s)) = Some []" "\<And>b. b \<notin> log_region s \<Longrightarrow> d b = bview s b"
  | (logged) "decode_head (d (log_start s)) = Some (lh s)"
      "map d (log_blocks (log_start s) 0 (length (lh s))) = map (bview s) (lh s)"
      "\<And>b. b \<notin> log_region s \<Longrightarrow> b \<notin> set (lh s) \<Longrightarrow> d b = bview s b"
proof -
  let ?S = "log_start s" and ?hs = "lh s" and ?m = "memdisk s" and ?v = "bview s"
  let ?L = "log_blocks ?S 0 (length ?hs)"
  note okD = log_okD [OF ok]
  have SR: "?S \<in> log_region s" using log_start_region [of s] okD(4) by simp
  have LR: "set ?L \<subseteq> log_region s" by (rule log_blocks_region [OF okD(4)])
  have dis: "set ?hs \<inter> set ?L = {}" "?S \<notin> set ?hs" using okD(6) SR LR by auto
  have outR: "b \<noteq> ?S" "b \<notin> set ?L" if "b \<notin> log_region s" for b using that SR LR by auto
  have clean: "?v b = ?m b" if "b \<notin> set ?hs" for b
    by (rule bview_clean [OF okD(1,9)]) (use that okD(7) in auto)
  have ws: "drop (length (dhist s)) (dhist t) = commit_writes s"
    using wrote_frame(3) [OF commit_wrote [OF ok ne c]] by simp
  have d: "d = apply_writes ?m (take k (zip ?L (map ?v ?hs) @ [(?S, encode_head ?hs (?v ?S))] @
      zip ?hs (map ?v ?hs) @ [(?S, encode_head [] (encode_head ?hs (?v ?S)))]))"
    using d ws by (simp add: commit_writes_def Let_def)
  note cr = crash_disk [where v = ?v and m = ?m and k = k, OF okD(3,5) length_bview [OF okD(1)] emp dis, folded d]
  then show thesis using clean outR that by metis
qed

lemma initlog_after_crash:
  assumes ok: "log_ok s" and hs: "decode_head (d (log_start s)) = Some hs" "hs = [] \<or> hs = lh s"
    and sb: "sb_logstart (decode_sb (d 1)) = log_start s"
    and u: "bio_inv u" "memdisk u = d" "bview u = d" "initlog 1 u = Some r" and b: "b \<notin> log_region s"
  shows "b \<notin> set hs \<Longrightarrow> memdisk r b = d b"
    and "map d (log_blocks (log_start s) 0 (length hs)) = map f hs \<Longrightarrow> b \<in> set hs \<Longrightarrow> memdisk r b = f b"
proof -
  note okD = log_okD [OF ok]
  have R: "log_start s \<in> log_region s" "set (log_blocks (log_start s) 0 (length hs)) \<subseteq> log_region s"
    using log_start_region [of s] log_blocks_region [of "length hs" s] okD(4) hs(2) by auto
  have dis: "set hs \<inter> set (log_blocks (log_start s) 0 (length hs)) = {}" "log_start s \<notin> set hs" "distinct hs"
    using okD(5,6) R hs(2) by auto
  note o = initlog_disk_outside [OF u sb [symmetric] hs(1) dis]
  show "b \<notin> set hs \<Longrightarrow> memdisk r b = d b" using o(1) [of b] b R by auto
  assume "map d (log_blocks (log_start s) 0 (length hs)) = map f hs" "b \<in> set hs"
  then have "map (memdisk r) hs = map f hs" using o(2) by simp
  then show "memdisk r b = f b" using \<open>b \<in> set hs\<close> by simp
qed

section \<open>Commit and recovery return\<close>

lemma copy_dst_first_returns:
  assumes inv: "bio_inv s" and room: "card (pins s) < NBUF" "bdirty s C \<or> card (pins s) + 2 \<le> NBUF"
    and A: "A < disksize s" "\<not> held s A" and C: "C < disksize s" "\<not> held s C" and ne: "A \<noteq> C"
  obtains a s1 c s2 s3 s4 t where "bread 1 A s = Some (a, s1)" "bread 1 C s1 = Some (c, s2)"
    "bwrite a (set_data a (b_data (buf_at s2 c)) s2) = Some s3" "brelse c s3 = Some s4" "brelse a s4 = Some t"
proof -
  obtain a s1 c s2 where r: "bread 1 A s = Some (a, s1)" "bread 1 C s1 = Some (c, s2)"
    by (rule two_breads_return [OF inv room A C ne])
  note 1 = two_breads [OF inv r]
  show thesis
    by (rule copy_tail_returns [OF 1(3,4,5,2,1,14)]) (use 1(9) A that r in auto)
qed

lemma copy_src_first_returns:
  assumes inv: "bio_inv s" and room: "card (pins s) < NBUF" "bdirty s A \<or> card (pins s) + 2 \<le> NBUF"
    and A: "A < disksize s" "\<not> held s A" and C: "C < disksize s" "\<not> held s C" and ne: "C \<noteq> A"
  obtains a s1 c s2 s3 s4 t where "bread 1 C s = Some (c, s1)" "bread 1 A s1 = Some (a, s2)"
    "bwrite a (set_data a (b_data (buf_at s2 c)) s2) = Some s3" "brelse c s3 = Some s4" "brelse a s4 = Some t"
proof -
  obtain a s1 c s2 where r: "bread 1 C s = Some (c, s1)" "bread 1 A s1 = Some (a, s2)"
    by (rule two_breads_return [OF inv room C A ne])
  note 1 = two_breads [OF inv r]
  show thesis
    by (rule copy_tail_returns [OF 1(3,5,4) 1(2) [symmetric] 1(1) [symmetric] 1(13)])
       (use 1(9) A that r in auto)
qed

lemma wrote_room: "wrote ws s t \<Longrightarrow> card (pins t) \<le> card (pins s)"
  by (rule card_mono) (auto simp: wrote_def pins_def)

lemma wrote_held: "wrote ws s t \<Longrightarrow> bio_inv s \<Longrightarrow> held t b \<longleftrightarrow> held s b"
  by (simp add: wrote_def held_iff)

lemma write_log_from_returns:
  assumes "bio_inv s" "log_dev s = 1" "card (pins s) < NBUF"
    and "distinct bs" "(\<forall>b \<in> set bs. bdirty s b) \<or> card (pins s) + 2 \<le> NBUF"
    and "\<And>b. b \<in> set bs \<union> set (log_blocks (log_start s) k (length bs)) \<Longrightarrow> b < disksize s \<and> \<not> held s b"
    and "set bs \<inter> set (log_blocks (log_start s) k (length bs)) = {}"
  shows "\<exists>t. write_log_from k bs s = Some t"
  using assms
proof (induction bs arbitrary: k s)
  case (Cons b bs)
  let ?L = "log_start s + of_nat k + 1"
  have L: "?L < disksize s" "\<not> held s ?L" "b < disksize s" "\<not> held s b" "?L \<noteq> b"
    using Cons.prems(6) [of ?L] Cons.prems(6) [of b] Cons.prems(7) by (auto simp: log_blocks_Suc)
  have room: "bdirty s b \<or> card (pins s) + 2 \<le> NBUF" using Cons.prems(5) by auto
  obtain a s1 c s2 s3 s4 s5 where
    r: "bread 1 ?L s = Some (a, s1)" "bread 1 b s1 = Some (c, s2)"
      "bwrite a (set_data a (b_data (buf_at s2 c)) s2) = Some s3" "brelse c s3 = Some s4"
      "brelse a s4 = Some s5"
    by (rule copy_dst_first_returns [OF Cons.prems(1,3) room L])
  note w = copy_dst_first(1) [OF Cons.prems(1) r]
  note f = wrote_frame [OF w] and m = more_log [OF wrote_frame(6) [OF w]]
  have "\<exists>t. write_log_from (Suc k) bs s5 = Some t"
  proof (rule Cons.IH [OF f(1)])
    fix c
    assume "c \<in> set bs \<union> set (log_blocks (log_start s5) (Suc k) (length bs))"
    then show "c < disksize s5 \<and> \<not> held s5 c"
      using Cons.prems(6) [of c] m f(5) wrote_held [OF w Cons.prems(1)] by (auto simp: log_blocks_Suc)
  next
    show "(\<forall>b \<in> set bs. bdirty s5 b) \<or> card (pins s5) + 2 \<le> NBUF"
      using Cons.prems(4,5,7) f(9) wrote_room [OF w] by (auto simp: log_blocks_Suc)
  qed (use Cons.prems m wrote_room [OF w] in \<open>auto simp: log_blocks_Suc\<close>)
  moreover have "log_dev s1 = 1"
    using more_log(1) [OF bread_read(7) [OF Cons.prems(1) r(1)]] Cons.prems(2) by simp
  ultimately show ?case using r Cons.prems(2) by simp
qed simp

lemma install_trans_from_returns:
  assumes "bio_inv s" "log_dev s = 1" "card (pins s) < NBUF"
    and "distinct bs" "(\<forall>b \<in> set bs. bdirty s b) \<or> card (pins s) + 2 \<le> NBUF"
    and "\<And>b. b \<in> set bs \<union> set (log_blocks (log_start s) k (length bs)) \<Longrightarrow> b < disksize s \<and> \<not> held s b"
    and "set bs \<inter> set (log_blocks (log_start s) k (length bs)) = {}"
  shows "\<exists>t. install_trans_from k bs s = Some t"
  using assms
proof (induction bs arbitrary: k s)
  case (Cons b bs)
  let ?L = "log_start s + of_nat k + 1"
  have L: "b < disksize s" "\<not> held s b" "?L < disksize s" "\<not> held s ?L" "?L \<noteq> b"
    using Cons.prems(6) [of ?L] Cons.prems(6) [of b] Cons.prems(7) by (auto simp: log_blocks_Suc)
  have room: "bdirty s b \<or> card (pins s) + 2 \<le> NBUF" using Cons.prems(5) by auto
  obtain a s1 c s2 s3 s4 s5 where
    r: "bread 1 ?L s = Some (c, s1)" "bread 1 b s1 = Some (a, s2)"
      "bwrite a (set_data a (b_data (buf_at s2 c)) s2) = Some s3" "brelse c s3 = Some s4"
      "brelse a s4 = Some s5"
    by (rule copy_src_first_returns [OF Cons.prems(1,3) room L])
  note w = copy_src_first(1) [OF Cons.prems(1) r]
  note f = wrote_frame [OF w] and m = more_log [OF wrote_frame(6) [OF w]]
  have "\<exists>t. install_trans_from (Suc k) bs s5 = Some t"
  proof (rule Cons.IH [OF f(1)])
    fix c
    assume "c \<in> set bs \<union> set (log_blocks (log_start s5) (Suc k) (length bs))"
    then show "c < disksize s5 \<and> \<not> held s5 c"
      using Cons.prems(6) [of c] m f(5) wrote_held [OF w Cons.prems(1)] by (auto simp: log_blocks_Suc)
  next
    show "(\<forall>b \<in> set bs. bdirty s5 b) \<or> card (pins s5) + 2 \<le> NBUF"
      using Cons.prems(4,5,7) f(9) wrote_room [OF w] by (auto simp: log_blocks_Suc)
  qed (use Cons.prems m wrote_room [OF w] in \<open>auto simp: log_blocks_Suc\<close>)
  moreover have "log_dev s1 = 1"
    using more_log(1) [OF bread_read(7) [OF Cons.prems(1) r(1)]] Cons.prems(2) by simp
  ultimately show ?case using r Cons.prems(2) by simp
qed simp

text \<open>Everything the log touches lies on the disk.\<close>

definition log_on_disk :: "'a logst_scheme \<Rightarrow> bool" where
  "log_on_disk s \<longleftrightarrow> (\<forall>b \<in> set (lh s) \<union> log_region s. b < disksize s)"

lemma commit_returns:
  assumes ok: "log_ok s" and od: "log_on_disk s" and few: "length (lh s) < NBUF"
  shows "\<exists>t. commit s = Some t"
proof (cases "lh s = []")
  case False
  let ?n = "length (lh s)" and ?S = "log_start s"
  let ?L = "log_blocks ?S 0 ?n"
  have inv: "bio_inv s" and dev: "log_dev s = 1" and n: "?n \<le> LOGSIZE" "?n < unat (log_size s)"
    and reg: "set (lh s) \<inter> log_region s = {}" and nh: "\<And>i b. \<not> holds_buf s i b"
    and dist: "distinct (lh s)" and dirty: "\<And>b. bdirty s b \<longleftrightarrow> b \<in> set (lh s)"
    using log_okD [OF ok] by auto
  have LR: "set ?L \<subseteq> log_region s" "?S \<in> log_region s"
    using log_blocks_region [OF n(2)] log_start_region [of s] n by auto
  have L: "set (lh s) \<inter> set ?L = {}" using reg LR by auto
  have nhd: "\<not> held s b" for b using nh by (simp add: held_iff [OF inv])
  have room: "card (pins s) < NBUF" using card_pins_dirty [OF inv nh, of "lh s"] dirty few by auto
  have b: "b < disksize s" if "b \<in> set (lh s) \<union> set ?L \<union> {?S}" for b
    using that od LR by (auto simp: log_on_disk_def)
  obtain s1 where r1: "write_log s = Some s1"
    using write_log_from_returns [OF inv dev room dist _ _ L] b nhd dirty by (auto simp: write_log_def)
  have w1: "wrote (zip ?L (map (bview s) (lh s))) s s1"
    using write_log_from_wrote [OF inv dev, of 0 "lh s" s1] r1 L by (simp add: write_log_def)
  note f1 = wrote_frame [OF w1] and m1 = more_log [OF wrote_frame(6) [OF w1]]
    and h1 = wrote_held [OF w1 inv] and p1 = wrote_room [OF w1]
  obtain s2 where r2: "write_head s1 = Some s2"
    using write_head_returns [OF f1(1)] m1 dev n b nhd h1 p1 room f1(5) by auto
  have w2: "wrote [(?S, encode_head (lh s) (bview s1 ?S))] s1 s2"
    using write_head_wrote [OF f1(1) _ _ r2] m1 dev n by simp
  note f2 = wrote_frame [OF w2] and m2 = more_log [OF wrote_frame(6) [OF w2]]
    and h2 = wrote_held [OF w2 f1(1)] and p2 = wrote_room [OF w2]
  have d2: "\<forall>b \<in> set (lh s). bdirty s2 b"
    using f1(9) f2(9) dirty L reg LR(2) by (auto dest!: set_zip_leftD)
  obtain s3 where r3: "install_trans s2 = Some s3"
    using install_trans_from_returns [OF f2(1), of "lh s" 0] dist d2 dev m1 m2 room p1 p2 b nhd h1 h2 f1(5) f2(5) L
    by (auto simp: install_trans_def)
  have w3: "wrote (zip (lh s) (map (bview s2) ?L)) s2 s3"
    using install_trans_from_wrote [OF f2(1), of 0 "lh s" s3] r3 L dev m1 m2
    by (simp add: install_trans_def)
  note f3 = wrote_frame [OF w3] and m3 = more_log [OF wrote_frame(6) [OF w3]]
    and h3 = wrote_held [OF w3 f2(1)] and p3 = wrote_room [OF w3]
  have "\<exists>t. write_head (s3\<lparr>lh := []\<rparr>) = Some t"
    by (rule write_head_returns)
       (use f1(5) f2(5) f3(1,5) m1 m2 m3 dev b nhd h1 h2 h3 p1 p2 p3 room in auto)
  then show ?thesis using False r1 r2 r3 by (simp add: commit_def)
qed (simp add: commit_def)

lemma peek_returns:
  assumes inv: "bio_inv s" and b: "b < disksize s" "\<not> held s b" and room: "card (pins s) < NBUF"
  obtains i s1 where "bread 1 b s = Some (i, s1)" "b_data (buf_at s1 i) = bview s b" "bio_inv s1"
    "holds_buf s1 i b" "bdirty s1 b \<or> bview s1 b = memdisk s1 b"
proof -
  obtain i s1 where rd: "bread 1 b s = Some (i, s1)"
    using bread_returns [OF inv b card_pins_room [OF room]] by blast
  note 1 = bread_read [OF inv rd]
  show thesis by (rule that [OF rd 1(13,1,2)]) (use 1(3,4,8,12) in auto)
qed

lemma readsb_returns:
  assumes "bio_inv s" "1 < disksize s" "\<not> held s 1" "card (pins s) < NBUF"
  shows "\<exists>t. readsb 1 s = Some (decode_sb (bview s 1), t)"
proof -
  obtain i s1 where 1: "bread 1 1 s = Some (i, s1)" "b_data (buf_at s1 i) = bview s 1" "bio_inv s1"
    "holds_buf s1 i 1" "bdirty s1 1 \<or> bview s1 1 = memdisk s1 1"
    by (rule peek_returns [OF assms])
  obtain t where "brelse i s1 = Some t" using brelse_post [OF 1(3-5)] by blast
  then show ?thesis using 1(1,2) by (simp add: readsb_def)
qed

lemma read_head_returns:
  assumes "bio_inv s" "log_dev s = 1" and b: "log_start s < disksize s" "\<not> held s (log_start s)" "card (pins s) < NBUF"
    and hs: "decode_head (bview s (log_start s)) = Some hs"
  shows "\<exists>t. read_head s = Some t"
proof -
  obtain i s1 where 1: "bread 1 (log_start s) s = Some (i, s1)" "b_data (buf_at s1 i) = bview s (log_start s)"
    "bio_inv s1" "holds_buf s1 i (log_start s)"
    "bdirty s1 (log_start s) \<or> bview s1 (log_start s) = memdisk s1 (log_start s)"
    by (rule peek_returns [OF assms(1) b])
  have "bio_inv (s1\<lparr>lh := hs\<rparr>)" "holds_buf (s1\<lparr>lh := hs\<rparr>) i (log_start s)"
    "bdirty (s1\<lparr>lh := hs\<rparr>) (log_start s) \<or>
       bview (s1\<lparr>lh := hs\<rparr>) (log_start s) = memdisk (s1\<lparr>lh := hs\<rparr>) (log_start s)"
    using 1(3-5) by auto
  then obtain t where "brelse i (s1\<lparr>lh := hs\<rparr>) = Some t" using brelse_post by blast
  then show ?thesis using 1(1,2) assms(2) hs by (simp add: read_head_def)
qed

lemma recover_returns:
  assumes inv: "bio_inv s" and dev: "log_dev s = 1" and nh: "\<And>b. \<not> held s b" and room: "card (pins s) + 2 \<le> NBUF"
    and S: "S = log_start s" and hs: "decode_head (bview s S) = Some hs"
    and dis: "set hs \<inter> set (log_blocks S 0 (length hs)) = {}" "S \<notin> set hs" "distinct hs"
    and b: "\<And>b. b \<in> set hs \<union> set (log_blocks S 0 (length hs)) \<union> {S} \<Longrightarrow> b < disksize s"
  shows "\<exists>t. recover_from_log s = Some t"
proof -
  obtain s1 where rh: "read_head s = Some s1"
    using read_head_returns [OF inv dev, of hs] nh hs S b room by auto
  have l: "lh s1 = hs" and w2: "wrote [] (s\<lparr>lh := hs\<rparr>) s1"
    using read_head_read [OF inv dev rh] S hs by auto
  note f2 = wrote_frame [OF w2] and m2 = more_log [OF wrote_frame(6) [OF w2]]
    and h2 = wrote_held [OF w2] and p2 = wrote_room [OF w2]
  have s1: "log_dev s1 = 1" "log_start s1 = S" "disksize s1 = disksize s" "card (pins s1) + 2 \<le> NBUF"
    "\<And>b. \<not> held s1 b"
    using m2 inv dev S nh room f2(5) p2 h2 by (auto simp: held_iff)
  obtain s2 where it: "install_trans s1 = Some s2"
    using install_trans_from_returns [OF f2(1) s1(1) _ dis(3), of 0] s1 dis b l
    by (auto simp: install_trans_def)
  have w3: "wrote (zip hs (map (bview s1) (log_blocks S 0 (length hs)))) s1 s2"
    using install_trans_from_wrote [OF f2(1) s1(1), of 0 hs s2] it l dis s1 by (simp add: install_trans_def)
  note f3 = wrote_frame [OF w3] and m3 = more_log [OF wrote_frame(6) [OF w3]]
    and h3 = wrote_held [OF w3 f2(1)] and p3 = wrote_room [OF w3]
  have "\<exists>t. write_head (s2\<lparr>lh := []\<rparr>) = Some t"
    by (rule write_head_returns) (use f3(1,5) m3 s1 h3 p3 b in auto)
  then show ?thesis using rh it by (auto simp: recover_from_log_def)
qed

lemma initlog_returns:
  assumes inv: "bio_inv u" and nh: "\<And>b. \<not> held u b" and room: "card (pins u) + 2 \<le> NBUF"
    and S: "S = sb_logstart (decode_sb (bview u 1))" and hs: "decode_head (bview u S) = Some hs"
    and dis: "set hs \<inter> set (log_blocks S 0 (length hs)) = {}" "S \<notin> set hs" "distinct hs"
    and b: "\<And>b. b \<in> set hs \<union> set (log_blocks S 0 (length hs)) \<union> {1, S} \<Longrightarrow> b < disksize u"
  shows "\<exists>r. initlog 1 u = Some r"
proof -
  let ?sb = "decode_sb (bview u 1)"
  have "1 < disksize u" "card (pins u) < NBUF" using b [of 1] room by simp_all
  then obtain u1 where r: "readsb 1 u = Some (?sb, u1)" using readsb_returns [OF inv _ nh] by blast
  note w1 = readsb_read(2) [OF inv r]
  note f1 = wrote_frame [OF w1] and h1 = wrote_held [OF w1 inv] and p1 = wrote_room [OF w1]
  let ?u = "u1\<lparr>log_start := S, log_size := sb_nlog ?sb, log_dev := 1\<rparr>"
  have "\<exists>t. recover_from_log ?u = Some t"
    by (rule recover_returns [OF _ _ _ _ _ _ dis])
       (use f1 h1 nh p1 room hs b in \<open>auto simp: held_iff\<close>)
  then show ?thesis using r S by (simp add: initlog_def)
qed

lemma initlog_returns_crash:
  assumes ok: "log_ok s" and od: "log_on_disk s" and hs: "decode_head (d (log_start s)) = Some hs" "hs = [] \<or> hs = lh s"
    and sb: "sb_logstart (decode_sb (d 1)) = log_start s" "1 < disksize s"
    and u: "bio_inv u" "bview u = d" "pins u = {}" "disksize u = disksize s"
  shows "\<exists>r. initlog 1 u = Some r"
proof -
  note o = log_okD [OF ok]
  have R: "log_start s \<in> log_region s" "set (log_blocks (log_start s) 0 (length hs)) \<subseteq> log_region s"
    using log_start_region [of s] log_blocks_region [of "length hs" s] o(4) hs(2) by auto
  show ?thesis
  proof (rule initlog_returns [OF u(1)])
    show "\<not> held u b" for b using u(3) by (auto simp: held_def pins_def)
    show "card (pins u) + 2 \<le> NBUF" using u(3) by simp
    show "log_start s = sb_logstart (decode_sb (bview u 1))" "decode_head (bview u (log_start s)) = Some hs"
      using sb(1) u(2) hs(1) by simp_all
    show "set hs \<inter> set (log_blocks (log_start s) 0 (length hs)) = {}" "log_start s \<notin> set hs" "distinct hs"
      using o(5,6) R hs(2) by auto
    show "b < disksize u" if "b \<in> set hs \<union> set (log_blocks (log_start s) 0 (length hs)) \<union> {1, log_start s}" for b
      using that od hs(2) R sb(2) u(4) by (auto simp: log_on_disk_def)
  qed
qed

section \<open>Logged writes\<close>

lemma log_write_post:
  assumes inv: "bio_inv s" and h: "holds_buf s i b" and w: "log_write i s = Some t"
  shows "bio_inv t" "bview t = bview s" "memdisk t = memdisk s" "dhist t = dhist s" "disksize t = disksize s"
    "bdirty t = (bdirty s)(b := True)" "pins t = pins s" "holds_buf t = holds_buf s"
    "lh t = (if b \<in> set (lh s) then lh s else lh s @ [b])" "bio.more t = bio.more (s\<lparr>lh := lh t\<rparr>)"
    "length (lh s) < LOGSIZE" "int (length (lh s)) < sint (log_size s) - 1" "outstanding s \<ge> 1"
proof -
  note hd = holds_bufD [OF h]
  have i: "i < NBUF" and len: "i < length (bufs s)" using hd bio_length [OF inv] by auto
  let ?y = "(buf_at s i)\<lparr>b_dirty := True\<rparr>"
  let ?l = "if b \<in> set (lh s) then lh s else lh s @ [b]"
  have t: "t = (upd_buf i (\<lambda>_. ?y) s)\<lparr>lh := ?l\<rparr>"
    and g: "length (lh s) < LOGSIZE" "int (length (lh s)) < sint (log_size s) - 1" "outstanding s \<ge> 1"
    using w hd by (auto simp: log_write_def Let_def upd_buf_def split: if_splits)
  have inv1: "bio_inv (upd_buf i (\<lambda>_. ?y) s)"
    by (rule bio_inv_upd_same [OF inv i]) (use buf_ok_at [OF inv i] hd in \<open>auto simp: buf_ok_def\<close>)
  show "bio_inv t" using inv1 by (simp add: t)
  have "bview (upd_buf i (\<lambda>_. ?y) s) = bview s"
    by (rule bview_same [OF inv inv1]) (use len in auto)
  then show "bview t = bview s" by (simp add: t)
  have "j = i" if "j < NBUF" "b_dev (buf_at s j) = 1" "b_blockno (buf_at s j) = b" for j
    using bio_unique [OF inv that(1) i] that hd by simp
  then have "bdirty (upd_buf i (\<lambda>_. ?y) s) = (bdirty s)(b := True)"
    unfolding fun_eq_iff bdirty_upd [OF inv i] using hd by (auto simp: bdirty_def)
  then show "bdirty t = (bdirty s)(b := True)" by (simp add: t)
  have "pins (upd_buf i (\<lambda>_. ?y) s) = pins s" unfolding pins_upd [OF inv i] using hd by (auto simp: pins_def)
  then show "pins t = pins s" by (simp add: t)
  have "holds_buf (upd_buf i (\<lambda>_. ?y) s) = holds_buf s"
    unfolding fun_eq_iff holds_upd [OF inv i] using hd by (auto simp: holds_buf_def)
  then show "holds_buf t = holds_buf s" by (simp add: t)
  show "lh t = ?l" by (simp add: t)
  show "bio.more t = bio.more (s\<lparr>lh := lh t\<rparr>)" by (cases s) (simp add: t upd_buf_def)
qed (use w in \<open>auto simp: log_write_def Let_def upd_buf_def split: if_splits\<close>)

interpretation lg: block_cache bio_inv bview holds_buf on_disk "\<lambda>s i. b_data (buf_at s i)"
  "bread 1 :: u32 \<Rightarrow> 'a logst_scheme \<Rightarrow> (nat \<times> 'a logst_scheme) option" set_data log_write brelse
proof unfold_locales
  fix s t :: "'a logst_scheme" and h b
  assume a: "bio_inv s" "holds_buf s h b" "log_write h s = Some t"
  show "bio_inv t \<and> holds_buf t = holds_buf s \<and> bview t = bview s \<and> on_disk t b \<and>
      (\<forall>c. on_disk s c \<longrightarrow> on_disk t c)"
    using log_write_post(1-8) [OF a] by (auto simp: on_disk_def)
qed (fact kb.rd_spec kb.put_spec kb.rel_spec kb.view_length)+

text \<open>One logged update of a block: read, store, \<^verbatim>\<open>log_write\<close>, release.\<close>

lemma logged_update:
  assumes inv: "bio_inv s" and rd: "bread 1 b s = Some (i, s1)" and len: "length x = BSIZE"
    and w: "log_write i (set_data i x s1) = Some s2" and rl: "brelse i s2 = Some t"
  shows "bio_inv t" "bview t = (bview s)(b := x)" "memdisk t = memdisk s" "dhist t = dhist s"
    "disksize t = disksize s" "bdirty t = (bdirty s)(b := True)" "holds_buf t = holds_buf s"
    "lh t = (if b \<in> set (lh s) then lh s else lh s @ [b])" "bio.more t = bio.more (s\<lparr>lh := lh t\<rparr>)"
    "length (lh s) < LOGSIZE" "int (length (lh s)) < sint (log_size s) - 1"
proof -
  note 1 = bread_read [OF inv rd]
  note 2 = set_data_post [OF 1(1,2) len]
  have h2: "holds_buf (set_data i x s1) i b" using 1(2) 2(9) by simp
  note 3 = log_write_post [OF 2(1) h2 w]
  have h3: "holds_buf s2 i b" "bdirty s2 b \<or> bview s2 b = memdisk s2 b" using h2 3(6,8) by auto
  note 4 = brelse_release [OF 3(1) h3 rl]
  have m2: "bio.more (set_data i x s1) = bio.more s" using 2(6) 1(7) by simp
  note ml = more_log [OF m2]
  show "bio_inv t" "bview t = (bview s)(b := x)" "memdisk t = memdisk s" "dhist t = dhist s"
    "disksize t = disksize s" "bdirty t = (bdirty s)(b := True)"
    using 1(3-6,8) 2(2-5,7) 3(2-6) 4(1-5,7) by simp_all
  have "holds_buf t j c \<longleftrightarrow> holds_buf s j c" for j c
    using 1(10) [of j c] 1(11) [of j c] 2(9) 3(8) 4(9) [of j c] by auto
  then show "holds_buf t = holds_buf s" by (simp add: fun_eq_iff)
  have l: "lh t = lh s2" using more_log(4) [OF 4(6)] .
  show "lh t = (if b \<in> set (lh s) then lh s else lh s @ [b])" using l 3(9) ml by simp
  show "bio.more t = bio.more (s\<lparr>lh := lh t\<rparr>)" using 4(6) 3(10) l more_upd_lh [OF m2] by simp
  show "length (lh s) < LOGSIZE" "int (length (lh s)) < sint (log_size s) - 1" using 3(11,12) ml by simp_all
qed

lemma log_write_returns:
  "length (lh s) < LOGSIZE \<Longrightarrow> int (length (lh s)) < sint (log_size s) - 1 \<Longrightarrow> outstanding s \<ge> 1 \<Longrightarrow>
   \<exists>t. log_write i s = Some t"
  by (simp add: log_write_def Let_def)

lemma logged_update_returns:
  assumes inv: "bio_inv s" and b: "b < disksize s" "\<not> held s b" and room: "pins s \<noteq> {0..<NBUF}"
    and len: "length x = BSIZE"
    and l: "length (lh s) < LOGSIZE" "int (length (lh s)) < sint (log_size s) - 1" "outstanding s \<ge> 1"
  obtains i s1 s2 t where "bread 1 b s = Some (i, s1)" "log_write i (set_data i x s1) = Some s2" "brelse i s2 = Some t"
proof -
  obtain i s1 where rd: "bread 1 b s = Some (i, s1)" using bread_returns [OF inv b room] by blast
  note 1 = bread_read [OF inv rd]
  note 2 = set_data_post [OF 1(1,2) len]
  have h2: "holds_buf (set_data i x s1) i b" using 1(2) 2(9) by simp
  have "bio.more (set_data i x s1) = bio.more s" using 2(6) 1(7) by simp
  then obtain s2 where w: "log_write i (set_data i x s1) = Some s2"
    using log_write_returns [of "set_data i x s1" i] l more_log [of "set_data i x s1" s] by auto
  note 3 = log_write_post [OF 2(1) h2 w]
  have h3: "holds_buf s2 i b" "bdirty s2 b \<or> bview s2 b = memdisk s2 b" using h2 3(6,8) by auto
  obtain t where "brelse i s2 = Some t" using brelse_post [OF 3(1) h3] by blast
  with rd w show thesis by (rule that)
qed

lemma logged_update_inv:
  assumes inv: "log_inv s" and b: "b \<notin> log_region s" and rd: "bread 1 b s = Some (i, s1)" and len: "length x = BSIZE"
    and w: "log_write i (set_data i x s1) = Some s2" and rl: "brelse i s2 = Some t"
  shows "log_inv t" "log_region t = log_region s"
proof -
  have bi: "bio_inv s" using inv by (simp add: log_inv_def)
  note u = logged_update [OF bi rd len w rl]
  have m: "log_dev t = log_dev s" "log_size t = log_size s" "log_start t = log_start s"
    using more_log [OF u(9)] by simp_all
  show r: "log_region t = log_region s" using m by (simp add: log_region_def)
  have "Suc (length (lh s)) < unat (log_size s)" using u(11) sint_le_unat [of "log_size s"] by linarith
  then show "log_inv t" using inv b u m r by (auto simp: log_inv_def)
qed

end
