(* ===== verification/Xv6_Txn.thy ===== *)
theory Xv6_Txn
  imports Xv6_Log
begin

text \<open>
  What the log guarantees to the file system: transactions of interleaved operations, the
  reservation of log space by \<^verbatim>\<open>begin_op\<close>, durability when the last operation ends, and
  atomicity when the machine stops during a commit or during the recovery from one.
\<close>

section \<open>Transactions\<close>

lemma log_region_upd [simp]:
  "log_region (s\<lparr>outstanding := n\<rparr>) = log_region s" "log_region (s\<lparr>committing := c\<rparr>) = log_region s"
  "log_region (s\<lparr>lh := l\<rparr>) = log_region s"
  by (simp_all add: log_region_def)

lemma log_ok_upd [simp]:
  "log_ok (s\<lparr>outstanding := n\<rparr>) = log_ok s" "log_ok (s\<lparr>committing := c\<rparr>) = log_ok s"
  by (simp_all add: log_ok_def log_inv_def)

lemma fst_zip_map [simp]: "fst ` set (zip xs (map f xs)) = set xs"
  by (force simp: set_zip in_set_conv_nth image_iff)

text \<open>A commit brings the disk up to date with the cache, and leaves an empty header.\<close>

lemma commit_post:
  assumes ok: "log_ok s" and c: "commit s = Some t" and emp: "decode_head (memdisk s (log_start s)) = Some []"
  shows "log_ok t" "lh t = []" "\<And>b. b \<notin> log_region s \<Longrightarrow> memdisk t b = bview s b"
    "\<And>b. b \<notin> log_region s \<Longrightarrow> bview t b = bview s b" "decode_head (memdisk t (log_start s)) = Some []"
    "bio.more t = bio.more (s\<lparr>lh := []\<rparr>)" "disksize t = disksize s"
proof -
  note okD = log_okD [OF ok]
  have clean: "bview s b = memdisk s b" if "b \<notin> set (lh s)" for b
    by (rule bview_clean [OF okD(1,9)]) (use that okD(7) in auto)
  have "log_ok t \<and> lh t = [] \<and> (\<forall>b. b \<notin> log_region s \<longrightarrow> memdisk t b = bview s b) \<and>
    (\<forall>b. b \<notin> log_region s \<longrightarrow> bview t b = bview s b) \<and> decode_head (memdisk t (log_start s)) = Some [] \<and>
    bio.more t = bio.more (s\<lparr>lh := []\<rparr>) \<and> disksize t = disksize s"
  proof (cases "lh s = []")
    case True
    then have t: "t = s" using c by (simp add: commit_def)
    have "s\<lparr>lh := lh s\<rparr> = s" by simp
    then have l: "s\<lparr>lh := []\<rparr> = s" by (simp only: True)
    show ?thesis unfolding t l using ok clean True emp by simp
  next
    case False
    let ?S = "log_start s" and ?L = "log_blocks (log_start s) 0 (length (lh s))"
    note w = commit_wrote [OF ok False c]
    note f = wrote_frame [OF w] and m = more_log [OF wrote_frame(6) [OF w]]
    have R: "?S \<in> log_region s" "set ?L \<subseteq> log_region s"
      using log_start_region [of s] log_blocks_region [OF okD(4)] okD(4) by auto
    have out: "apply_writes g (commit_writes s) b = (if b \<in> set (lh s) then bview s b else g b)"
      if "b \<notin> log_region s" for g b
    proof -
      have b: "b \<noteq> ?S" "b \<notin> set ?L" using that R by auto
      then have "apply_writes g (commit_writes s) b = apply_writes ((apply_writes g (zip ?L (map (bview s) (lh s))))
          (?S := encode_head (lh s) (bview s ?S))) (zip (lh s) (map (bview s) (lh s))) b"
        by (simp add: commit_writes_def Let_def apply_writes_append)
      then show ?thesis
        using b apply_zip_map [OF okD(5), of b] by (cases "b \<in> set (lh s)") (auto simp: apply_zip_other)
    qed
    have hdr: "length (encode_head (lh s) (bview s ?S)) = BSIZE"
      by (rule length_encode_head [OF okD(3) length_bview [OF okD(1)]])
    have "memdisk t ?S = encode_head [] (encode_head (lh s) (bview s ?S))"
      by (simp add: f(2) commit_writes_def Let_def apply_writes_append)
    then have d0: "decode_head (memdisk t ?S) = Some []" using decode_encode_head [OF _ hdr, of "[]"] by simp
    have "\<not> bdirty t b" for b using f(9) [of b] okD(7) [of b] by (simp add: commit_writes_def Let_def image_Un)
    moreover have "log_region t = log_region s" using m by (simp add: log_region_def)
    ultimately have "log_ok t"
      using f(1,7) m okD(2,4,8) by (auto simp: log_ok_def log_inv_def)
    moreover have "memdisk t b = bview s b \<and> bview t b = bview s b" if "b \<notin> log_region s" for b
      unfolding f(2,4) using out [OF that] clean [of b] by simp
    ultimately show ?thesis using d0 f(5,6) m by simp
  qed
  then show "log_ok t" "lh t = []" "\<And>b. b \<notin> log_region s \<Longrightarrow> memdisk t b = bview s b"
    "\<And>b. b \<notin> log_region s \<Longrightarrow> bview t b = bview s b" "decode_head (memdisk t (log_start s)) = Some []"
    "bio.more t = bio.more (s\<lparr>lh := []\<rparr>)" "disksize t = disksize s"
    by auto
qed

text \<open>
  Operations of several processes interleave between \<^verbatim>\<open>begin_op\<close> and \<^verbatim>\<open>end_op\<close>. \<open>ops_run s\<^sub>0 s ns\<close>: from
  \<open>s\<^sub>0\<close> the state \<open>s\<close> is reached with operations in progress that may still write
  \<open>ns ! 0, ns ! 1, \<dots>\<close> blocks; each may write \<open>MAXOPBLOCKS\<close> in all.
\<close>

inductive ops_run :: "'a logst_scheme \<Rightarrow> 'a logst_scheme \<Rightarrow> nat list \<Rightarrow> bool" for s0 where
  idle: "ops_run s0 s0 []"
| enter: "ops_run s0 s ns \<Longrightarrow> begin_op s = Some t \<Longrightarrow> ops_run s0 t (MAXOPBLOCKS # ns)"
| store: "ops_run s0 s (ns @ Suc n # ms) \<Longrightarrow> b \<notin> log_region s \<Longrightarrow> b < disksize s \<Longrightarrow>
    bread 1 b s = Some (i, s1) \<Longrightarrow> length x = BSIZE \<Longrightarrow> log_write i (set_data i x s1) = Some s2 \<Longrightarrow> brelse i s2 = Some t \<Longrightarrow>
    ops_run s0 t (ns @ n # ms)"
| leave: "ops_run s0 s (ns @ n # ms) \<Longrightarrow> end_op s = Some t \<Longrightarrow> ops_run s0 t (ns @ ms)"

definition ops_inv :: "'a logst_scheme \<Rightarrow> 'a logst_scheme \<Rightarrow> nat list \<Rightarrow> bool" where
  "ops_inv s0 s ns \<longleftrightarrow> log_ok s \<and> \<not> committing s \<and> outstanding s = int (length ns) \<and>
     length (lh s) + sum_list ns \<le> LOGSIZE \<and> decode_head (memdisk s (log_start s)) = Some [] \<and>
     log_start s = log_start s0 \<and> log_size s = log_size s0 \<and> disksize s = disksize s0 \<and>
     (\<forall>b \<in> set (lh s). b < disksize s0) \<and> (\<forall>n \<in> set ns. n \<le> MAXOPBLOCKS)"

lemma ops_invD:
  assumes "ops_inv s0 s ns"
  shows "log_ok s" "\<not> committing s" "outstanding s = int (length ns)" "length (lh s) + sum_list ns \<le> LOGSIZE"
    "decode_head (memdisk s (log_start s)) = Some []" "log_start s = log_start s0" "log_size s = log_size s0"
    "disksize s = disksize s0" "\<And>b. b \<in> set (lh s) \<Longrightarrow> b < disksize s0" "\<And>n. n \<in> set ns \<Longrightarrow> n \<le> MAXOPBLOCKS"
  using assms unfolding ops_inv_def by blast+

lemma end_op_inv:
  assumes inv: "ops_inv s0 s (ns @ n # ms)" and e: "end_op s = Some t"
  shows "ops_inv s0 t (ns @ ms)"
proof -
  let ?s = "s\<lparr>outstanding := outstanding s - 1, committing := True\<rparr>"
  have ok: "log_ok ?s" and em: "decode_head (memdisk ?s (log_start ?s)) = Some []"
    using inv unfolding ops_inv_def by auto
  show ?thesis
  proof (cases "outstanding s = 1")
    case False
    then have "t = s\<lparr>outstanding := outstanding s - 1\<rparr>" using inv e by (auto simp: end_op_def ops_inv_def Let_def)
    then show ?thesis using inv by (auto simp: ops_inv_def)
  next
    case True
    then obtain t' where c: "commit ?s = Some t'" and t: "t = t'\<lparr>committing := False\<rparr>"
      using inv e by (auto simp: end_op_def ops_inv_def Let_def bind_eq_Some_conv)
    note p = commit_post [OF ok c em] and m = more_log [OF commit_post(6) [OF ok c em]]
    have "length (ns @ n # ms) = 1" using ops_invD(3) [OF inv] True by linarith
    then have "ns = [] \<and> ms = []" by simp
    then show ?thesis using True ops_invD(6-8) [OF inv] p(1,2,5,7) m by (simp add: ops_inv_def t)
  qed
qed

lemma write_op_inv:
  assumes inv: "ops_inv s0 s (ns @ Suc n # ms)" and b: "b \<notin> log_region s" "b < disksize s"
    and rd: "bread 1 b s = Some (i, s1)"
    and len: "length x = BSIZE" and w: "log_write i (set_data i x s1) = Some s2" and rl: "brelse i s2 = Some t"
  shows "ops_inv s0 t (ns @ n # ms)"
proof -
  have ok: "log_ok s" using inv by (simp add: ops_inv_def)
  then have li: "log_inv s" and bi: "bio_inv s" by (simp_all add: log_ok_def log_inv_def)
  note u = logged_update [OF bi rd len w rl] and li' = logged_update_inv [OF li b(1) rd len w rl]
  have "log_ok t" using ok li' u(7) by (simp add: log_ok_def)
  then show ?thesis using inv b(2) u(3,5,8) more_log [OF u(9)] by (auto simp: ops_inv_def)
qed

lemma sum_list_bounded: "\<forall>n \<in> set ns. n \<le> k \<Longrightarrow> sum_list ns \<le> length ns * (k :: nat)"
  by (induction ns) auto

lemma ops_run_inv:
  assumes "ops_run s0 s ns" and "ops_inv s0 s0 []"
  shows "ops_inv s0 s ns"
  using assms
proof induction
  case (enter s ns t)
  have "\<forall>n \<in> set ns. n \<le> MAXOPBLOCKS" using enter.IH enter.prems by (simp add: ops_inv_def)
  then have "sum_list ns \<le> length ns * MAXOPBLOCKS" by (rule sum_list_bounded)
  then show ?case using enter by (auto simp: begin_op_def ops_inv_def split: if_splits)
qed (blast intro: write_op_inv end_op_inv)+

lemma ops_run_room:
  assumes inv: "ops_inv s0 s (ns @ Suc n # ms)" 
  shows "length (lh s) < LOGSIZE" "pins s \<noteq> {0..<NBUF}" "outstanding s \<ge> 1" "bio_inv s" "\<not> held s b"
proof -
  note i = ops_invD [OF inv] and o = log_okD [OF ops_invD(1) [OF inv]]
  show l: "length (lh s) < LOGSIZE" using i(4) by simp
  have "card (pins s) < NBUF" using card_pins_dirty [OF o(1,8), of "lh s"] o(7) l by simp
  then show "pins s \<noteq> {0..<NBUF}" by (rule card_pins_room)
  show "outstanding s \<ge> 1" "bio_inv s" "\<not> held s b" using i(3) o(1,9) by auto
qed

text \<open>A freshly mounted log, and the boot state of the extended cache.\<close>

definition log_boot :: "(u32 \<Rightarrow> block) \<Rightarrow> u32 \<Rightarrow> u32 \<Rightarrow> u32 \<Rightarrow> logst" where
  "log_boot d n a z = binit \<lparr>bufs = replicate NBUF zero_buf, mru = [], memdisk = d, disksize = n, dhist = [],
     log_start = a, log_size = z, outstanding = 0, committing = False, log_dev = 1, lh = []\<rparr>"

lemma log_boot_fields [simp]:
  "log_start (log_boot d n a z) = a" "log_size (log_boot d n a z) = z" "outstanding (log_boot d n a z) = 0"
  "\<not> committing (log_boot d n a z)" "log_dev (log_boot d n a z) = 1" "lh (log_boot d n a z) = []"
  "memdisk (log_boot d n a z) = d" "disksize (log_boot d n a z) = n" "dhist (log_boot d n a z) = []"
  by (simp_all add: log_boot_def binit_def)

lemma log_boot_inv:
  assumes "\<And>b. length (d b) = BSIZE"
  shows "bio_inv (log_boot d n a z)" "bview (log_boot d n a z) = d" "pins (log_boot d n a z) = {}"
    "\<not> holds_buf (log_boot d n a z) i b" "\<not> bdirty (log_boot d n a z) b" "0 < z \<Longrightarrow> log_ok (log_boot d n a z)"
proof -
  note b = bio_inv_binit [of "\<lparr>bufs = replicate NBUF zero_buf, mru = [], memdisk = d, disksize = n, dhist = [],
     log_start = a, log_size = z, outstanding = 0, committing = False, log_dev = 1, lh = []\<rparr>", folded log_boot_def]
  show "bio_inv (log_boot d n a z)" "bview (log_boot d n a z) = d" "pins (log_boot d n a z) = {}"
    "\<not> holds_buf (log_boot d n a z) i b" "\<not> bdirty (log_boot d n a z) b"
    using b assms by simp_all
  show "0 < z \<Longrightarrow> log_ok (log_boot d n a z)"
    using b assms by (simp add: log_ok_def log_inv_def word_less_nat_alt)
qed

lemma ops_inv_boot:
  "(\<And>b. length (d b) = BSIZE) \<Longrightarrow> decode_head (d a) = Some [] \<Longrightarrow> 0 < z \<Longrightarrow>
   ops_inv (log_boot d n a z) (log_boot d n a z) []"
  by (simp add: ops_inv_def log_boot_inv)


lemma sum_list_pos_split: "0 < sum_list ns \<Longrightarrow> \<exists>ms n ls. ns = ms @ Suc n # ls" for ns :: "nat list"
proof (induction ns)
  case (Cons k ns)
  show ?case
  proof (cases k)
    case 0
    then obtain ms n ls where "ns = ms @ Suc n # ls" using Cons by auto
    then have "k # ns = (k # ms) @ Suc n # ls" by simp
    then show ?thesis by blast
  next
    case (Suc n)
    then have "k # ns = [] @ Suc n # ns" by simp
    then show ?thesis by blast
  qed
qed simp

lemma ops_run_three:
  assumes "ops_inv s0 s0 []" "lh s0 = []"
  shows "ops_run s0 (s0\<lparr>outstanding := 3\<rparr>) [MAXOPBLOCKS, MAXOPBLOCKS, MAXOPBLOCKS]"
proof -
  have b: "begin_op (s0\<lparr>outstanding := k\<rparr>) = Some (s0\<lparr>outstanding := k + 1\<rparr>)" if "k \<le> 2" for k
    using assms that by (auto simp: begin_op_def ops_inv_def)
  have "s0\<lparr>outstanding := outstanding s0\<rparr> = s0" by simp
  then have z: "s0\<lparr>outstanding := 0\<rparr> = s0" using ops_invD(3) [OF assms(1)] by simp
  have "ops_run s0 (s0\<lparr>outstanding := 0\<rparr>) []" unfolding z by (rule idle)
  from enter [OF this b] have "ops_run s0 (s0\<lparr>outstanding := 1\<rparr>) [MAXOPBLOCKS]" by simp
  from enter [OF this b] have "ops_run s0 (s0\<lparr>outstanding := 2\<rparr>) [MAXOPBLOCKS, MAXOPBLOCKS]" by simp
  from enter [OF this b] show ?thesis by simp
qed

lemma ops_run_fill:
  assumes inv: "ops_inv s0 s0 []" "lh s0 = []" and z: "log_size s0 = 30"
    and bl: "\<And>k. k < 30 \<Longrightarrow> bl k \<notin> log_region s0 \<and> bl k < disksize s0" "inj_on bl {..<30}" and m: "m \<le> 29"
  shows "\<exists>s ns. ops_run s0 s ns \<and> length (lh s) = m \<and> set (lh s) = bl ` {..<m} \<and> sum_list ns = 30 - m"
  using m
proof (induction m)
  case 0
  show ?case using ops_run_three [OF inv] inv(2) by force
next
  case (Suc m)
  then obtain s ns where r: "ops_run s0 s ns" "length (lh s) = m" "set (lh s) = bl ` {..<m}" "sum_list ns = 30 - m"
    by auto
  then obtain ms n ls where ns: "ns = ms @ Suc n # ls" using sum_list_pos_split [of ns] Suc.prems by auto
  note i = ops_run_inv [OF r(1)[unfolded ns] inv(1)]
  note o = ops_run_room [OF i] and d = ops_invD [OF i]
  have "bl m \<noteq> bl k" if "k < m" for k using inj_onD [OF bl(2), of m k] that Suc.prems by auto
  then have new: "bl m \<notin> set (lh s)" using r(3) by auto
  have lr: "log_region s = log_region s0" using d(6,7) by (simp add: log_region_def)
  have len: "length (replicate BSIZE 0 :: block) = BSIZE" by simp
  have small: "int (length (lh s)) < sint (log_size s) - 1" using d(7) z r(2) Suc.prems by simp
  obtain j s1 s2 t where u: "bread 1 (bl m) s = Some (j, s1)" "log_write j (set_data j (replicate BSIZE 0) s1) = Some s2"
    "brelse j s2 = Some t"
    by (rule logged_update_returns [OF o(4) _ o(5,2) len o(1) small o(3)]) (use bl(1) [of m] d(8) Suc.prems in auto)
  note l = logged_update(8) [OF o(4) u(1) len u(2,3)]
  have "ops_run s0 t (ms @ n # ls)"
    by (rule store [OF r(1) [unfolded ns] _ _ u(1) len u(2,3)]) (use bl(1) [of m] lr d(8) Suc.prems in auto)
  moreover have "sum_list (ms @ n # ls) = 30 - Suc m" using r(4) ns by simp
  moreover have "set (lh t) = bl ` {..<Suc m}" "length (lh t) = Suc m" using l new r(2,3) by (auto simp: lessThan_Suc)
  ultimately show ?case by blast
qed

text \<open>
  C36. The log that \<^verbatim>\<open>mkfs\<close> lays out has \<open>LOGSIZE\<close> = 30 blocks, the header included, so that 29
  blocks fit, while \<^verbatim>\<open>begin_op\<close> admits operations up to 30. Three operations can be admitted
  and write 29 blocks in all; one of them is still within its budget, yet any further
  \<^verbatim>\<open>log_write\<close> panics.
\<close>

theorem log_full_panics:
  assumes "\<And>b. length (d b) = BSIZE" and "decode_head (d 2) = Some []"
  shows "\<exists>s ns n ms. ops_run (log_boot d 1000 2 30) s (ns @ Suc n # ms) \<and> (\<forall>i u. bio.more u = bio.more s \<longrightarrow> log_write i u = None)"
proof -
  let ?s = "log_boot d 1000 2 30" and ?bl = "\<lambda>k. of_nat (100 + k) :: u32"
  have i: "ops_inv ?s ?s []" using assms by (simp add: ops_inv_boot)
  have un: "unat (of_nat k :: u32) = k" if "k < 2 ^ 32" for k
    using that by (simp add: unat_of_nat)
  have "\<exists>s ns. ops_run ?s s ns \<and> length (lh s) = 29 \<and> set (lh s) = ?bl ` {..<29} \<and> sum_list ns = 30 - 29"
  proof (rule ops_run_fill [OF i])
    fix k :: nat
    assume k: "k < 30"
    have "?bl k < 1000" using k un [of "100 + k"] by (simp add: word_less_nat_alt)
    moreover have "of_nat (100 + k) \<noteq> (of_nat (2 + j) :: u32)" if "j < 30" for j
      using of_nat_u32_inj [of "100 + k" "2 + j"] k that by auto
    ultimately show "?bl k \<notin> log_region ?s \<and> ?bl k < disksize ?s"
      by (auto simp: log_region_def)
  next
    show "inj_on ?bl {..<30}" by (rule inj_onI) (use of_nat_u32_inj in force)
  qed auto
  then obtain s ns where r: "ops_run ?s s ns" "length (lh s) = 29" "sum_list ns = 1" by auto
  then obtain ms n ls where ns: "ns = ms @ Suc n # ls" using sum_list_pos_split [of ns] by auto
  have "log_size s = 30" using ops_invD(7) [OF ops_run_inv [OF r(1) i]] by simp
  then have "log_write i u = None" if "bio.more u = bio.more s" for i u
    using r(2) more_log [OF that] by (simp add: log_write_def)
  then show ?thesis using r(1) ns by blast
qed

section \<open>Crashes\<close>

lemma length_commit_writes:
  assumes "log_ok s" shows "\<forall>(b, x) \<in> set (commit_writes s). length x = BSIZE"
proof -
  note o = log_okD [OF assms]
  have "length (encode_head (lh s) (bview s (log_start s))) = BSIZE"
    by (rule length_encode_head [OF o(3) length_bview [OF o(1)]])
  then show ?thesis
    using length_encode_head [of "[]"] length_bview [OF o(1)]
    by (auto simp: commit_writes_def Let_def dest!: set_zip_rightD)
qed

text \<open>
  C1. Atomic commit. A commit writes its blocks to the log, then the header, then the home
  locations, then an empty header. It returns; and if the machine stops after any number
  \<open>k\<close> of these block writes and is restarted, \<^verbatim>\<open>initlog\<close> returns and leaves on the blocks outside
  the log either everywhere the contents from before the transaction, or everywhere the
  contents that the transaction gave them.
\<close>

theorem commit_crash_atomic:
  assumes ok: "log_ok s" and od: "log_on_disk s" and ne: "lh s \<noteq> []" and few: "length (lh s) < NBUF"
    and emp: "decode_head (memdisk s (log_start s)) = Some []"
    and sb: "sb_logstart (decode_sb (memdisk s 1)) = log_start s" "1 \<notin> log_region s" "1 \<notin> set (lh s)" "1 < disksize s"
  shows "\<exists>t. commit s = Some t \<and> (\<forall>k. \<exists>r.
    initlog 1 (log_boot (apply_writes (memdisk s) (take k (drop (length (dhist s)) (dhist t)))) (disksize s) a z) = Some r \<and>
    ((\<forall>b. b \<notin> log_region s \<longrightarrow> memdisk r b = memdisk s b) \<or> (\<forall>b. b \<notin> log_region s \<longrightarrow> memdisk r b = bview s b)))"
proof -
  obtain t where c: "commit s = Some t" using commit_returns [OF ok od few] by blast
  note o = log_okD [OF ok]
  have clean: "bview s 1 = memdisk s 1" by (rule bview_clean [OF o(1,9)]) (use o(7) sb in auto)
  have "\<exists>r. initlog 1 (log_boot d (disksize s) a z) = Some r \<and>
      ((\<forall>b. b \<notin> log_region s \<longrightarrow> memdisk r b = memdisk s b) \<or> (\<forall>b. b \<notin> log_region s \<longrightarrow> memdisk r b = bview s b))"
    if d: "d = apply_writes (memdisk s) (take k (drop (length (dhist s)) (dhist t)))" for d k
  proof -
    have ws: "drop (length (dhist s)) (dhist t) = commit_writes s"
      using wrote_frame(3) [OF commit_wrote [OF ok ne c]] by simp
    have len: "length (d b) = BSIZE" for b unfolding d ws
      by (rule length_apply_writes [OF bio_disk [OF o(1)]])
         (use length_commit_writes [OF ok] in \<open>auto dest: in_set_takeD\<close>)
    let ?u = "log_boot d (disksize s) a z" and ?S = "log_start s"
    note u = log_boot_inv [of d "disksize s" a z, OF len]
    have run: "\<exists>r. initlog 1 ?u = Some r"
      if "decode_head (d ?S) = Some hs" "hs = [] \<or> hs = lh s" "d 1 = memdisk s 1" for hs
      by (rule initlog_returns_crash [where d = d, OF ok od that(1,2) _ sb(4)]) (use u that(3) sb(1) in simp_all)
    note after = initlog_after_crash [where d = d, OF ok _ _ _ u(1) log_boot_fields(7) u(2)]
    from ok ne c emp d show ?thesis
    proof (cases rule: commit_crash_disk)
      case old
      with sb(2) have d1: "d 1 = memdisk s 1" by simp
      obtain r where r: "initlog 1 ?u = Some r" using run [OF old(1) _ d1] by blast
      have "memdisk r b = memdisk s b" if "b \<notin> log_region s" for b
        using after(1) [OF old(1) _ _ r that] old(2) [OF that] d1 sb(1) by simp
      then show ?thesis using r by blast
    next
      case new
      with sb(2) clean have d1: "d 1 = memdisk s 1" by simp
      obtain r where r: "initlog 1 ?u = Some r" using run [OF new(1) _ d1] by blast
      have "memdisk r b = bview s b" if "b \<notin> log_region s" for b
        using after(1) [OF new(1) _ _ r that] new(2) [OF that] d1 sb(1) by simp
      then show ?thesis using r by blast
    next
      case logged
      with sb(2,3) clean have d1: "d 1 = memdisk s 1" by simp
      obtain r where r: "initlog 1 ?u = Some r" using run [OF logged(1) _ d1] by blast
      have "memdisk r b = bview s b" if "b \<notin> log_region s" for b
        using after(1) [OF logged(1) _ _ r that] after(2) [OF logged(1) _ _ r that logged(2)] logged(3) [OF that] d1 sb(1)
        by (cases "b \<in> set (lh s)") simp_all
      then show ?thesis using r by blast
    qed
  qed
  then show ?thesis using c by blast
qed

lemma apply_recovery:
  assumes "length hs \<le> LOGSIZE" "length (d S) = BSIZE" "S \<notin> set hs" "distinct hs"
    "set hs \<inter> set (log_blocks S 0 (length hs)) = {}" 
    and d'_def: "d' = apply_writes d (take k (recovery_writes d S hs))"
  obtains
    (early) "d' S = d S" "map d' (log_blocks S 0 (length hs)) = map d (log_blocks S 0 (length hs))" "\<And>b. b \<notin> set hs \<Longrightarrow> d' b = d b"
  | (late) "d' = apply_writes d (recovery_writes d S hs)" "decode_head (d' S) = Some []"
proof (cases "k \<le> length hs")
  case True
  then have d: "d' = apply_writes d (take k (zip hs (map d (log_blocks S 0 (length hs)))))"
    by (simp add: d'_def recovery_writes_def)
  have o: "d' b = d b" if "b \<notin> set hs" for b unfolding d by (rule apply_zip_take_other [OF that])
  show thesis by (rule early) (use o assms(3,5) in auto)
next
  case False
  then have d: "d' = apply_writes d (recovery_writes d S hs)"
    by (simp add: d'_def recovery_writes_def)
  have "d' S = encode_head [] (d S)" unfolding d by (simp add: recovery_writes_def apply_writes_append)
  then show thesis using late [OF d] decode_encode_head [of "[]" "d S"] assms(2) by simp
qed


section \<open>Durability\<close>

text \<open>
  C14. \<^verbatim>\<open>end_op\<close> always returns. The last operation to end writes every block outside the log to
  its place on the disk, with the contents the cache had, and empties the log; an earlier one
  leaves the disk alone. Readers see no difference.
\<close>

theorem end_op_durable:
  assumes inv: "ops_inv s0 s (ns @ n # ms)" and od: "log_on_disk s" and few: "length (lh s) < NBUF"
  shows "\<exists>t. end_op s = Some t \<and> ops_inv s0 t (ns @ ms) \<and> (\<forall>b. b \<notin> log_region s \<longrightarrow> bview t b = bview s b) \<and>
    (if outstanding s = 1 then lh t = [] \<and> (\<forall>b. b \<notin> log_region s \<longrightarrow> memdisk t b = bview s b)
     else memdisk t = memdisk s)"
proof (cases "outstanding s = 1")
  case False
  then have "end_op s = Some (s\<lparr>outstanding := outstanding s - 1\<rparr>)"
    using ops_invD(2,3) [OF inv] by (simp add: end_op_def Let_def)
  then show ?thesis using end_op_inv [OF inv] False by simp
next
  case True
  let ?s = "s\<lparr>outstanding := outstanding s - 1, committing := True\<rparr>"
  have ok: "log_ok ?s" and em: "decode_head (memdisk ?s (log_start ?s)) = Some []"
    using ops_invD(1,5) [OF inv] by simp_all
  have "log_on_disk ?s" "length (lh ?s) < NBUF" using od few by (simp_all add: log_on_disk_def)
  then obtain t where c: "commit ?s = Some t" using commit_returns [OF ok] by blast
  then have e: "end_op s = Some (t\<lparr>committing := False\<rparr>)"
    using True ops_invD(2) [OF inv] by (simp add: end_op_def Let_def)
  show ?thesis using e end_op_inv [OF inv e] commit_post(2-4) [OF ok c em] True by simp
qed

section \<open>A concrete transaction\<close>

text \<open>The superblock that \<^verbatim>\<open>mkfs\<close> writes, on an otherwise empty disk.\<close>

definition mkfs_sb :: superblock where
  "mkfs_sb = \<lparr>sb_size = 1000, sb_nblocks = 941, sb_ninodes = 200, sb_nlog = 30, sb_logstart = 2,
     sb_inodestart = 32, sb_bmapstart = 58\<rparr>"

definition empty_disk :: "u32 \<Rightarrow> block" where
  "empty_disk b = (if b = 1 then encode_sb mkfs_sb @ replicate (BSIZE - 28) 0 else zero_block)"

lemma length_empty_disk [simp]: "length (empty_disk b) = BSIZE"
  by (simp add: empty_disk_def encode_sb_def)

lemma decode_zero_head [simp]: "decode_head zero_block = Some []"
  by code_simp

lemma empty_disk_sb [simp]: "decode_sb (empty_disk 1) = mkfs_sb"
  "b \<noteq> 1 \<Longrightarrow> empty_disk b = zero_block"
  by (simp_all add: empty_disk_def decode_encode_sb)

lemma sample_region:
  "log_start s = 2 \<Longrightarrow> log_size s = 30 \<Longrightarrow> b < 2 \<or> 32 \<le> b \<Longrightarrow> b \<notin> log_region s"
  "log_start s = 2 \<Longrightarrow> log_size s = 30 \<Longrightarrow> b \<in> log_region s \<Longrightarrow> b < 1000"
proof -
  have u: "unat (2 + of_nat k :: u32) = 2 + k" if "k < 30" for k
    using that by (simp add: unat_word_ariths unat_of_nat)
  show "log_start s = 2 \<Longrightarrow> log_size s = 30 \<Longrightarrow> b < 2 \<or> 32 \<le> b \<Longrightarrow> b \<notin> log_region s"
    "log_start s = 2 \<Longrightarrow> log_size s = 30 \<Longrightarrow> b \<in> log_region s \<Longrightarrow> b < 1000"
    using u by (auto simp: log_region_def word_less_nat_alt word_le_nat_alt)
qed

text \<open>One operation that has written block 100.\<close>

lemma sample_txn:
  obtains s where "ops_inv (log_boot empty_disk 1000 2 30) s [9]" "lh s = [100]" "memdisk s = empty_disk"
    "bview s 100 = replicate BSIZE 7" "log_start s = 2" "log_size s = 30" "disksize s = 1000"
proof -
  let ?s0 = "log_boot empty_disk 1000 2 30"
  note b0 = log_boot_inv [of empty_disk 1000 2 30, OF length_empty_disk]
  have i0: "ops_inv ?s0 ?s0 []" by (rule ops_inv_boot) simp_all
  let ?s1 = "?s0\<lparr>outstanding := 1\<rparr>"
  have "begin_op ?s0 = Some ?s1" by (simp add: begin_op_def)
  from enter [OF idle this] have r1: "ops_run ?s0 ?s1 ([] @ Suc 9 # [])" by simp
  note i1 = ops_run_inv [OF r1 i0]
  note o1 = ops_run_room [OF i1]
  have len: "length (replicate BSIZE 7 :: block) = BSIZE" by simp
  obtain j u v t where c: "bread 1 100 ?s1 = Some (j, u)" "log_write j (set_data j (replicate BSIZE 7) u) = Some v"
    "brelse j v = Some t"
    by (rule logged_update_returns [OF o1(4) _ o1(5,2) len o1(1) _ o1(3), of 100]) simp_all
  note lu = logged_update [OF o1(4) c(1) len c(2,3)]
  have "ops_run ?s0 t ([] @ 9 # [])"
    by (rule store [OF r1 _ _ c(1) len c(2,3)]) (simp_all add: sample_region)
  note i2 = ops_run_inv [OF this i0]
  show thesis
    by (rule that [of t]) (use i2 lu ops_invD(6-8) [OF i2] in simp_all)
qed

lemma sample_on_disk:
  "log_start s = 2 \<Longrightarrow> log_size s = 30 \<Longrightarrow> disksize s = 1000 \<Longrightarrow> lh s = [100] \<Longrightarrow> log_on_disk s"
  using sample_region(2) [of s] by (auto simp: log_on_disk_def)

theorem commit_crash_atomic_witness:
  "\<exists>(s :: logst) t. lh s = [100] \<and> memdisk s = empty_disk \<and> bview s 100 = replicate BSIZE 7 \<and> commit s = Some t \<and> (\<forall>k. \<exists>r.
    initlog 1 (log_boot (apply_writes (memdisk s) (take k (drop (length (dhist s)) (dhist t)))) 1000 0 0) = Some r \<and>
    (memdisk r 100 = zero_block \<or> memdisk r 100 = replicate BSIZE 7))"
proof -
  obtain s where s: "ops_inv (log_boot empty_disk 1000 2 30) s [9]" "lh s = [100]" "memdisk s = empty_disk"
    "bview s 100 = replicate BSIZE 7" "log_start s = 2" "log_size s = 30" "disksize s = 1000"
    by (rule sample_txn)
  note o = ops_invD(1,5) [OF s(1)] and od = sample_on_disk [OF s(5-7,2)]
  have R: "100 \<notin> log_region s" "1 \<notin> log_region s" using sample_region [OF s(5,6)] by simp_all
  have z: "empty_disk 100 = zero_block" by simp
  obtain t where t: "commit s = Some t" and r: "\<And>k. \<exists>r.
    initlog 1 (log_boot (apply_writes (memdisk s) (take k (drop (length (dhist s)) (dhist t)))) 1000 0 0) = Some r \<and>
    ((\<forall>b. b \<notin> log_region s \<longrightarrow> memdisk r b = memdisk s b) \<or> (\<forall>b. b \<notin> log_region s \<longrightarrow> memdisk r b = bview s b))"
    using commit_crash_atomic [OF o(1) od, of 0 0] o(2) s R(2) by (auto simp: mkfs_sb_def)
  have "\<exists>r. initlog 1 (log_boot (apply_writes (memdisk s) (take k (drop (length (dhist s)) (dhist t)))) 1000 0 0) = Some r \<and>
    (memdisk r 100 = zero_block \<or> memdisk r 100 = replicate BSIZE 7)" for k
    using r [of k] R(1) s(3,4) z by metis
  then show ?thesis using s t by blast
qed


theorem log_full_panics_witness:
  "\<exists>s ns n ms. ops_run (log_boot empty_disk 1000 2 30) s (ns @ Suc n # ms) \<and> log_write 0 s = None"
  using log_full_panics [of empty_disk] by force


theorem end_op_durable_witness:
  "\<exists>(s :: logst) t. lh s = [100] \<and> memdisk s 100 = zero_block \<and> end_op s = Some t \<and> lh t = [] \<and>
     memdisk t 100 = replicate BSIZE 7"
proof -
  obtain s where s: "ops_inv (log_boot empty_disk 1000 2 30) s [9]" "lh s = [100]" "memdisk s = empty_disk"
    "bview s 100 = replicate BSIZE 7" "log_start s = 2" "log_size s = 30" "disksize s = 1000"
    by (rule sample_txn)
  have "100 \<notin> log_region s" using sample_region [OF s(5,6)] by simp
  then show ?thesis
    using end_op_durable [of _ s "[]" 9 "[]", OF _ sample_on_disk [OF s(5-7,2)]] s ops_invD(3) [OF s(1)]
    by force
qed

end
