(* ===== verification/Xv6_Printf.thy ===== *)
theory Xv6_Printf
  imports Xv6_String
begin

text \<open>
  Formatted output: \<^verbatim>\<open>cprintf\<close> of \<^verbatim>\<open>console.c\<close> and \<^verbatim>\<open>printf\<close> of \<^verbatim>\<open>printf.c\<close>, as functions from the format
  and the arguments to the bytes that are passed to \<^verbatim>\<open>consputc\<close> and \<^verbatim>\<open>putc\<close> one by one. An
  argument is a 32-bit integer, an address, or a string (\<open>None\<close> is the null pointer); a missing
  or ill-typed one is undefined behaviour, as is a string without its final zero.
\<close>

definition digits :: "byte list" where
  "digits = [48, 49, 50, 51, 52, 53, 54, 55, 56, 57, 97, 98, 99, 100, 101, 102]"

text \<open>The next digit is in the top four bits, which are then shifted out.\<close>

fun print_x64_loop :: "nat \<Rightarrow> u64 \<Rightarrow> byte list" where
  "print_x64_loop 0 x = []"
| "print_x64_loop (Suc i) x = digits ! unat (drop_bit 60 x) # print_x64_loop i (push_bit 4 x)"

definition print_x64 :: "u64 \<Rightarrow> byte list" where
  "print_x64 x = print_x64_loop 16 x"

fun print_x32_loop :: "nat \<Rightarrow> u32 \<Rightarrow> byte list" where
  "print_x32_loop 0 x = []"
| "print_x32_loop (Suc i) x = digits ! unat (drop_bit 28 x) # print_x32_loop i (push_bit 4 x)"

definition print_x32 :: "u32 \<Rightarrow> byte list" where
  "print_x32 x = print_x32_loop 8 x"

text \<open>The loop of \<^verbatim>\<open>print_d\<close> fills \<^verbatim>\<open>buf\<close> from the last digit on; it is printed backwards.\<close>

fun print_d_buf :: "nat \<Rightarrow> byte list" where
  "print_d_buf x = digits ! (x mod 10) # (if x div 10 = 0 then [] else print_d_buf (x div 10))"

declare print_d_buf.simps [simp del]

definition print_d :: "int \<Rightarrow> byte list" where
  "print_d v = rev (print_d_buf (nat \<bar>v\<bar>) @ (if v < 0 then [45] else []))"

datatype fmt_arg = AInt u32 | AAddr u64 | AStr "byte list option"

text \<open>\<^verbatim>\<open>%s\<close> up to the final zero.\<close>

definition print_s :: "byte list option \<Rightarrow> byte list option" where
  "print_s t =
     (case t of
        None \<Rightarrow> Some [40, 110, 117, 108, 108, 41]
      | Some t \<Rightarrow> if 0 \<in> set t then Some (takeWhile (\<lambda>b. b \<noteq> 0) t) else None)"

text \<open>One conversion \<open>d\<close> of the kernel's \<^verbatim>\<open>cprintf\<close>: the bytes printed and the arguments left.\<close>

definition cprintf_conv :: "byte \<Rightarrow> fmt_arg list \<Rightarrow> (byte list \<times> fmt_arg list) option" where
  "cprintf_conv d ap =
     (if d = 100 then (case ap of AInt v # ap \<Rightarrow> Some (print_d (sint v), ap) | _ \<Rightarrow> None)
      else if d = 120 then (case ap of AInt v # ap \<Rightarrow> Some (print_x32 v, ap) | _ \<Rightarrow> None)
      else if d = 112 then (case ap of AAddr v # ap \<Rightarrow> Some (print_x64 v, ap) | _ \<Rightarrow> None)
      else if d = 115 then (case ap of AStr t # ap \<Rightarrow> do { bs \<leftarrow> print_s t; Some (bs, ap) } | _ \<Rightarrow> None)
      else if d = 37 then Some ([37], ap)
      else Some ([37, d], ap))"

fun cprintf_bytes :: "byte list \<Rightarrow> fmt_arg list \<Rightarrow> byte list option" where
  "cprintf_bytes [] ap = None"
| "cprintf_bytes (c # f) ap =
     (if c = 0 then Some []
      else if c \<noteq> 37 then do { r \<leftarrow> cprintf_bytes f ap; Some (c # r) }
      else
        (case f of
           [] \<Rightarrow> None
         | d # f \<Rightarrow>
             if d = 0 then Some []
             else do { (bs, ap) \<leftarrow> cprintf_conv d ap; r \<leftarrow> cprintf_bytes f ap; Some (bs @ r) }))"

text \<open>The user library's \<^verbatim>\<open>printf\<close> has the conversion \<^verbatim>\<open>%c\<close> in addition.\<close>

definition printf_conv :: "byte \<Rightarrow> fmt_arg list \<Rightarrow> (byte list \<times> fmt_arg list) option" where
  "printf_conv d ap =
     (if d = 99 then (case ap of AInt v # ap \<Rightarrow> Some ([ucast v], ap) | _ \<Rightarrow> None) else cprintf_conv d ap)"

fun printf_bytes :: "byte list \<Rightarrow> fmt_arg list \<Rightarrow> byte list option" where
  "printf_bytes [] ap = None"
| "printf_bytes (c # f) ap =
     (if c = 0 then Some []
      else if c \<noteq> 37 then do { r \<leftarrow> printf_bytes f ap; Some (c # r) }
      else
        (case f of
           [] \<Rightarrow> None
         | d # f \<Rightarrow>
             if d = 0 then Some []
             else do { (bs, ap) \<leftarrow> printf_conv d ap; r \<leftarrow> printf_bytes f ap; Some (bs @ r) }))"

section \<open>What is printed\<close>

definition digit_val :: "byte \<Rightarrow> nat" where
  "digit_val d = (if 97 \<le> d then unat d - 87 else unat d - 48)"

definition num_val :: "nat \<Rightarrow> byte list \<Rightarrow> nat" where
  "num_val base ds = foldl (\<lambda>a d. a * base + digit_val d) 0 ds"

lemma digit_val_digits: "n < 16 \<Longrightarrow> digit_val (digits ! n) = n"
proof -
  have "\<forall>n \<in> set [0..<16]. digit_val (digits ! n) = n" by code_simp
  then show "n < 16 \<Longrightarrow> digit_val (digits ! n) = n" by simp
qed

lemma num_val_foldl: "foldl (\<lambda>a d. a * b + digit_val d) c ds = c * b ^ length ds + num_val b ds"
proof (induction ds arbitrary: c)
  case (Cons d ds)
  have "num_val b (d # ds) = digit_val d * b ^ length ds + num_val b ds"
    using Cons.IH [of "digit_val d"] by (simp add: num_val_def)
  then show ?case using Cons.IH [of "c * b + digit_val d"] by (simp add: algebra_simps)
qed (simp add: num_val_def)

lemma num_val_Cons: "num_val b (d # ds) = digit_val d * b ^ length ds + num_val b ds"
  using num_val_foldl [of b "digit_val d" ds] by (simp add: num_val_def)

lemma length_print_x32_loop [simp]: "length (print_x32_loop k x) = k"
  by (induction k arbitrary: x) auto

lemma shift_nibble:
  fixes x :: nat
  assumes "k \<le> 7" "x < 16 ^ 8"
  shows "x div 16 ^ 7 * 16 ^ k + (x * 16 mod 16 ^ 8) div 16 ^ (8 - k) = x div 16 ^ (7 - k)"
proof -
  let ?d = "x div 16 ^ 7" and ?r = "x mod 16 ^ 7" and ?m = "16 ^ (7 - k) :: nat"
  have m: "16 ^ 7 = 16 ^ k * ?m" using assms(1) by (simp add: power_add [symmetric])
  have x: "x = ?d * 16 ^ 7 + ?r" by simp
  have "?d * 16 ^ 7 + ?r = ?m * (?d * 16 ^ k) + ?r" unfolding m by simp
  then have "x div ?m = ?d * 16 ^ k + ?r div ?m" by (metis x div_mult_self4 power_not_zero zero_neq_numeral)
  moreover have "x * 16 mod 16 ^ 8 = ?r * 16" using assms(2) by (simp add: mod_mult_mult2 [of x 16 "16 ^ 7", simplified])
  moreover have "?r * 16 div 16 ^ (8 - k) = ?r div ?m"
  proof -
    have "8 - k = Suc (7 - k)" using assms(1) by simp
    then have "(16::nat) ^ (8 - k) = 16 * ?m" by (simp only: power_Suc)
    then show ?thesis by (simp add: div_mult2_eq)
  qed
  ultimately show ?thesis by simp
qed

lemma num_val_x32:
  "k \<le> 8 \<Longrightarrow> num_val 16 (print_x32_loop k x) = unat x div 16 ^ (8 - k)"
proof (induction k arbitrary: x)
  case 0
  have "unat x < 2 ^ 32" using unsigned_less [of x] by simp
  then show ?case by (simp add: num_val_def)
next
  case (Suc k)
  have x: "unat x < 16 ^ 8" using unsigned_less [of x] by simp
  have d: "unat (drop_bit 28 x) = unat x div 16 ^ 7" by (simp add: drop_bit_eq_div unat_div)
  have p: "unat (push_bit 4 x) = unat x * 16 mod 16 ^ 8"
    by (simp add: push_bit_eq_mult unat_word_ariths)
  have "unat x div 16 ^ 7 < 16" using x by simp
  then have "digit_val (digits ! unat (drop_bit 28 x)) = unat x div 16 ^ 7"
    unfolding d by (rule digit_val_digits)
  then have "num_val 16 (print_x32_loop (Suc k) x) = unat x div 16 ^ 7 * 16 ^ k + (unat x * 16 mod 16 ^ 8) div 16 ^ (8 - k)"
    using Suc by (simp add: num_val_Cons p)
  also have "\<dots> = unat x div 16 ^ (8 - Suc k)" using shift_nibble [of k "unat x"] Suc.prems x by simp
  finally show ?case .
qed

lemma sint_digit: "n < 10 \<Longrightarrow> sint (digits ! n) = 48 + int n"
proof -
  have "\<forall>n \<in> set [0..<10]. sint (digits ! n) = 48 + int n" by code_simp
  then show "n < 10 \<Longrightarrow> sint (digits ! n) = 48 + int n" by simp
qed

lemma atoi_from_print: "atoi_from a (rev (print_d_buf x) @ t) = atoi_from (a * 10 ^ length (print_d_buf x) + int x) t"
proof (induction x arbitrary: a t rule: print_d_buf.induct)
  case (1 x)
  show ?case
  proof (cases "x div 10 = 0")
    case True
    then have "x < 10" by (simp add: div_eq_0_iff)
    moreover from this have "print_d_buf x = [digits ! x]" by (subst print_d_buf.simps) simp
    ultimately show ?thesis using sint_digit [of x] by simp
  next
    case False
    then have b: "print_d_buf x = digits ! (x mod 10) # print_d_buf (x div 10)" by (subst print_d_buf.simps) simp
    have "int x = 10 * int (x div 10) + int (x mod 10)" by presburger
    moreover have "x mod 10 < 10" "x mod 10 \<le> 9" by (simp_all add: less_Suc_eq_le [symmetric])
    ultimately show ?thesis
      unfolding b using 1 [OF False, of a "digits ! (x mod 10) # t"] sint_digit [of "x mod 10"]
      by (simp add: algebra_simps)
  qed
qed

text \<open>
  Printing and parsing numbers agree: \<^verbatim>\<open>atoi\<close> reads back every non-negative number that \<^verbatim>\<open>%d\<close>
  printed, up to the first byte that is no digit.
\<close>

theorem print_d_atoi:
  assumes "0 \<le> v" and "\<not> (48 \<le> sint c \<and> sint c \<le> 57)"
  shows "atoi (print_d v @ c # rest) = Some v"
  using atoi_from_print [of 0 "nat v" "c # rest"] assms by (auto simp: atoi_def print_d_def)

theorem print_d_atoi_witness: "atoi (print_d 2026 @ [0]) = Some 2026"
  using print_d_atoi [of 2026 0 "[]"] by simp

text \<open>
  \<^verbatim>\<open>%x\<close> prints eight digits, whose value to the base 16 is the argument.
\<close>

theorem print_x32_value: "length (print_x32 x) = 8 \<and> num_val 16 (print_x32 x) = unat x"
  by (simp add: print_x32_def num_val_x32 del: print_x32_loop.simps)

end
