(* ===== verification/Xv6_Console.thy ===== *)
theory Xv6_Console
  imports Xv6_Txn Xv6_Printf
begin

text \<open>
  The console of \<^verbatim>\<open>console.c\<close>: the screen and serial output of \<^verbatim>\<open>consputc\<close>, the line editing of
  \<^verbatim>\<open>consoleintr\<close> on the ring buffer \<^verbatim>\<open>input\<close>, and the copying loop of \<^verbatim>\<open>consoleread\<close>. The system
  calls \<^verbatim>\<open>consoleread\<close> and \<^verbatim>\<open>consolewrite\<close> also unlock and lock their inode; they are completed in
  the theory of the file system.

  The state extends the log with the field \<^verbatim>\<open>killed\<close> of the running process and the console's
  variables. \<open>uart\<close> is the sequence of bytes sent to the serial port, \<open>crt\<close> the 80 by 25
  cells of the screen, \<open>cursor\<close> the two cursor registers of the display controller. After
  \<^verbatim>\<open>panic\<close> nothing is printed any more, so that the flag \<^verbatim>\<open>panicked\<close> needs no field.
\<close>

abbreviation (input) INPUT_BUF :: nat where "INPUT_BUF \<equiv> 128"

record consst = logst +
  p_killed :: bool
  uart :: "byte list"
  crt :: "u16 list"
  cursor :: nat
  in_buf :: "byte list"
  in_r :: u32
  in_w :: u32
  in_e :: u32

section \<open>Output\<close>

text \<open>\<^verbatim>\<open>consputc\<close> is called with a byte or with \<^verbatim>\<open>BACKSPACE\<close>, which is no byte.\<close>

datatype conschar = Byte byte | BACKSPACE

definition uartputc :: "byte \<Rightarrow> 'a consst_scheme \<Rightarrow> 'a consst_scheme" where
  "uartputc c s = s\<lparr>uart := uart s @ [c]\<rparr>"

definition cgaputc :: "conschar \<Rightarrow> 'a consst_scheme \<Rightarrow> 'a consst_scheme option" where
  "cgaputc c s =
     (let pos = cursor s in do {
        (pos, scr) \<leftarrow>
          (case c of
             BACKSPACE \<Rightarrow> Some (if pos > 0 then pos - 1 else pos, crt s)
           | Byte b \<Rightarrow>
               if b = 10 then Some (pos + (80 - pos mod 80), crt s)
               else if pos < length (crt s) then Some (pos + 1, (crt s)[pos := ucast b OR 0x0700])
               else None);
        (pos, scr) \<leftarrow>
          (if pos div 80 \<ge> 24 then
             if pos \<le> 25 * 80 \<and> length scr = 25 * 80 then
               let scr = take (23 * 80) (drop 80 scr) @ drop (23 * 80) scr; pos = pos - 80 in
               Some (pos, blit pos (replicate (24 * 80 - pos) 0) scr)
             else None
           else Some (pos, scr));
        if pos < length scr then
          Some (s\<lparr>cursor := pos mod 2 ^ 16, crt := scr[pos := 0x0720]\<rparr>)
        else None
      })"

definition consputc :: "conschar \<Rightarrow> 'a consst_scheme \<Rightarrow> 'a consst_scheme option" where
  "consputc c s =
     cgaputc c
       (case c of
          BACKSPACE \<Rightarrow> uartputc 8 (uartputc 32 (uartputc 8 s))
        | Byte b \<Rightarrow> uartputc b s)"

fun consputs :: "byte list \<Rightarrow> 'a consst_scheme \<Rightarrow> 'a consst_scheme option" where
  "consputs [] s = Some s"
| "consputs (c # cs) s = do { s \<leftarrow> consputc (Byte c) s; consputs cs s }"

definition cprintf :: "byte list \<Rightarrow> fmt_arg list \<Rightarrow> 'a consst_scheme \<Rightarrow> 'a consst_scheme option" where
  "cprintf fmt ap s = do { bs \<leftarrow> cprintf_bytes fmt ap; consputs bs s }"

section \<open>Input\<close>

lemma consputc_frame:
  assumes "consputc c s = Some t"
  shows "in_r t = in_r s" "in_w t = in_w s" "in_e t = in_e s" "in_buf t = in_buf s" "p_killed t = p_killed s"
    "logst.more t = logst.more t"
  using assms
  by (auto simp: consputc_def cgaputc_def uartputc_def Let_def bind_eq_Some_conv split: conschar.splits if_splits)

lemma unat_minus_one: "x \<noteq> 0 \<Longrightarrow> unat (x - 1) = unat x - 1" for x :: u32
  by (simp add: unat_sub unat_eq_0 word_le_nat_alt unat_gt_0 Suc_le_eq)

text \<open>Control-U: the loop erases characters back to the last newline.\<close>

function kill_line :: "'a consst_scheme \<Rightarrow> 'a consst_scheme option" where
  "kill_line s =
     (if in_e s \<noteq> in_w s \<and> in_buf s ! (unat (in_e s - 1) mod INPUT_BUF) \<noteq> 10 then do {
        s \<leftarrow> consputc BACKSPACE (s\<lparr>in_e := in_e s - 1\<rparr>);
        kill_line s
      } else Some s)"
  by pat_completeness auto
termination
proof (relation "measure (\<lambda>s. unat (in_e s - in_w s))")
  fix s t :: "'a consst_scheme"
  assume a: "in_e s \<noteq> in_w s \<and> in_buf s ! (unat (in_e s - 1) mod INPUT_BUF) \<noteq> 10"
    and c: "consputc BACKSPACE (s\<lparr>in_e := in_e s - 1\<rparr>) = Some t"
  have "in_e t - in_w t = (in_e s - in_w s) - 1" using consputc_frame [OF c] by simp
  moreover have "in_e s - in_w s \<noteq> 0" using a by simp
  ultimately show "(t, s) \<in> measure (\<lambda>s. unat (in_e s - in_w s))"
    using unat_minus_one [of "in_e s - in_w s"] by (simp add: unat_gt_0)
qed simp

declare kill_line.simps [simp del]

text \<open>
  One character of \<^verbatim>\<open>consoleintr\<close>. Control-Z reboots the machine. \<open>pd\<close> is \<^verbatim>\<open>procdump\<close>, which lists the
  processes on the screen.
\<close>

definition consolechar ::
  "('a consst_scheme \<Rightarrow> 'a consst_scheme option) \<Rightarrow> byte \<Rightarrow> 'a consst_scheme \<Rightarrow> 'a consst_scheme option" where
  "consolechar pd c s =
     (if c = 26 then None
      else if c = 16 then pd s
      else if c = 21 then kill_line s
      else if c = 8 \<or> c = 127 then
        if in_e s \<noteq> in_w s then consputc BACKSPACE (s\<lparr>in_e := in_e s - 1\<rparr>) else Some s
      else if c \<noteq> 0 \<and> unat (in_e s - in_r s) < INPUT_BUF then do {
        let c = (if c = 13 then 10 else c);
        let s = s\<lparr>in_buf := (in_buf s)[unat (in_e s) mod INPUT_BUF := c], in_e := in_e s + 1\<rparr>;
        s \<leftarrow> consputc (Byte c) s;
        if c = 10 \<or> c = 4 \<or> in_e s = in_r s + of_nat INPUT_BUF
          then Some (s\<lparr>in_w := in_e s\<rparr>) else Some s
      } else Some s)"

fun consoleintr ::
  "('a consst_scheme \<Rightarrow> 'a consst_scheme option) \<Rightarrow> byte list \<Rightarrow> 'a consst_scheme \<Rightarrow> 'a consst_scheme option" where
  "consoleintr pd [] s = Some s"
| "consoleintr pd (c # cs) s = do { s \<leftarrow> consolechar pd c s; consoleintr pd cs s }"

text \<open>
  The loop of \<^verbatim>\<open>consoleread\<close>: whether the process was killed, the value of \<^verbatim>\<open>n\<close> at the end, and the
  bytes stored to \<^verbatim>\<open>dst\<close>. With no input it sleeps.
\<close>

fun console_copy :: "nat \<Rightarrow> nat \<Rightarrow> 'a consst_scheme \<Rightarrow> ((bool \<times> nat \<times> byte list) \<times> 'a consst_scheme) option" where
  "console_copy target 0 s = Some ((False, 0, []), s)"
| "console_copy target (Suc n) s =
     (if in_r s = in_w s then (if p_killed s then Some ((True, Suc n, []), s) else blocked)
      else
        let c = in_buf s ! (unat (in_r s) mod INPUT_BUF); s1 = s\<lparr>in_r := in_r s + 1\<rparr> in
        if c = 4 then Some ((False, Suc n, []), if Suc n < target then s else s1)
        else if c = 10 then Some ((False, n, [c]), s1)
        else do { ((k, m, cs), s) \<leftarrow> console_copy target n s1; Some ((k, m, c # cs), s) })"

section \<open>The line discipline\<close>

text \<open>
  The ring buffer as a list: the bytes from the read index to the edit index. Those before the
  write index are complete and can be read, the rest is the line that is being edited.
\<close>

definition pending :: "'a consst_scheme \<Rightarrow> byte list" where
  "pending s = map (\<lambda>i. in_buf s ! (unat (in_r s + of_nat i) mod INPUT_BUF)) [0..<unat (in_e s - in_r s)]"

definition complete :: "'a consst_scheme \<Rightarrow> byte list" where
  "complete s = take (unat (in_w s - in_r s)) (pending s)"

definition editing :: "'a consst_scheme \<Rightarrow> byte list" where
  "editing s = drop (unat (in_w s - in_r s)) (pending s)"

definition cons_inv :: "'a consst_scheme \<Rightarrow> bool" where
  "cons_inv s \<longleftrightarrow> length (in_buf s) = INPUT_BUF \<and> unat (in_w s - in_r s) \<le> unat (in_e s - in_r s) \<and>
     unat (in_e s - in_r s) \<le> INPUT_BUF \<and> 10 \<notin> set (editing s) \<and> length (crt s) = 25 * 80 \<and> cursor s < 24 * 80"

text \<open>What typing a character does to complete and edited input.\<close>

definition line_step :: "byte \<Rightarrow> byte list \<times> byte list \<Rightarrow> byte list \<times> byte list" where
  "line_step c = (\<lambda>(done, line).
     if c = 16 then (done, line)
     else if c = 21 then (done, [])
     else if c = 8 \<or> c = 127 then (done, butlast line)
     else if c = 0 \<or> length done + length line \<ge> INPUT_BUF then (done, line)
     else
       let c = (if c = 13 then 10 else c); line = line @ [c] in
       if c = 10 \<or> c = 4 \<or> length done + length line = INPUT_BUF then (done @ line, []) else (done, line))"

lemma next_row: "p < 24 * 80 \<Longrightarrow> p + (80 - p mod 80) \<le> 24 * (80 :: nat)"
proof -
  assume "p < 24 * 80"
  then have "p div 80 < 24" by (simp add: less_mult_imp_div_less)
  moreover have "p + (80 - p mod 80) = 80 * (p div 80) + 80"
    using mult_div_mod_eq [of 80 p] mod_less_divisor [of 80 p] by linarith
  ultimately show ?thesis by linarith
qed

lemma cgaputc_ok:
  assumes scr: "length (crt s) = 25 * 80" and pos: "cursor s < 24 * 80"
  shows "\<exists>t. cgaputc c s = Some t \<and> length (crt t) = 25 * 80 \<and> cursor t < 24 * 80"
proof -
  obtain p x where 1: "(case c of
      BACKSPACE \<Rightarrow> Some (if cursor s > 0 then cursor s - 1 else cursor s, crt s)
    | Byte b \<Rightarrow>
        if b = 10 then Some (cursor s + (80 - cursor s mod 80), crt s)
        else if cursor s < length (crt s) then Some (cursor s + 1, (crt s)[cursor s := ucast b OR 0x0700])
        else None) = Some (p, x)" "p \<le> 24 * 80" "length x = 25 * 80"
  proof (cases c)
    case (Byte b)
    then show ?thesis using that scr pos next_row [OF pos] by (cases "b = 10") auto
  next
    case BACKSPACE
    then show ?thesis using that scr pos by (cases "0 < cursor s") auto
  qed
  show ?thesis
  proof (cases "p = 24 * 80")
    case True
    then show ?thesis using 1 by (simp add: cgaputc_def Let_def)
  next
    case False
    then have "p < 24 * 80" "p div 80 < 24" using 1(2) by (simp_all add: less_mult_imp_div_less)
    then show ?thesis using 1 by (simp add: cgaputc_def Let_def)
  qed
qed

lemma consputc_ok:
  assumes "length (crt s) = 25 * 80" "cursor s < 24 * 80"
  shows "\<exists>t. consputc c s = Some t \<and> length (crt t) = 25 * 80 \<and> cursor t < 24 * 80"
  unfolding consputc_def
  by (rule cgaputc_ok) (use assms in \<open>auto simp: uartputc_def split: conschar.splits\<close>)

lemma length_pending [simp]: "length (pending s) = unat (in_e s - in_r s)"
  by (simp add: pending_def)

lemma complete_editing: "complete s @ editing s = pending s"
  by (simp add: complete_def editing_def)

lemma length_complete: "cons_inv s \<Longrightarrow> length (complete s) = unat (in_w s - in_r s)"
  by (simp add: complete_def cons_inv_def min_def)

lemma length_editing: "cons_inv s \<Longrightarrow> length (editing s) = unat (in_e s - in_r s) - unat (in_w s - in_r s)"
  by (simp add: editing_def)

lemma editing_empty_iff: "cons_inv s \<Longrightarrow> editing s = [] \<longleftrightarrow> in_e s = in_w s"
proof -
  assume i: "cons_inv s"
  have "editing s = [] \<longleftrightarrow> unat (in_e s - in_r s) = unat (in_w s - in_r s)"
    using i by (auto simp: editing_def cons_inv_def)
  also have "\<dots> \<longleftrightarrow> in_e s = in_w s" by (simp flip: word_unat_eq_iff)
  finally show ?thesis .
qed

lemma pending_cong:
  "in_buf t = in_buf s \<Longrightarrow> in_r t = in_r s \<Longrightarrow> in_w t = in_w s \<Longrightarrow> in_e t = in_e s \<Longrightarrow>
   pending t = pending s \<and> complete t = complete s \<and> editing t = editing s"
  by (simp add: pending_def complete_def editing_def)

text \<open>Moving the edit index back drops the last byte.\<close>

lemma pending_back:
  assumes "in_e s \<noteq> in_r s"
  shows "pending (s\<lparr>in_e := in_e s - 1\<rparr>) = butlast (pending s)"
proof -
  let ?n = "unat (in_e s - in_r s)"
  have d: "in_e s - 1 - in_r s = (in_e s - in_r s) - 1" "in_e s - in_r s \<noteq> 0" using assms by auto
  have n: "unat (in_e s - 1 - in_r s) = ?n - 1" unfolding d(1) by (rule unat_minus_one [OF d(2)])
  have "butlast [0..<?n] = [0..<?n - 1]" by (cases ?n) auto
  then show ?thesis by (simp add: pending_def n map_butlast [symmetric])
qed

lemma ring_index: "unat (r + of_nat i :: u32) mod INPUT_BUF = (unat r + i) mod INPUT_BUF"
proof -
  have "unat (r + of_nat i) = (unat r + i mod 2 ^ 32) mod 2 ^ 32"
    by (simp add: unat_word_ariths unat_of_nat)
  also have "\<dots> mod INPUT_BUF = (unat r + i mod 2 ^ 32) mod INPUT_BUF" by (rule mod_mod_cancel) simp
  also have "\<dots> = (unat r + i mod 2 ^ 32 mod INPUT_BUF) mod INPUT_BUF" by (rule mod_add_right_eq [symmetric])
  also have "i mod 2 ^ 32 mod INPUT_BUF = i mod INPUT_BUF" by (rule mod_mod_cancel) simp
  also have "(unat r + i mod INPUT_BUF) mod INPUT_BUF = (unat r + i) mod INPUT_BUF" by (rule mod_add_right_eq)
  finally show ?thesis .
qed

lemma ring_index_inj: "i < n \<Longrightarrow> n < INPUT_BUF \<Longrightarrow> (a + i) mod INPUT_BUF \<noteq> (a + n) mod INPUT_BUF" for a :: nat
  using mod_eq_dvd_iff_nat [of "a + i" "a + n" INPUT_BUF] nat_dvd_not_less [of "n - i" INPUT_BUF] by auto

text \<open>Storing at the edit index and moving it on appends a byte.\<close>

lemma pending_store:
  assumes "length (in_buf s) = INPUT_BUF" and n: "unat (in_e s - in_r s) < INPUT_BUF"
  shows "pending (s\<lparr>in_buf := (in_buf s)[unat (in_e s) mod INPUT_BUF := c], in_e := in_e s + 1\<rparr>) = pending s @ [c]"
proof -
  let ?n = "unat (in_e s - in_r s)" and ?r = "in_r s"
  have e: "in_e s = ?r + of_nat ?n" by simp
  have "unat (in_e s + 1 - ?r) = unat (in_e s - ?r + 1)" by (simp add: algebra_simps)
  also have "\<dots> = Suc ?n" using n by (simp add: unat_word_ariths)
  finally have len: "unat (in_e s + 1 - ?r) = Suc ?n" .
  have ei: "unat (in_e s) mod INPUT_BUF = (unat ?r + ?n) mod INPUT_BUF"
    using ring_index [of ?r ?n] e by simp
  have "(in_buf s)[unat (in_e s) mod INPUT_BUF := c] ! (unat (?r + of_nat i) mod INPUT_BUF) =
      (if i = ?n then c else in_buf s ! (unat (?r + of_nat i) mod INPUT_BUF))" if "i \<le> ?n" for i
    using ring_index_inj [of i ?n "unat ?r"] n that assms(1) by (auto simp: ring_index ei)
  then show ?thesis using assms(1) by (auto simp: pending_def len)
qed

lemma last_editing:
  assumes inv: "cons_inv s" and ne: "in_e s \<noteq> in_w s"
  shows "last (editing s) = in_buf s ! (unat (in_e s - 1) mod INPUT_BUF)"
proof -
  let ?n = "unat (in_e s - in_r s)"
  have "editing s \<noteq> []" using editing_empty_iff [OF inv] ne by simp
  then have "last (editing s) = last (pending s)" "?n \<noteq> 0" by (auto simp: editing_def)
  then have "last (editing s) = in_buf s ! (unat (in_r s + of_nat (?n - 1)) mod INPUT_BUF)"
    by (simp add: pending_def last_map)
  moreover have "of_nat (?n - 1) = in_e s - in_r s - 1" using \<open>?n \<noteq> 0\<close> by (simp add: of_nat_diff)
  then have "in_r s + of_nat (?n - 1) = in_e s - 1" by simp
  ultimately show ?thesis by (simp only:)
qed

text \<open>The invariant in terms of the two lists.\<close>

lemma cons_invI:
  assumes "length (in_buf s) = INPUT_BUF" "length (crt s) = 25 * 80" "cursor s < 24 * 80"
    and "unat (in_w s - in_r s) \<le> unat (in_e s - in_r s)" "unat (in_e s - in_r s) \<le> INPUT_BUF" "10 \<notin> set (editing s)"
  shows "cons_inv s"
  using assms by (simp add: cons_inv_def)

lemma erase_step:
  assumes inv: "cons_inv s" and ne: "in_e s \<noteq> in_w s"
  obtains t where "consputc BACKSPACE (s\<lparr>in_e := in_e s - 1\<rparr>) = Some t" "cons_inv t" "complete t = complete s"
    "editing t = butlast (editing s)" "in_r t = in_r s" "in_w t = in_w s" "p_killed t = p_killed s"
    "in_e t = in_e s - 1" "in_buf t = in_buf s"
proof -
  let ?s = "s\<lparr>in_e := in_e s - 1\<rparr>" and ?e = "unat (in_e s - in_r s)" and ?w = "unat (in_w s - in_r s)"
  obtain t where t: "consputc BACKSPACE ?s = Some t" "length (crt t) = 25 * 80" "cursor t < 24 * 80"
    using consputc_ok [of ?s] inv by (auto simp: cons_inv_def)
  note f = consputc_frame [OF t(1)]
  have "?w \<noteq> ?e" using ne by (simp flip: word_unat_eq_iff)
  then have we: "?w < ?e" using inv by (simp add: cons_inv_def)
  then have er: "in_e s \<noteq> in_r s" by auto
  have e1: "unat (in_e s - 1 - in_r s) = ?e - 1"
  proof -
    have q: "in_e s - 1 - in_r s = (in_e s - in_r s) - 1" by simp
    show ?thesis unfolding q by (rule unat_minus_one) (use er in simp)
  qed
  note p = pending_cong [of t ?s] and b = pending_back [OF er]
  have c: "complete t = complete s"
    using p f b we by (simp add: complete_def take_butlast)
  have d: "editing t = butlast (editing s)"
    using p f b by (simp add: editing_def drop_butlast)
  have "set (editing t) \<subseteq> set (editing s)" unfolding d by (auto dest: in_set_butlastD)
  then have "cons_inv t"
    using inv t f e1 we by (auto simp: cons_inv_def)
  then show thesis using that t(1) c d f by simp
qed

lemma kill_line_step:
  assumes "cons_inv s"
  shows "\<exists>t. kill_line s = Some t \<and> cons_inv t \<and> complete t = complete s \<and> editing t = [] \<and> in_r t = in_r s
    \<and> p_killed t = p_killed s"
  using assms
proof (induction "unat (in_e s - in_w s)" arbitrary: s rule: less_induct)
  case less
  show ?case
  proof (cases "in_e s = in_w s")
    case True
    then show ?thesis using less.prems editing_empty_iff by (subst kill_line.simps) auto
  next
    case False
    then obtain t where t: "consputc BACKSPACE (s\<lparr>in_e := in_e s - 1\<rparr>) = Some t" "cons_inv t" "complete t = complete s"
      "editing t = butlast (editing s)" "in_r t = in_r s" "in_w t = in_w s" "p_killed t = p_killed s"
      "in_e t = in_e s - 1" "in_buf t = in_buf s"
      by (rule erase_step [OF less.prems])
    have l: "last (editing s) = in_buf s ! (unat (in_e s - 1) mod INPUT_BUF)"
      using last_editing [OF less.prems False] .
    have "editing s \<noteq> []" using False less.prems editing_empty_iff by blast
    then have "last (editing s) \<noteq> 10" using less.prems last_in_set by (fastforce simp: cons_inv_def)
    then have nl: "in_buf s ! (unat (in_e s - 1) mod INPUT_BUF) \<noteq> 10" using l by simp
    have q: "in_e t - in_w t = (in_e s - in_w s) - 1" using t by simp
    have "unat (in_e t - in_w t) < unat (in_e s - in_w s)"
      unfolding q using unat_minus_one [of "in_e s - in_w s"] False by (simp add: unat_gt_0)
    from less.hyps [OF this t(2)] show ?thesis
      using nl False t by (subst kill_line.simps) simp
  qed
qed

lemma store_step:
  assumes inv: "cons_inv s" and room: "unat (in_e s - in_r s) < INPUT_BUF" and c: "c \<noteq> 13"
  defines "u \<equiv> s\<lparr>in_buf := (in_buf s)[unat (in_e s) mod INPUT_BUF := c], in_e := in_e s + 1\<rparr>"
  obtains t where "consputc (Byte c) u = Some t" "in_r t = in_r s" "in_w t = in_w s" "in_e t = in_e s + 1"
    "p_killed t = p_killed s" "pending t = pending s @ [c]" "length (in_buf t) = INPUT_BUF"
    "length (crt t) = 25 * 80" "cursor t < 24 * 80"
proof -
  obtain t where t: "consputc (Byte c) u = Some t" "length (crt t) = 25 * 80" "cursor t < 24 * 80"
    using consputc_ok [of u "Byte c"] inv by (auto simp: u_def cons_inv_def)
  note f = consputc_frame [OF t(1)]
  have "pending t = pending u" using pending_cong [of t u] f by simp
  also have "\<dots> = pending s @ [c]" unfolding u_def using inv by (intro pending_store [OF _ room]) (simp add: cons_inv_def)
  finally show thesis using that t f inv by (simp add: u_def cons_inv_def)
qed

lemma unat_edit_next:
  "unat (in_e s - in_r s) < INPUT_BUF \<Longrightarrow> unat (in_e s + 1 - in_r s) = Suc (unat (in_e s - in_r s))"
proof -
  assume a: "unat (in_e s - in_r s) < INPUT_BUF"
  have q: "in_e s + 1 - in_r s = in_e s - in_r s + 1" by simp
  show ?thesis unfolding q using a by (simp add: unat_word_ariths)
qed

lemma ring_full_iff: "in_e s = in_r s + of_nat INPUT_BUF \<longleftrightarrow> unat (in_e s - in_r s) = INPUT_BUF"
proof -
  have "in_e s = in_r s + of_nat INPUT_BUF \<longleftrightarrow> in_e s - in_r s = of_nat INPUT_BUF" by (auto simp: algebra_simps)
  also have "\<dots> \<longleftrightarrow> unat (in_e s - in_r s) = INPUT_BUF" by (simp add: word_unat_eq_iff)
  finally show ?thesis .
qed

lemma char_step:
  assumes inv: "cons_inv s" and c: "c \<notin> {26, 16, 21, 8, 127, 0}" and room: "unat (in_e s - in_r s) < INPUT_BUF"
  shows "\<exists>t. consolechar pd c s = Some t \<and> cons_inv t \<and> in_r t = in_r s \<and> p_killed t = p_killed s \<and>
    (complete t, editing t) = line_step c (complete s, editing s)"
proof -
  let ?c = "if c = 13 then 10 else c" and ?w = "unat (in_w s - in_r s)"
  have "?c \<noteq> 13" by simp
  obtain t where t: "consputc (Byte ?c) (s\<lparr>in_buf := (in_buf s)[unat (in_e s) mod INPUT_BUF := ?c], in_e := in_e s + 1\<rparr>) = Some t"
    "in_r t = in_r s" "in_w t = in_w s" "in_e t = in_e s + 1" "p_killed t = p_killed s" "pending t = pending s @ [?c]"
    "length (in_buf t) = INPUT_BUF" "length (crt t) = 25 * 80" "cursor t < 24 * 80"
    by (rule store_step [OF inv room \<open>?c \<noteq> 13\<close>])
  have e: "unat (in_e t - in_r t) = Suc (unat (in_e s - in_r s))" using unat_edit_next [OF room] t by simp
  have w: "?w \<le> unat (in_e s - in_r s)" using inv by (simp add: cons_inv_def)
  have l: "length (complete s) + length (editing s) = unat (in_e s - in_r s)"
    using arg_cong [OF complete_editing [of s], of length] by simp
  let ?commit = "?c = 10 \<or> ?c = 4 \<or> in_e t = in_r t + of_nat INPUT_BUF"
  have full: "in_e t = in_r t + of_nat INPUT_BUF \<longleftrightarrow> Suc (length (complete s) + length (editing s)) = INPUT_BUF"
    unfolding ring_full_iff e l ..
  have run: "consolechar pd c s = Some (if ?commit then t\<lparr>in_w := in_e t\<rparr> else t)"
    using c room t(1) by (auto simp: consolechar_def Let_def)
  show ?thesis
  proof (cases ?commit)
    case True
    let ?t = "t\<lparr>in_w := in_e t\<rparr>"
    have p: "pending ?t = pending t" by (simp add: pending_def)
    have "complete ?t = pending t" "editing ?t = []" using p by (simp_all add: complete_def editing_def)
    moreover have "pending t = complete s @ editing s @ [?c]" using t(6) complete_editing [of s] by simp
    ultimately show ?thesis
      using run True t e room c full l by (auto simp: line_step_def Let_def cons_inv_def)
  next
    case False
    have "complete t = complete s" "editing t = editing s @ [?c]"
      using t w by (simp_all add: complete_def editing_def)
    then show ?thesis
      using run False t e w room c full l inv by (auto simp: line_step_def Let_def cons_inv_def)
  qed
qed

lemma consolechar_step:
  assumes inv: "cons_inv s" and c: "c \<noteq> 26" "c \<noteq> 16"
  shows "\<exists>t. consolechar pd c s = Some t \<and> cons_inv t \<and> in_r t = in_r s \<and> p_killed t = p_killed s \<and>
    (complete t, editing t) = line_step c (complete s, editing s)"
proof -
  have l: "length (complete s) + length (editing s) = unat (in_e s - in_r s)"
    using arg_cong [OF complete_editing [of s], of length] by simp
  consider (kill) "c = 21" | (erase) "c = 8 \<or> c = 127" | (drop) "c \<notin> {21, 8, 127}" "c = 0 \<or> unat (in_e s - in_r s) \<ge> INPUT_BUF"
    | (char) "c \<notin> {26, 16, 21, 8, 127, 0}" "unat (in_e s - in_r s) < INPUT_BUF"
    using c by force
  then show ?thesis
  proof cases
    case kill
    then show ?thesis using kill_line_step [OF inv] by (auto simp: consolechar_def line_step_def)
  next
    case erase
    show ?thesis
    proof (cases "in_e s = in_w s")
      case True
      then have "editing s = []" using editing_empty_iff [OF inv] by simp
      then show ?thesis using erase True inv by (auto simp: consolechar_def line_step_def)
    next
      case False
      then show ?thesis using erase by (auto simp: consolechar_def line_step_def intro: erase_step [OF inv])
    qed
  next
    case drop
    then show ?thesis using c inv l by (auto simp: consolechar_def line_step_def)
  next
    case char
    then show ?thesis by (rule char_step [OF inv])
  qed
qed

lemma consoleintr_steps:
  assumes "cons_inv s" and "26 \<notin> set cs" and "16 \<notin> set cs"
  shows "\<exists>t. consoleintr pd cs s = Some t \<and> cons_inv t \<and> in_r t = in_r s \<and> p_killed t = p_killed s \<and>
    (complete t, editing t) = fold line_step cs (complete s, editing s)"
  using assms
proof (induction cs arbitrary: s)
  case (Cons c cs)
  then obtain t where t: "consolechar pd c s = Some t" "cons_inv t" "in_r t = in_r s" "p_killed t = p_killed s"
    "(complete t, editing t) = line_step c (complete s, editing s)"
    using consolechar_step [of s c pd] by auto
  then show ?case using Cons.IH [OF t(2)] Cons.prems by auto
qed simp

section \<open>Reading\<close>

text \<open>What a read of up to \<open>n\<close> bytes takes from the complete input; it waits if that runs out.\<close>

fun take_line :: "nat \<Rightarrow> nat \<Rightarrow> byte list \<Rightarrow> (nat \<times> byte list \<times> byte list) option" where
  "take_line target 0 ds = Some (0, [], ds)"
| "take_line target (Suc n) [] = None"
| "take_line target (Suc n) (c # ds) =
     (if c = 4 then Some (Suc n, [], if Suc n < target then c # ds else ds)
      else if c = 10 then Some (n, [c], ds)
      else do { (m, bs, rest) \<leftarrow> take_line target n ds; Some (m, c # bs, rest) })"

lemma pending_advance:
  assumes "in_e s \<noteq> in_r s"
  shows "pending s = in_buf s ! (unat (in_r s) mod INPUT_BUF) # pending (s\<lparr>in_r := in_r s + 1\<rparr>)"
proof -
  let ?n = "unat (in_e s - in_r s)" and ?f = "\<lambda>r i. in_buf s ! (unat (r + of_nat i) mod INPUT_BUF)"
  have "in_e s - in_r s \<noteq> 0" using assms by simp
  then have n: "?n = Suc (unat (in_e s - in_r s - 1))" using unat_minus_one [of "in_e s - in_r s"] by (simp add: unat_gt_0)
  have q: "in_e s - (in_r s + 1) = in_e s - in_r s - 1" by simp
  have u: "map (?f (in_r s)) [0..<Suc m] = ?f (in_r s) 0 # map (?f (in_r s + 1)) [0..<m]" for m
  proof -
    have "[0..<Suc m] = 0 # map Suc [0..<m]" by (simp add: upt_conv_Cons map_Suc_upt)
    then show ?thesis by (simp add: comp_def add.assoc)
  qed
  show ?thesis unfolding pending_def n u by (simp add: q)
qed

lemma read_step:
  assumes inv: "cons_inv s" and ne: "in_r s \<noteq> in_w s"
  defines "t \<equiv> s\<lparr>in_r := in_r s + 1\<rparr>"
  shows "cons_inv t" "complete s = in_buf s ! (unat (in_r s) mod INPUT_BUF) # complete t" "editing t = editing s"
proof -
  let ?w = "unat (in_w s - in_r s)" and ?e = "unat (in_e s - in_r s)"
  have w0: "in_w s - in_r s \<noteq> 0" using ne by simp
  then have w: "?w = Suc (unat (in_w s - in_r s - 1))" using unat_minus_one by (simp add: unat_gt_0)
  have "?w \<le> ?e" using inv by (simp add: cons_inv_def)
  then have e0: "in_e s - in_r s \<noteq> 0" using w by (auto simp: unat_eq_0)
  then have e: "?e = Suc (unat (in_e s - in_r s - 1))" using unat_minus_one by (simp add: unat_gt_0)
  have q: "in_w s - (in_r s + 1) = in_w s - in_r s - 1" "in_e s - (in_r s + 1) = in_e s - in_r s - 1" by simp_all
  have er: "in_e s \<noteq> in_r s" using e0 by simp
  note p = pending_advance [OF er, folded t_def]
  show c: "complete s = in_buf s ! (unat (in_r s) mod INPUT_BUF) # complete t"
    unfolding complete_def p w by (simp add: t_def q)
  show d: "editing t = editing s" unfolding editing_def p w by (simp add: t_def q)
  show "cons_inv t" using inv d w e by (simp add: cons_inv_def t_def q)
qed

lemma console_copy_line:
  assumes "cons_inv s" and "take_line target n (complete s) = Some (m, bs, rest)"
  shows "\<exists>t. console_copy target n s = Some ((False, m, bs), t) \<and> cons_inv t \<and> complete t = rest \<and> editing t = editing s"
  using assms
proof (induction n arbitrary: s m bs)
  case (Suc n)
  then obtain c ds where cs: "complete s = c # ds" by (cases "complete s") auto
  have "length (complete s) = unat (in_w s - in_r s)" by (rule length_complete [OF Suc.prems(1)])
  then have ne: "in_r s \<noteq> in_w s" using cs by auto
  let ?t = "s\<lparr>in_r := in_r s + 1\<rparr>"
  note r = read_step [OF Suc.prems(1) ne]
  have c: "in_buf s ! (unat (in_r s) mod INPUT_BUF) = c" "complete ?t = ds" using r(2) cs by simp_all
  show ?case
  proof (cases "c = 4 \<or> c = 10")
    case True
    then show ?thesis using Suc.prems r c cs ne by (auto simp: Let_def split: if_splits)
  next
    case False
    then obtain bs' where b: "take_line target n ds = Some (m, bs', rest)" "bs = c # bs'"
      using Suc.prems(2) cs by (auto simp: bind_eq_Some_conv)
    then obtain t where "console_copy target n ?t = Some ((False, m, bs'), t)" "cons_inv t" "complete t = rest"
      "editing t = editing s"
      using Suc.IH [OF r(1), of m bs'] c(2) r(3) by auto
    then show ?thesis using b c(1) False ne by (simp add: Let_def)
  qed
qed simp

text \<open>
  C27. The interrupt handler and the line editor of the console implement a line discipline on
  lists: for any typed characters except Control-Z and Control-P the handler returns, keeps the
  ring buffer within bounds, and has the effect of \<open>line_step\<close> on complete and edited input.
\<close>

theorem consoleintr_refines:
  assumes "cons_inv s" and "26 \<notin> set cs" and "16 \<notin> set cs"
  shows "\<exists>t. consoleintr pd cs s = Some t \<and> cons_inv t \<and>
    (complete t, editing t) = fold line_step cs (complete s, editing s)"
  using consoleintr_steps [OF assms] by blast

definition cons_boot :: consst where
  "cons_boot = logst.extend (log_boot empty_disk 1000 2 30)
     \<lparr>p_killed = False, uart = [], crt = replicate (25 * 80) 0, cursor = 0, in_buf = replicate INPUT_BUF 0,
      in_r = 0, in_w = 0, in_e = 0\<rparr>"

lemma cons_boot_inv: "cons_inv cons_boot" "complete cons_boot = []" "editing cons_boot = []"
  by (simp_all add: cons_boot_def logst.defs cons_inv_def editing_def complete_def pending_def)

theorem consoleintr_refines_witness:
  "\<exists>t. consoleintr Some [108, 120, 8, 115, 13, 99] cons_boot = Some t \<and> complete t = [108, 115, 10] \<and> editing t = [99]"
  using consoleintr_refines [of cons_boot "[108, 120, 8, 115, 13, 99]" Some]
  by (auto simp: cons_boot_inv line_step_def)

text \<open>
  C35. A read of the console takes the bytes up to and including the next newline, at most as many
  as asked for; Control-D ends the input, and is kept for the next read when bytes were already
  copied. What is being edited is not touched.
\<close>

theorem console_copy_refines:
  assumes "cons_inv s" and "take_line target n (complete s) = Some (m, bs, rest)"
  shows "\<exists>t. console_copy target n s = Some ((False, m, bs), t) \<and> cons_inv t \<and> complete t = rest \<and> editing t = editing s"
  by (rule console_copy_line [OF assms])

theorem console_copy_refines_witness:
  "\<exists>s t. consoleintr Some [108, 115, 13] cons_boot = Some s \<and> console_copy 9 9 s = Some ((False, 6, [108, 115, 10]), t)"
proof -
  obtain s where s: "consoleintr Some [108, 115, 13] cons_boot = Some s" "cons_inv s" "complete s = [108, 115, 10]"
    using consoleintr_steps [of cons_boot "[108, 115, 13]" Some] by (auto simp: cons_boot_inv line_step_def)
  have "take_line 9 9 (complete s) = Some (6, [108, 115, 10], [])" unfolding s(3) by code_simp
  from console_copy_refines [OF s(2) this] s(1) show ?thesis by blast
qed

end
