(* ===== verification/Xv6_Fs.thy ===== *)
theory Xv6_Fs
  imports Xv6_Console
begin

text \<open>
  The kernel file system of \<^verbatim>\<open>fs.c\<close>: the block allocator, the inode cache, file contents,
  directories and path names, over the buffer cache and the log. \<^verbatim>\<open>consoleread\<close> and
  \<^verbatim>\<open>consolewrite\<close> of \<^verbatim>\<open>console.c\<close>, which \<^verbatim>\<open>readi\<close> and \<^verbatim>\<open>writei\<close> reach through \<^verbatim>\<open>devsw\<close>, are here too,
  because they unlock and lock an inode.

  The state adds the super block, the inode cache and the current directory of the running
  process. A \<^verbatim>\<open>struct inode*\<close> is an index into the cache, a null pointer a \<open>None\<close> in a result.
  \<^verbatim>\<open>ip->lock\<close> is its \<^verbatim>\<open>locked\<close> word: in one thread of control, locking a locked inode never
  returns. The spin lock of the cache makes the sections it protects atomic. The loops whose
  counter runs over a range that is fixed before the loop recurse over the list of its values.
\<close>

abbreviation (input) NINODE :: nat where "NINODE \<equiv> 50"
abbreviation (input) NDEV :: int where "NDEV \<equiv> 10"
abbreviation (input) CONSOLE :: int where "CONSOLE \<equiv> 1"

record inode =
  i_dev :: u32
  i_inum :: u32
  i_ref :: int
  i_locked :: bool
  i_valid :: bool
  i_type :: u16
  i_major :: u16
  i_minor :: u16
  i_nlink :: u16
  i_size :: u32
  i_addrs :: "u32 list"

record fsst = consst +
  sb :: superblock
  icache :: "inode list"
  p_cwd :: nat

abbreviation inode_at :: "'a fsst_scheme \<Rightarrow> nat \<Rightarrow> inode" where
  "inode_at s i \<equiv> icache s ! i"

definition upd_inode :: "nat \<Rightarrow> (inode \<Rightarrow> inode) \<Rightarrow> 'a fsst_scheme \<Rightarrow> 'a fsst_scheme" where
  "upd_inode i f s = s\<lparr>icache := (icache s)[i := f (icache s ! i)]\<rparr>"

section \<open>Blocks\<close>

definition bzero :: "u32 \<Rightarrow> u32 \<Rightarrow> 'a fsst_scheme \<Rightarrow> 'a fsst_scheme option" where
  "bzero dev bno s = do {
     (bp, s) \<leftarrow> bread dev bno s;
     let s = set_data bp zero_block s;
     s \<leftarrow> log_write bp s;
     brelse bp s
   }"

text \<open>The inner loop of \<^verbatim>\<open>balloc\<close> looks for the first clear bit below \<^verbatim>\<open>BPB\<close> and the disk size.\<close>

definition find_free_bit :: "nat \<Rightarrow> nat \<Rightarrow> block \<Rightarrow> nat option" where
  "find_free_bit sz b blk = find (\<lambda>bi. bm_free bi blk) [0..<min BPB (sz - b)]"

fun balloc_scan :: "u32 \<Rightarrow> nat list \<Rightarrow> 'a fsst_scheme \<Rightarrow> (u32 \<times> 'a fsst_scheme) option" where
  "balloc_scan dev [] s = panic ''balloc: out of blocks''"
| "balloc_scan dev (b # bs) s = do {
     (bp, s) \<leftarrow> bread dev (BBLOCK (of_nat b) (sb s)) s;
     case find_free_bit (unat (sb_size (sb s))) b (b_data (buf_at s bp)) of
       Some bi \<Rightarrow> do {
         let s = set_data bp (bm_set bi (b_data (buf_at s bp))) s;
         s \<leftarrow> log_write bp s;
         s \<leftarrow> brelse bp s;
         s \<leftarrow> bzero dev (of_nat (b + bi)) s;
         Some (of_nat (b + bi), s)
       }
     | None \<Rightarrow> do {
         s \<leftarrow> brelse bp s;
         balloc_scan dev bs s
       }
   }"

definition bitmap_starts :: "nat \<Rightarrow> nat list" where
  "bitmap_starts sz = map (\<lambda>k. k * BPB) [0..<(sz + BPB - 1) div BPB]"

definition balloc :: "u32 \<Rightarrow> 'a fsst_scheme \<Rightarrow> (u32 \<times> 'a fsst_scheme) option" where
  "balloc dev s = balloc_scan dev (bitmap_starts (unat (sb_size (sb s)))) s"

definition bfree :: "u32 \<Rightarrow> u32 \<Rightarrow> 'a fsst_scheme \<Rightarrow> 'a fsst_scheme option" where
  "bfree dev b s = do {
     (sb', s) \<leftarrow> readsb dev s;
     let s = s\<lparr>sb := sb'\<rparr>;
     (bp, s) \<leftarrow> bread dev (BBLOCK b (sb s)) s;
     let bi = unat b mod BPB;
     if bm_free bi (b_data (buf_at s bp)) then panic ''freeing free block''
     else do {
       let s = set_data bp (bm_clear bi (b_data (buf_at s bp))) s;
       s \<leftarrow> log_write bp s;
       brelse bp s
     }
   }"

section \<open>The inode cache\<close>

definition iinit :: "u32 \<Rightarrow> 'a fsst_scheme \<Rightarrow> 'a fsst_scheme option" where
  "iinit dev s = do {
     (sb', s) \<leftarrow> readsb dev (s\<lparr>icache := map (\<lambda>ip. ip\<lparr>i_locked := False\<rparr>) (icache s)\<rparr>);
     Some (s\<lparr>sb := sb'\<rparr>)
   }"

definition iget :: "u32 \<Rightarrow> u32 \<Rightarrow> 'a fsst_scheme \<Rightarrow> (nat \<times> 'a fsst_scheme) option" where
  "iget dev inum s =
     (case first_idx (\<lambda>ip. i_ref ip > 0 \<and> i_dev ip = dev \<and> i_inum ip = inum) (icache s) of
        Some i \<Rightarrow> Some (i, upd_inode i (\<lambda>ip. ip\<lparr>i_ref := i_ref ip + 1\<rparr>) s)
      | None \<Rightarrow>
        (case first_idx (\<lambda>ip. i_ref ip = 0) (icache s) of
           None \<Rightarrow> panic ''iget: no inodes''
         | Some i \<Rightarrow>
             Some (i, upd_inode i (\<lambda>ip. ip\<lparr>i_dev := dev, i_inum := inum, i_ref := 1, i_valid := False\<rparr>) s)))"

fun ialloc_scan :: "u32 \<Rightarrow> u16 \<Rightarrow> nat list \<Rightarrow> 'a fsst_scheme \<Rightarrow> (nat \<times> 'a fsst_scheme) option" where
  "ialloc_scan dev type [] s = panic ''ialloc: no inodes''"
| "ialloc_scan dev type (inum # is) s = do {
     (bp, s) \<leftarrow> bread dev (IBLOCK (of_nat inum) (sb s)) s;
     if di_type (get_dinode (inum mod IPB) (b_data (buf_at s bp))) = 0 then do {
       let s = set_data bp (put_dinode (inum mod IPB) (zero_dinode\<lparr>di_type := type\<rparr>) (b_data (buf_at s bp))) s;
       s \<leftarrow> log_write bp s;
       s \<leftarrow> brelse bp s;
       iget dev (of_nat inum) s
     } else do {
       s \<leftarrow> brelse bp s;
       ialloc_scan dev type is s
     }
   }"

definition ialloc :: "u32 \<Rightarrow> u16 \<Rightarrow> 'a fsst_scheme \<Rightarrow> (nat \<times> 'a fsst_scheme) option" where
  "ialloc dev type s = ialloc_scan dev type [1..<unat (sb_ninodes (sb s))] s"

definition to_dinode :: "inode \<Rightarrow> dinode" where
  "to_dinode ip = \<lparr>di_type = i_type ip, di_major = i_major ip, di_minor = i_minor ip, di_nlink = i_nlink ip,
     di_size = i_size ip, di_addrs = i_addrs ip\<rparr>"

definition of_dinode :: "dinode \<Rightarrow> inode \<Rightarrow> inode" where
  "of_dinode d ip = ip\<lparr>i_type := di_type d, i_major := di_major d, i_minor := di_minor d, i_nlink := di_nlink d,
     i_size := di_size d, i_addrs := di_addrs d\<rparr>"

definition iupdate :: "nat \<Rightarrow> 'a fsst_scheme \<Rightarrow> 'a fsst_scheme option" where
  "iupdate i s = do {
     let ip = inode_at s i;
     (bp, s) \<leftarrow> bread (i_dev ip) (IBLOCK (i_inum ip) (sb s)) s;
     let s = set_data bp (put_dinode (unat (i_inum ip) mod IPB) (to_dinode ip) (b_data (buf_at s bp))) s;
     s \<leftarrow> log_write bp s;
     brelse bp s
   }"

definition idup :: "nat \<Rightarrow> 'a fsst_scheme \<Rightarrow> nat \<times> 'a fsst_scheme" where
  "idup i s = (i, upd_inode i (\<lambda>ip. ip\<lparr>i_ref := i_ref ip + 1\<rparr>) s)"

definition acquiresleep_inode :: "nat \<Rightarrow> 'a fsst_scheme \<Rightarrow> 'a fsst_scheme option" where
  "acquiresleep_inode i s =
     (if i_locked (inode_at s i) then blocked else Some (upd_inode i (\<lambda>ip. ip\<lparr>i_locked := True\<rparr>) s))"

definition ilock :: "nat \<Rightarrow> 'a fsst_scheme \<Rightarrow> 'a fsst_scheme option" where
  "ilock i s =
     (if i_ref (inode_at s i) < 1 then panic ''ilock''
      else do {
        s \<leftarrow> acquiresleep_inode i s;
        if \<not> i_valid (inode_at s i) then do {
          let ip = inode_at s i;
          (bp, s) \<leftarrow> bread (i_dev ip) (IBLOCK (i_inum ip) (sb s)) s;
          let d = get_dinode (unat (i_inum ip) mod IPB) (b_data (buf_at s bp));
          let s = upd_inode i (of_dinode d) s;
          s \<leftarrow> brelse bp s;
          let s = upd_inode i (\<lambda>ip. ip\<lparr>i_valid := True\<rparr>) s;
          if i_type (inode_at s i) = 0 then panic ''ilock: no type'' else Some s
        } else Some s
      })"

definition iunlock :: "nat \<Rightarrow> 'a fsst_scheme \<Rightarrow> 'a fsst_scheme option" where
  "iunlock i s =
     (if \<not> i_locked (inode_at s i) \<or> i_ref (inode_at s i) < 1 then panic ''iunlock''
      else Some (upd_inode i (\<lambda>ip. ip\<lparr>i_locked := False\<rparr>) s))"

section \<open>File contents\<close>

definition bmap :: "nat \<Rightarrow> nat \<Rightarrow> 'a fsst_scheme \<Rightarrow> (u32 \<times> 'a fsst_scheme) option" where
  "bmap i bn s =
     (if bn < NDIRECT then
        let addr = i_addrs (inode_at s i) ! bn in
        if addr = 0 then do {
          (addr, s) \<leftarrow> balloc (i_dev (inode_at s i)) s;
          Some (addr, upd_inode i (\<lambda>ip. ip\<lparr>i_addrs := (i_addrs ip)[bn := addr]\<rparr>) s)
        } else Some (addr, s)
      else if bn - NDIRECT < NINDIRECT then do {
        let addr = i_addrs (inode_at s i) ! NDIRECT;
        (addr, s) \<leftarrow>
          (if addr = 0 then do {
             (addr, s) \<leftarrow> balloc (i_dev (inode_at s i)) s;
             Some (addr, upd_inode i (\<lambda>ip. ip\<lparr>i_addrs := (i_addrs ip)[NDIRECT := addr]\<rparr>) s)
           } else Some (addr, s));
        (bp, s) \<leftarrow> bread (i_dev (inode_at s i)) addr s;
        let addr = get_addr (bn - NDIRECT) (b_data (buf_at s bp));
        (addr, s) \<leftarrow>
          (if addr = 0 then do {
             (addr, s) \<leftarrow> balloc (i_dev (inode_at s i)) s;
             let s = set_data bp (put_addr (bn - NDIRECT) addr (b_data (buf_at s bp))) s;
             s \<leftarrow> log_write bp s;
             Some (addr, s)
           } else Some (addr, s));
        s \<leftarrow> brelse bp s;
        Some (addr, s)
      } else panic ''bmap: out of range'')"

fun itrunc_direct :: "nat list \<Rightarrow> nat \<Rightarrow> 'a fsst_scheme \<Rightarrow> 'a fsst_scheme option" where
  "itrunc_direct [] i s = Some s"
| "itrunc_direct (k # ks) i s =
     (let a = i_addrs (inode_at s i) ! k in
      if a \<noteq> 0 then do {
        s \<leftarrow> bfree (i_dev (inode_at s i)) a s;
        itrunc_direct ks i (upd_inode i (\<lambda>ip. ip\<lparr>i_addrs := (i_addrs ip)[k := 0]\<rparr>) s)
      } else itrunc_direct ks i s)"

fun itrunc_indirect :: "nat list \<Rightarrow> nat \<Rightarrow> u32 \<Rightarrow> 'a fsst_scheme \<Rightarrow> 'a fsst_scheme option" where
  "itrunc_indirect [] bp dev s = Some s"
| "itrunc_indirect (j # js) bp dev s =
     (let a = get_addr j (b_data (buf_at s bp)) in
      if a \<noteq> 0 then do { s \<leftarrow> bfree dev a s; itrunc_indirect js bp dev s }
      else itrunc_indirect js bp dev s)"

definition itrunc :: "nat \<Rightarrow> 'a fsst_scheme \<Rightarrow> 'a fsst_scheme option" where
  "itrunc i s = do {
     s \<leftarrow> itrunc_direct [0..<NDIRECT] i s;
     s \<leftarrow>
       (let a = i_addrs (inode_at s i) ! NDIRECT; dev = i_dev (inode_at s i) in
        if a \<noteq> 0 then do {
          (bp, s) \<leftarrow> bread dev a s;
          s \<leftarrow> itrunc_indirect [0..<NINDIRECT] bp dev s;
          s \<leftarrow> brelse bp s;
          s \<leftarrow> bfree dev (i_addrs (inode_at s i) ! NDIRECT) s;
          Some (upd_inode i (\<lambda>ip. ip\<lparr>i_addrs := (i_addrs ip)[NDIRECT := 0]\<rparr>) s)
        } else Some s);
     iupdate i (upd_inode i (\<lambda>ip. ip\<lparr>i_size := 0\<rparr>) s)
   }"

definition iput :: "nat \<Rightarrow> 'a fsst_scheme \<Rightarrow> 'a fsst_scheme option" where
  "iput i s = do {
     s \<leftarrow>
       (let ip = inode_at s i in
        if i_ref ip = 1 \<and> i_valid ip \<and> i_nlink ip = 0 then do {
          s \<leftarrow> itrunc i s;
          s \<leftarrow> iupdate i (upd_inode i (\<lambda>ip. ip\<lparr>i_type := 0\<rparr>) s);
          Some (upd_inode i (\<lambda>ip. ip\<lparr>i_valid := False\<rparr>) s)
        } else Some s);
     Some (upd_inode i (\<lambda>ip. ip\<lparr>i_ref := i_ref ip - 1\<rparr>) s)
   }"

definition iunlockput :: "nat \<Rightarrow> 'a fsst_scheme \<Rightarrow> 'a fsst_scheme option" where
  "iunlockput i s = do { s \<leftarrow> iunlock i s; iput i s }"

record stat =
  st_type :: u16
  st_dev :: u32
  st_ino :: u32
  st_nlink :: u16
  st_size :: u32

definition stati :: "inode \<Rightarrow> stat" where
  "stati ip = \<lparr>st_type = i_type ip, st_dev = i_dev ip, st_ino = i_inum ip, st_nlink = i_nlink ip, st_size = i_size ip\<rparr>"

text \<open>The device switch: the console has major number 1 and is the only device.\<close>

definition consoleread :: "nat \<Rightarrow> u32 \<Rightarrow> int \<Rightarrow> 'a fsst_scheme \<Rightarrow> ((int \<times> byte list) \<times> 'a fsst_scheme) option" where
  "consoleread i off n s = do {
     s \<leftarrow> iunlock i s;
     ((dead, m, bs), s) \<leftarrow> console_copy (nat n) (nat n) s;
     s \<leftarrow> ilock i s;
     Some ((if dead then -1 else if n > 0 then n - int m else 0, bs), s)
   }"

definition consolewrite :: "nat \<Rightarrow> u32 \<Rightarrow> byte list \<Rightarrow> int \<Rightarrow> 'a fsst_scheme \<Rightarrow> (int \<times> 'a fsst_scheme) option" where
  "consolewrite i off buf n s =
     (if nat n \<le> length buf then do {
        s \<leftarrow> iunlock i s;
        s \<leftarrow> consputs (take (nat n) buf) s;
        s \<leftarrow> ilock i s;
        Some (n, s)
      } else None)"

definition has_dev :: "u16 \<Rightarrow> bool" where
  "has_dev major \<longleftrightarrow> \<not> (sint major < 0 \<or> sint major \<ge> NDEV \<or> sint major \<noteq> CONSOLE)"

text \<open>
  The copying loops. After the checks in front of them no sum exceeds 32 bits, so that offsets
  and counts are natural numbers here.
\<close>

function readi_loop :: "nat \<Rightarrow> nat \<Rightarrow> nat \<Rightarrow> 'a fsst_scheme \<Rightarrow> (byte list \<times> 'a fsst_scheme) option" where
  "readi_loop i off n s =
     (if n = 0 then Some ([], s)
      else do {
        (addr, s) \<leftarrow> bmap i (off div BSIZE) s;
        (bp, s) \<leftarrow> bread (i_dev (inode_at s i)) addr s;
        let m = min n (BSIZE - off mod BSIZE);
        let bs = cut (off mod BSIZE) m (b_data (buf_at s bp));
        s \<leftarrow> brelse bp s;
        (cs, s) \<leftarrow> readi_loop i (off + m) (n - m) s;
        Some (bs @ cs, s)
      })"
  by pat_completeness auto
termination by (relation "measure (\<lambda>(i, off, n, s). n)") auto

declare readi_loop.simps [simp del]

definition readi :: "nat \<Rightarrow> u32 \<Rightarrow> u32 \<Rightarrow> 'a fsst_scheme \<Rightarrow> ((int \<times> byte list) \<times> 'a fsst_scheme) option" where
  "readi i off n s =
     (let ip = inode_at s i in
      if i_type ip = T_DEV then
        if \<not> has_dev (i_major ip) then Some ((-1, []), s)
        else consoleread i off (sint n) s
      else if off > i_size ip \<or> off + n < off then Some ((-1, []), s)
      else do {
        let n = (if off + n > i_size ip then i_size ip - off else n);
        (bs, s) \<leftarrow> readi_loop i (unat off) (unat n) s;
        Some ((sint n, bs), s)
      })"

function writei_loop :: "nat \<Rightarrow> nat \<Rightarrow> byte list \<Rightarrow> 'a fsst_scheme \<Rightarrow> 'a fsst_scheme option" where
  "writei_loop i off src s =
     (if src = [] then Some s
      else do {
        (addr, s) \<leftarrow> bmap i (off div BSIZE) s;
        (bp, s) \<leftarrow> bread (i_dev (inode_at s i)) addr s;
        let m = min (length src) (BSIZE - off mod BSIZE);
        let s = set_data bp (blit (off mod BSIZE) (take m src) (b_data (buf_at s bp))) s;
        s \<leftarrow> log_write bp s;
        s \<leftarrow> brelse bp s;
        writei_loop i (off + m) (drop m src) s
      })"
  by pat_completeness auto
termination by (relation "measure (\<lambda>(i, off, src, s). length src)") auto

declare writei_loop.simps [simp del]

definition writei :: "nat \<Rightarrow> byte list \<Rightarrow> u32 \<Rightarrow> u32 \<Rightarrow> 'a fsst_scheme \<Rightarrow> (int \<times> 'a fsst_scheme) option" where
  "writei i src off n s =
     (let ip = inode_at s i in
      if i_type ip = T_DEV then
        if \<not> has_dev (i_major ip) then Some (-1, s)
        else consolewrite i off src (sint n) s
      else if off > i_size ip \<or> off + n < off then Some (-1, s)
      else if off + n > of_nat (MAXFILE * BSIZE) then Some (-1, s)
      else if length src < unat n then None
      else do {
        s \<leftarrow> writei_loop i (unat off) (take (unat n) src) s;
        s \<leftarrow>
          (if n > 0 \<and> off + n > i_size (inode_at s i) then
             iupdate i (upd_inode i (\<lambda>ip. ip\<lparr>i_size := off + n\<rparr>) s)
           else Some s);
        Some (sint n, s)
      })"

section \<open>Directories\<close>

definition namecmp :: "byte list \<Rightarrow> byte list \<Rightarrow> int option" where
  "namecmp s t = strncmp s t DIRSIZ"

definition dir_offsets :: "u32 \<Rightarrow> nat list" where
  "dir_offsets sz = map (\<lambda>k. k * dirent_size) [0..<(unat sz + dirent_size - 1) div dirent_size]"

fun dirlookup_scan ::
  "nat list \<Rightarrow> nat \<Rightarrow> byte list \<Rightarrow> 'a fsst_scheme \<Rightarrow> ((nat \<times> nat) option \<times> 'a fsst_scheme) option" where
  "dirlookup_scan [] dp name s = Some (None, s)"
| "dirlookup_scan (off # offs) dp name s = do {
     ((r, bs), s) \<leftarrow> readi dp (of_nat off) (of_nat dirent_size) s;
     if r \<noteq> int dirent_size then panic ''dirlookup read''
     else do {
       let de = decode_dirent bs;
       if de_inum de = 0 then dirlookup_scan offs dp name s
       else do {
         c \<leftarrow> namecmp name (de_name de);
         if c = 0 then do {
           (ip, s) \<leftarrow> iget (i_dev (inode_at s dp)) (ucast (de_inum de)) s;
           Some (Some (ip, off), s)
         } else dirlookup_scan offs dp name s
       }
     }
   }"

text \<open>The result is the inode with the offset of the entry.\<close>

definition dirlookup :: "nat \<Rightarrow> byte list \<Rightarrow> 'a fsst_scheme \<Rightarrow> ((nat \<times> nat) option \<times> 'a fsst_scheme) option" where
  "dirlookup dp name s =
     (if i_type (inode_at s dp) \<noteq> T_DIR then panic ''dirlookup not DIR''
      else dirlookup_scan (dir_offsets (i_size (inode_at s dp))) dp name s)"

text \<open>The offset of the first empty entry, or the end of the directory.\<close>

fun dirlink_slot :: "nat list \<Rightarrow> nat \<Rightarrow> nat \<Rightarrow> 'a fsst_scheme \<Rightarrow> (nat \<times> 'a fsst_scheme) option" where
  "dirlink_slot [] e dp s = Some (e, s)"
| "dirlink_slot (off # offs) e dp s = do {
     ((r, bs), s) \<leftarrow> readi dp (of_nat off) (of_nat dirent_size) s;
     if r \<noteq> int dirent_size then panic ''dirlink read''
     else if de_inum (decode_dirent bs) = 0 then Some (off, s)
     else dirlink_slot offs e dp s
   }"

definition dirlink :: "nat \<Rightarrow> byte list \<Rightarrow> u32 \<Rightarrow> 'a fsst_scheme \<Rightarrow> (int \<times> 'a fsst_scheme) option" where
  "dirlink dp name inum s = do {
     (r, s) \<leftarrow> dirlookup dp name s;
     case r of
       Some (ip, _) \<Rightarrow> do { s \<leftarrow> iput ip s; Some (-1, s) }
     | None \<Rightarrow> do {
         let offs = dir_offsets (i_size (inode_at s dp));
         (off, s) \<leftarrow> dirlink_slot offs (length offs * dirent_size) dp s;
         nm \<leftarrow> strncpy (replicate DIRSIZ 0) name (int DIRSIZ);
         (w, s) \<leftarrow> writei dp (encode_dirent \<lparr>de_inum = ucast inum, de_name = nm\<rparr>) (of_nat off) (of_nat dirent_size) s;
         if w \<noteq> int dirent_size then panic ''dirlink'' else Some (0, s)
       }
   }"

section \<open>Paths\<close>

text \<open>
  \<^verbatim>\<open>skipelem\<close> on the bytes of \<^verbatim>\<open>path\<close> from the pointer on and the array \<^verbatim>\<open>name\<close>. The outer \<open>None\<close> is a
  path without its final zero, the inner one the null pointer.
\<close>

definition skip_slashes :: "byte list \<Rightarrow> byte list" where
  "skip_slashes path = dropWhile (\<lambda>c. c = 47) path"

definition skip_name :: "byte list \<Rightarrow> byte list" where
  "skip_name path = dropWhile (\<lambda>c. c \<noteq> 47 \<and> c \<noteq> 0) path"

definition take_name :: "byte list \<Rightarrow> byte list" where
  "take_name path = takeWhile (\<lambda>c. c \<noteq> 47 \<and> c \<noteq> 0) path"

definition store_name :: "byte list \<Rightarrow> byte list \<Rightarrow> byte list" where
  "store_name el name = (if length el \<ge> DIRSIZ then blit 0 (take DIRSIZ el) name else blit 0 (el @ [0]) name)"

definition skipelem :: "byte list \<Rightarrow> byte list \<Rightarrow> (byte list \<times> byte list) option option" where
  "skipelem path name =
     (let s = skip_slashes path in
      if s = [] then None
      else if hd s = 0 then Some None
      else
        let path = skip_slashes (skip_name s) in
        if path = [] then None else Some (Some (path, store_name (take_name s) name)))"

lemma skipelem_SomeD:
  assumes "skipelem path name = Some (Some (path', name'))"
  shows "skip_slashes path \<noteq> []" "hd (skip_slashes path) \<noteq> 0" "hd (skip_slashes path) \<noteq> 47"
    "path' = skip_slashes (skip_name (skip_slashes path))" "path' \<noteq> []"
    "name' = store_name (take_name (skip_slashes path)) name"
proof -
  show n: "skip_slashes path \<noteq> []" and "hd (skip_slashes path) \<noteq> 0"
    and "path' = skip_slashes (skip_name (skip_slashes path))" "path' \<noteq> []"
      "name' = store_name (take_name (skip_slashes path)) name"
    using assms by (auto simp: skipelem_def Let_def split: if_splits)
  show "hd (skip_slashes path) \<noteq> 47"
    using hd_dropWhile [of "\<lambda>c. c = 47" path] n by (simp add: skip_slashes_def)
qed

lemma length_skip_name: "p \<noteq> [] \<Longrightarrow> hd p \<noteq> 47 \<Longrightarrow> hd p \<noteq> 0 \<Longrightarrow> length (skip_name p) < length p"
  using length_dropWhile_le [of "\<lambda>c. c \<noteq> 47 \<and> c \<noteq> 0" "tl p"] by (cases p) (auto simp: skip_name_def)

lemma skipelem_shorter:
  assumes "skipelem path name = Some (Some (path', name'))"
  shows "length path' < length path"
proof -
  let ?p = "skip_slashes path"
  note d = skipelem_SomeD [OF assms]
  have "length path' \<le> length (skip_name ?p)" unfolding d(4) by (simp add: skip_slashes_def length_dropWhile_le)
  also have "\<dots> < length ?p" by (rule length_skip_name [OF d(1,3,2)])
  also have "\<dots> \<le> length path" by (simp add: skip_slashes_def length_dropWhile_le)
  finally show ?thesis .
qed

function namex_loop ::
  "byte list \<Rightarrow> bool \<Rightarrow> byte list \<Rightarrow> nat \<Rightarrow> 'a fsst_scheme \<Rightarrow> ((nat option \<times> byte list) \<times> 'a fsst_scheme) option" where
  "namex_loop path par name ip s =
     (case skipelem path name of
        None \<Rightarrow> None
      | Some None \<Rightarrow> if par then do { s \<leftarrow> iput ip s; Some ((None, name), s) } else Some ((Some ip, name), s)
      | Some (Some (path, name)) \<Rightarrow> do {
          s \<leftarrow> ilock ip s;
          if i_type (inode_at s ip) \<noteq> T_DIR then do { s \<leftarrow> iunlockput ip s; Some ((None, name), s) }
          else if par \<and> hd path = 0 then do { s \<leftarrow> iunlock ip s; Some ((Some ip, name), s) }
          else do {
            (r, s) \<leftarrow> dirlookup ip name s;
            s \<leftarrow> iunlockput ip s;
            case r of
              None \<Rightarrow> Some ((None, name), s)
            | Some (next, _) \<Rightarrow> namex_loop path par name next s
          }
        })"
  by pat_completeness auto
termination
  by (relation "measure (\<lambda>(path, par, name, ip, s). length path)") (auto dest: skipelem_shorter)

declare namex_loop.simps [simp del]

text \<open>\<^verbatim>\<open>namex\<close> returns the inode, and what it has stored in \<^verbatim>\<open>name\<close>.\<close>

definition namex ::
  "byte list \<Rightarrow> bool \<Rightarrow> byte list \<Rightarrow> 'a fsst_scheme \<Rightarrow> ((nat option \<times> byte list) \<times> 'a fsst_scheme) option" where
  "namex path par name s =
     (case path of
        [] \<Rightarrow> None
      | c # _ \<Rightarrow> do {
          (ip, s) \<leftarrow> (if c = 47 then iget ROOTDEV ROOTINO s else Some (idup (p_cwd s) s));
          namex_loop path par name ip s
        })"

definition namei :: "byte list \<Rightarrow> 'a fsst_scheme \<Rightarrow> (nat option \<times> 'a fsst_scheme) option" where
  "namei path s = do { ((ip, _), s) \<leftarrow> namex path False (replicate DIRSIZ 0) s; Some (ip, s) }"

definition nameiparent ::
  "byte list \<Rightarrow> byte list \<Rightarrow> 'a fsst_scheme \<Rightarrow> ((nat option \<times> byte list) \<times> 'a fsst_scheme) option" where
  "nameiparent path name s = namex path True name s"

section \<open>A state to start from\<close>

definition zero_inode :: inode where
  "zero_inode = \<lparr>i_dev = 0, i_inum = 0, i_ref = 0, i_locked = False, i_valid = False, i_type = 0, i_major = 0, i_minor = 0,
     i_nlink = 0, i_size = 0, i_addrs = replicate (NDIRECT + 1) 0\<rparr>"

definition fs_boot :: fsst where
  "fs_boot = consst.extend cons_boot \<lparr>sb = mkfs_sb, icache = replicate NINODE zero_inode, p_cwd = 0\<rparr>"

end
