(* ===== verification/Xv6_Msg.thy ===== *)
theory Xv6_Msg
  imports Xv6_Prelude
begin

text \<open>
  The messages between the kernel, its clients and the file server: \<^verbatim>\<open>struct ipc_msg\<close> of \<^verbatim>\<open>ipc.h\<close> with the
  message types, the check \<^verbatim>\<open>valid_ipc_msg\<close> of \<^verbatim>\<open>proc.c\<close> that every message passes before it is
  delivered, and the open flags of \<^verbatim>\<open>fcntl.h\<close>.
\<close>

abbreviation (input) IPC_PATH_SIZE :: nat where "IPC_PATH_SIZE \<equiv> 64"
abbreviation (input) IPC_DATA_SIZE :: nat where "IPC_DATA_SIZE \<equiv> 128"

section \<open>Messages\<close>

text \<open>\<^verbatim>\<open>struct ipc_msg\<close> of \<^verbatim>\<open>ipc.h\<close>, with the message types the server knows.\<close>

record ipc_msg =
  m_sender :: int
  m_request_id :: int
  m_type :: int
  m_fd :: int
  m_flags :: int
  m_nbytes :: int
  m_result :: int
  m_error :: int
  m_path :: "byte list"
  m_data :: "byte list"

abbreviation (input) IPC_TYPE_FS_OPEN :: int where "IPC_TYPE_FS_OPEN \<equiv> 1"
abbreviation (input) IPC_TYPE_FS_READ :: int where "IPC_TYPE_FS_READ \<equiv> 2"
abbreviation (input) IPC_TYPE_FS_WRITE :: int where "IPC_TYPE_FS_WRITE \<equiv> 3"
abbreviation (input) IPC_TYPE_FS_CLOSE :: int where "IPC_TYPE_FS_CLOSE \<equiv> 4"
abbreviation (input) IPC_TYPE_FS_REPLY :: int where "IPC_TYPE_FS_REPLY \<equiv> 100"
abbreviation (input) IPC_TYPE_FS_SHUTDOWN :: int where "IPC_TYPE_FS_SHUTDOWN \<equiv> 101"
abbreviation (input) IPC_TYPE_FS_CLIENT_EXIT :: int where "IPC_TYPE_FS_CLIENT_EXIT \<equiv> 102"

definition zero_msg :: ipc_msg where
  "zero_msg = \<lparr>m_sender = 0, m_request_id = 0, m_type = 0, m_fd = 0, m_flags = 0, m_nbytes = 0, m_result = 0,
     m_error = 0, m_path = replicate IPC_PATH_SIZE 0, m_data = replicate IPC_DATA_SIZE 0\<rparr>"

text \<open>Open flags of \<^verbatim>\<open>fcntl.h\<close>, tested with \<^verbatim>\<open>&\<close>.\<close>

definition O_WRONLY :: "int \<Rightarrow> bool" where "O_WRONLY flags \<longleftrightarrow> bit flags 0"
definition O_RDWR :: "int \<Rightarrow> bool" where "O_RDWR flags \<longleftrightarrow> bit flags 1"
definition O_CREATE :: "int \<Rightarrow> bool" where "O_CREATE flags \<longleftrightarrow> bit flags 9"

text \<open>\<^verbatim>\<open>valid_ipc_msg\<close>: the length field is in range and the type is one the kernel forwards.\<close>

definition valid_ipc_msg :: "ipc_msg \<Rightarrow> bool" where
  "valid_ipc_msg msg \<longleftrightarrow>
     \<not> (m_nbytes msg < 0 \<or> m_nbytes msg > int IPC_DATA_SIZE) \<and>
     m_type msg \<in> {IPC_TYPE_FS_OPEN, IPC_TYPE_FS_READ, IPC_TYPE_FS_WRITE, IPC_TYPE_FS_CLOSE, IPC_TYPE_FS_REPLY,
       IPC_TYPE_FS_SHUTDOWN, IPC_TYPE_FS_CLIENT_EXIT}"

end
