(* ===== verification/Xv6_Server.thy ===== *)
theory Xv6_Server
  imports Xv6_Fs Xv6_Msg
begin

text \<open>
  The file server of \<^verbatim>\<open>fsserver.c\<close>, a user process that owns the disk through the system call
  \<^verbatim>\<open>disk_request\<close> (\<^verbatim>\<open>sys_disk_request\<close> of \<^verbatim>\<open>sysproc.c\<close>) and answers the requests of other processes.

  The state extends the kernel's buffer cache, on which \<^verbatim>\<open>disk_request\<close> works, with the server's
  static variables. Pointers into its arrays are indices, null pointers are \<open>None\<close> in a result.
  A null pointer that is dereferenced, an access outside an array, a string that is read past
  its array and the call of \<^verbatim>\<open>exit\<close> end the server: the function has no result. \<open>outbox\<close> is the
  sequence of replies the server has passed to \<^verbatim>\<open>send\<close>; the progress messages it prints are left
  out. Names that clash with the kernel's get the prefix \<open>srv_\<close>.
\<close>

abbreviation (input) MAX_REMOTE_FDS :: nat where "MAX_REMOTE_FDS \<equiv> 64"
abbreviation (input) UNINODE :: nat where "UNINODE \<equiv> 32"
abbreviation (input) UNBUF :: nat where "UNBUF \<equiv> 32"

section \<open>State\<close>

record ubuf =
  ub_valid :: bool
  ub_dev :: u32
  ub_blockno :: u32
  ub_refcnt :: int
  ub_data :: block

record uinode =
  ui_dev :: u32
  ui_inum :: u32
  ui_ref :: int
  ui_type :: u16
  ui_major :: u16
  ui_minor :: u16
  ui_nlink :: u16
  ui_size :: u32
  ui_addrs :: "u32 list"
  ui_valid :: bool

record fd_entry =
  fe_used :: bool
  fe_owner :: int
  fe_fd :: int
  fe_off :: int
  fe_readable :: bool
  fe_writable :: bool

record srvst = bio +
  my_pid :: int
  fsserver_pid :: int
  ubufs :: "ubuf list"
  ulist :: "nat list"
  uinodes :: "uinode list"
  usb :: superblock
  fd_table :: "fd_entry list"
  fd_inodes :: "nat option list"
  outbox :: "(int \<times> ipc_msg) list"

definition upd_ubuf :: "nat \<Rightarrow> (ubuf \<Rightarrow> ubuf) \<Rightarrow> 'a srvst_scheme \<Rightarrow> 'a srvst_scheme" where
  "upd_ubuf i f s = s\<lparr>ubufs := (ubufs s)[i := f (ubufs s ! i)]\<rparr>"

definition upd_uinode :: "nat \<Rightarrow> (uinode \<Rightarrow> uinode) \<Rightarrow> 'a srvst_scheme \<Rightarrow> 'a srvst_scheme" where
  "upd_uinode i f s = s\<lparr>uinodes := (uinodes s)[i := f (uinodes s ! i)]\<rparr>"

abbreviation ubuf_at :: "'a srvst_scheme \<Rightarrow> nat \<Rightarrow> ubuf" where "ubuf_at s i \<equiv> ubufs s ! i"
abbreviation uinode_at :: "'a srvst_scheme \<Rightarrow> nat \<Rightarrow> uinode" where "uinode_at s i \<equiv> uinodes s ! i"

section \<open>The disk\<close>

text \<open>
  The two operations of \<^verbatim>\<open>sys_disk_request\<close>; only the registered server may call it. The kernel
  panics on a block outside the disk, so that its result is otherwise 0. The caller of an
  unauthorised request is marked killed, and never returns from the system call.
\<close>

definition disk_read :: "u32 \<Rightarrow> 'a srvst_scheme \<Rightarrow> (block \<times> 'a srvst_scheme) option" where
  "disk_read sector s =
     (if fsserver_pid s \<le> 0 \<or> my_pid s \<noteq> fsserver_pid s then None
      else do {
        (bp, s) \<leftarrow> bread ROOTDEV sector s;
        let d = b_data (buf_at s bp);
        s \<leftarrow> brelse bp s;
        Some (d, s)
      })"

definition disk_write :: "u32 \<Rightarrow> block \<Rightarrow> 'a srvst_scheme \<Rightarrow> 'a srvst_scheme option" where
  "disk_write sector d s =
     (if fsserver_pid s \<le> 0 \<or> my_pid s \<noteq> fsserver_pid s then None
      else do {
        (bp, s) \<leftarrow> bread ROOTDEV sector s;
        let s = set_data bp d s;
        s \<leftarrow> bwrite bp s;
        brelse bp s
      })"

section \<open>The server's buffer cache\<close>

definition ubuf_init :: "'a srvst_scheme \<Rightarrow> 'a srvst_scheme" where
  "ubuf_init s = s\<lparr>ulist := fold (#) [0..<UNBUF] []\<rparr>"

definition ubuf_get :: "u32 \<Rightarrow> u32 \<Rightarrow> 'a srvst_scheme \<Rightarrow> nat option \<times> 'a srvst_scheme" where
  "ubuf_get dev blockno s =
     (case find (\<lambda>i. ub_dev (ubuf_at s i) = dev \<and> ub_blockno (ubuf_at s i) = blockno) (ulist s) of
        Some i \<Rightarrow> (Some i, upd_ubuf i (\<lambda>b. b\<lparr>ub_refcnt := ub_refcnt b + 1\<rparr>) s)
      | None \<Rightarrow>
        (case find (\<lambda>i. ub_refcnt (ubuf_at s i) = 0) (rev (ulist s)) of
           Some i \<Rightarrow> (Some i, upd_ubuf i (\<lambda>b. b\<lparr>ub_dev := dev, ub_blockno := blockno, ub_valid := False, ub_refcnt := 1\<rparr>) s)
         | None \<Rightarrow> (None, s)))"

definition ubread :: "u32 \<Rightarrow> u32 \<Rightarrow> 'a srvst_scheme \<Rightarrow> (nat option \<times> 'a srvst_scheme) option" where
  "ubread dev blockno s =
     (case ubuf_get dev blockno s of
        (None, s) \<Rightarrow> Some (None, s)
      | (Some i, s) \<Rightarrow>
          if \<not> ub_valid (ubuf_at s i) then do {
            (d, s) \<leftarrow> disk_read blockno s;
            Some (Some i, upd_ubuf i (\<lambda>b. b\<lparr>ub_data := d, ub_valid := True\<rparr>) s)
          } else Some (Some i, s))"

definition set_udata :: "nat \<Rightarrow> block \<Rightarrow> 'a srvst_scheme \<Rightarrow> 'a srvst_scheme" where
  "set_udata i d s = upd_ubuf i (\<lambda>b. b\<lparr>ub_data := d\<rparr>) s"

definition ubwrite :: "nat \<Rightarrow> 'a srvst_scheme \<Rightarrow> 'a srvst_scheme option" where
  "ubwrite i s = disk_write (ub_blockno (ubuf_at s i)) (ub_data (ubuf_at s i)) s"

definition ubrelse :: "nat \<Rightarrow> 'a srvst_scheme \<Rightarrow> 'a srvst_scheme" where
  "ubrelse i s = upd_ubuf i (\<lambda>b. b\<lparr>ub_refcnt := ub_refcnt b - 1\<rparr>) s"

section \<open>The server's inode cache\<close>

definition uinode_init :: "'a srvst_scheme \<Rightarrow> 'a srvst_scheme" where
  "uinode_init s = s\<lparr>uinodes := map (\<lambda>ip. ip\<lparr>ui_ref := 0\<rparr>) (uinodes s)\<rparr>"

definition uiget :: "u32 \<Rightarrow> u32 \<Rightarrow> 'a srvst_scheme \<Rightarrow> nat option \<times> 'a srvst_scheme" where
  "uiget dev inum s =
     (case first_idx (\<lambda>ip. ui_ref ip > 0 \<and> ui_dev ip = dev \<and> ui_inum ip = inum) (uinodes s) of
        Some i \<Rightarrow> (Some i, upd_uinode i (\<lambda>ip. ip\<lparr>ui_ref := ui_ref ip + 1\<rparr>) s)
      | None \<Rightarrow>
        (case first_idx (\<lambda>ip. ui_ref ip = 0) (uinodes s) of
           None \<Rightarrow> (None, s)
         | Some i \<Rightarrow>
             (Some i, upd_uinode i (\<lambda>ip. ip\<lparr>ui_dev := dev, ui_inum := inum, ui_ref := 1, ui_valid := False\<rparr>) s)))"

definition of_dinode_u :: "dinode \<Rightarrow> uinode \<Rightarrow> uinode" where
  "of_dinode_u d ip = ip\<lparr>ui_type := di_type d, ui_major := di_major d, ui_minor := di_minor d, ui_nlink := di_nlink d,
     ui_size := di_size d, ui_addrs := di_addrs d\<rparr>"

definition to_dinode_u :: "uinode \<Rightarrow> dinode" where
  "to_dinode_u ip = \<lparr>di_type = ui_type ip, di_major = ui_major ip, di_minor = ui_minor ip, di_nlink = ui_nlink ip,
     di_size = ui_size ip, di_addrs = ui_addrs ip\<rparr>"

definition uilock :: "nat \<Rightarrow> 'a srvst_scheme \<Rightarrow> 'a srvst_scheme option" where
  "uilock i s =
     (if ui_valid (uinode_at s i) then Some s
      else do {
        let ip = uinode_at s i;
        (bp, s) \<leftarrow> ubread (ui_dev ip) (IBLOCK (ui_inum ip) (usb s)) s;
        case bp of
          None \<Rightarrow> Some s
        | Some bp \<Rightarrow>
            let d = get_dinode (unat (ui_inum ip) mod IPB) (ub_data (ubuf_at s bp));
                s = ubrelse bp (upd_uinode i (of_dinode_u d) s)
            in Some (upd_uinode i (\<lambda>ip. ip\<lparr>ui_valid := True\<rparr>) s)
      })"

definition uiput :: "nat \<Rightarrow> 'a srvst_scheme \<Rightarrow> 'a srvst_scheme" where
  "uiput i s =
     (let s = upd_uinode i (\<lambda>ip. ip\<lparr>ui_ref := ui_ref ip - 1\<rparr>) s in
      if ui_ref (uinode_at s i) = 0 then upd_uinode i (\<lambda>ip. ip\<lparr>ui_valid := False\<rparr>) s else s)"

definition uiupdate :: "nat \<Rightarrow> 'a srvst_scheme \<Rightarrow> 'a srvst_scheme option" where
  "uiupdate i s = do {
     let ip = uinode_at s i;
     (bp, s) \<leftarrow> ubread (ui_dev ip) (IBLOCK (ui_inum ip) (usb s)) s;
     case bp of
       None \<Rightarrow> Some s
     | Some bp \<Rightarrow> do {
         let s = set_udata bp (put_dinode (unat (ui_inum ip) mod IPB) (to_dinode_u ip) (ub_data (ubuf_at s bp))) s;
         s \<leftarrow> ubwrite bp s;
         Some (ubrelse bp s)
       }
   }"

definition srv_readsb :: "'a srvst_scheme \<Rightarrow> 'a srvst_scheme option" where
  "srv_readsb s = do {
     (bp, s) \<leftarrow> ubread ROOTDEV 1 s;
     case bp of
       None \<Rightarrow> Some s
     | Some bp \<Rightarrow> Some (ubrelse bp (s\<lparr>usb := decode_sb (ub_data (ubuf_at s bp))\<rparr>))
   }"

section \<open>Blocks and file contents\<close>

text \<open>\<^verbatim>\<open>balloc\<close> gives 0 when no block is free. It does not clear the block.\<close>

fun srv_balloc_scan :: "nat list \<Rightarrow> 'a srvst_scheme \<Rightarrow> (u32 \<times> 'a srvst_scheme) option" where
  "srv_balloc_scan [] s = Some (0, s)"
| "srv_balloc_scan (b # bs) s = do {
     (bp, s) \<leftarrow> ubread ROOTDEV (BBLOCK (of_nat b) (usb s)) s;
     case bp of
       None \<Rightarrow> srv_balloc_scan bs s
     | Some bp \<Rightarrow>
         (case find_free_bit (unat (sb_size (usb s))) b (ub_data (ubuf_at s bp)) of
            Some bi \<Rightarrow> do {
              let s = set_udata bp (bm_set bi (ub_data (ubuf_at s bp))) s;
              s \<leftarrow> ubwrite bp s;
              Some (of_nat (b + bi), ubrelse bp s)
            }
          | None \<Rightarrow> srv_balloc_scan bs (ubrelse bp s))
   }"

definition srv_balloc :: "'a srvst_scheme \<Rightarrow> (u32 \<times> 'a srvst_scheme) option" where
  "srv_balloc s = srv_balloc_scan (bitmap_starts (unat (sb_size (usb s)))) s"

definition srv_bfree :: "u32 \<Rightarrow> 'a srvst_scheme \<Rightarrow> 'a srvst_scheme option" where
  "srv_bfree b s = do {
     s \<leftarrow> srv_readsb s;
     (bp, s) \<leftarrow> ubread ROOTDEV (BBLOCK b (usb s)) s;
     case bp of
       None \<Rightarrow> Some s
     | Some bp \<Rightarrow>
         let bi = unat b mod BPB in
         if bm_free bi (ub_data (ubuf_at s bp)) then Some (ubrelse bp s)
         else do {
           let s = set_udata bp (bm_clear bi (ub_data (ubuf_at s bp))) s;
           s \<leftarrow> ubwrite bp s;
           Some (ubrelse bp s)
         }
   }"

definition srv_bmap :: "nat \<Rightarrow> nat \<Rightarrow> 'a srvst_scheme \<Rightarrow> (u32 \<times> 'a srvst_scheme) option" where
  "srv_bmap i bn s =
     (if bn < NDIRECT then
        let addr = ui_addrs (uinode_at s i) ! bn in
        if addr = 0 then do {
          (addr, s) \<leftarrow> srv_balloc s;
          if addr = 0 then Some (0, s)
          else Some (addr, upd_uinode i (\<lambda>ip. ip\<lparr>ui_addrs := (ui_addrs ip)[bn := addr]\<rparr>) s)
        } else Some (addr, s)
      else if bn - NDIRECT < NINDIRECT then do {
        let addr = ui_addrs (uinode_at s i) ! NDIRECT;
        (addr, s) \<leftarrow>
          (if addr = 0 then do {
             (addr, s) \<leftarrow> srv_balloc s;
             if addr = 0 then Some (0, s)
             else Some (addr, upd_uinode i (\<lambda>ip. ip\<lparr>ui_addrs := (ui_addrs ip)[NDIRECT := addr]\<rparr>) s)
           } else Some (addr, s));
        if addr = 0 then Some (0, s)
        else do {
          (bp, s) \<leftarrow> ubread ROOTDEV addr s;
          case bp of
            None \<Rightarrow> Some (0, s)
          | Some bp \<Rightarrow>
              let addr = get_addr (bn - NDIRECT) (ub_data (ubuf_at s bp)) in
              if addr = 0 then do {
                (addr, s) \<leftarrow> srv_balloc s;
                if addr = 0 then Some (0, ubrelse bp s)
                else do {
                  let s = set_udata bp (put_addr (bn - NDIRECT) addr (ub_data (ubuf_at s bp))) s;
                  s \<leftarrow> ubwrite bp s;
                  Some (addr, ubrelse bp s)
                }
              } else Some (addr, ubrelse bp s)
        }
      } else Some (0, s))"

text \<open>The copying loops; a result \<open>None\<close> of the loop is \<^verbatim>\<open>return -1\<close>.\<close>

function uwritei_loop :: "nat \<Rightarrow> byte list \<Rightarrow> nat \<Rightarrow> nat \<Rightarrow> 'a srvst_scheme \<Rightarrow> (bool \<times> 'a srvst_scheme) option" where
  "uwritei_loop i src off n s =
     (if n = 0 then Some (True, s)
      else do {
        (addr, s) \<leftarrow> srv_bmap i (off div BSIZE) s;
        if addr = 0 then Some (False, s)
        else do {
          (bp, s) \<leftarrow> ubread ROOTDEV addr s;
          case bp of
            None \<Rightarrow> Some (False, s)
          | Some bp \<Rightarrow>
              let m = min n (BSIZE - off mod BSIZE) in
              if length src < m then None
              else do {
                let s = set_udata bp (blit (off mod BSIZE) (take m src) (ub_data (ubuf_at s bp))) s;
                s \<leftarrow> ubwrite bp s;
                uwritei_loop i (drop m src) (off + m) (n - m) (ubrelse bp s)
              }
        }
      })"
  by pat_completeness auto
termination by (relation "measure (\<lambda>(i, src, off, n, s). n)") auto

declare uwritei_loop.simps [simp del]

definition uwritei :: "nat \<Rightarrow> byte list \<Rightarrow> u32 \<Rightarrow> u32 \<Rightarrow> 'a srvst_scheme \<Rightarrow> (int \<times> 'a srvst_scheme) option" where
  "uwritei i src off n s =
     (if off + n < off then Some (-1, s)
      else do {
        (ok, s) \<leftarrow> uwritei_loop i src (unat off) (unat n) s;
        if \<not> ok then Some (-1, s)
        else do {
          s \<leftarrow>
            (if n > 0 \<and> off + n > ui_size (uinode_at s i) then
               uiupdate i (upd_uinode i (\<lambda>ip. ip\<lparr>ui_size := off + n\<rparr>) s)
             else Some s);
          Some (sint n, s)
        }
      })"

text \<open>\<open>room\<close> is the number of bytes that \<^verbatim>\<open>dst\<close> points to; the bytes stored there are returned.\<close>

function ureadi_loop ::
  "nat \<Rightarrow> nat \<Rightarrow> nat \<Rightarrow> nat \<Rightarrow> 'a srvst_scheme \<Rightarrow> ((bool \<times> byte list) \<times> 'a srvst_scheme) option" where
  "ureadi_loop i room off n s =
     (if n = 0 then Some ((True, []), s)
      else do {
        (addr, s) \<leftarrow> srv_bmap i (off div BSIZE) s;
        if addr = 0 then Some ((False, []), s)
        else do {
          (bp, s) \<leftarrow> ubread ROOTDEV addr s;
          case bp of
            None \<Rightarrow> Some ((False, []), s)
          | Some bp \<Rightarrow>
              let m = min n (BSIZE - off mod BSIZE) in
              if room < m then None
              else do {
                let bs = cut (off mod BSIZE) m (ub_data (ubuf_at s bp));
                ((ok, cs), s) \<leftarrow> ureadi_loop i (room - m) (off + m) (n - m) (ubrelse bp s);
                Some ((ok, bs @ cs), s)
              }
        }
      })"
  by pat_completeness auto
termination by (relation "measure (\<lambda>(i, room, off, n, s). n)") auto

declare ureadi_loop.simps [simp del]

definition ureadi ::
  "nat \<Rightarrow> nat \<Rightarrow> u32 \<Rightarrow> u32 \<Rightarrow> 'a srvst_scheme \<Rightarrow> ((int \<times> byte list) \<times> 'a srvst_scheme) option" where
  "ureadi i room off n s =
     (if off \<ge> ui_size (uinode_at s i) then Some ((0, []), s)
      else do {
        let n = (if off + n > ui_size (uinode_at s i) then ui_size (uinode_at s i) - off else n);
        ((ok, bs), s) \<leftarrow> ureadi_loop i room (unat off) (unat n) s;
        Some ((if ok then sint n else -1, bs), s)
      })"

section \<open>Directories\<close>

text \<open>
  \<^verbatim>\<open>unamecmp\<close> has no length limit: it runs to a difference or to a zero byte. Characters are signed.
\<close>

fun unamecmp :: "byte list \<Rightarrow> byte list \<Rightarrow> int option" where
  "unamecmp (a # s) (b # t) = (if a \<noteq> 0 \<and> b \<noteq> 0 \<and> a = b then unamecmp s t else Some (sint a - sint b))"
| "unamecmp _ _ = None"

definition srv_strncpy :: "byte list \<Rightarrow> byte list \<Rightarrow> int \<Rightarrow> byte list option" where
  "srv_strncpy s t n = strncpy s t n"

fun srv_dirlookup_scan ::
  "nat list \<Rightarrow> nat \<Rightarrow> byte list \<Rightarrow> 'a srvst_scheme \<Rightarrow> ((nat \<times> nat) option \<times> 'a srvst_scheme) option" where
  "srv_dirlookup_scan [] dp name s = Some (None, s)"
| "srv_dirlookup_scan (off # offs) dp name s = do {
     ((r, bs), s) \<leftarrow> ureadi dp dirent_size (of_nat off) (of_nat dirent_size) s;
     if r \<noteq> int dirent_size then Some (None, s)
     else do {
       let de = decode_dirent bs;
       if de_inum de = 0 then srv_dirlookup_scan offs dp name s
       else do {
         c \<leftarrow> unamecmp name (de_name de);
         if c = 0 then
           (case uiget (ui_dev (uinode_at s dp)) (ucast (de_inum de)) s of
              (None, s) \<Rightarrow> Some (None, s)
            | (Some ip, s) \<Rightarrow> Some (Some (ip, off), s))
         else srv_dirlookup_scan offs dp name s
       }
     }
   }"

definition srv_dirlookup :: "nat \<Rightarrow> byte list \<Rightarrow> 'a srvst_scheme \<Rightarrow> ((nat \<times> nat) option \<times> 'a srvst_scheme) option" where
  "srv_dirlookup dp name s =
     (if ui_type (uinode_at s dp) \<noteq> T_DIR then Some (None, s)
      else srv_dirlookup_scan (dir_offsets (ui_size (uinode_at s dp))) dp name s)"

fun srv_dirlink_slot :: "nat list \<Rightarrow> nat \<Rightarrow> nat \<Rightarrow> 'a srvst_scheme \<Rightarrow> (nat \<times> 'a srvst_scheme) option" where
  "srv_dirlink_slot [] e dp s = Some (e, s)"
| "srv_dirlink_slot (off # offs) e dp s = do {
     ((r, bs), s) \<leftarrow> ureadi dp dirent_size (of_nat off) (of_nat dirent_size) s;
     if r \<noteq> int dirent_size then panic ''exit''
     else if de_inum (decode_dirent bs) = 0 then Some (off, s)
     else srv_dirlink_slot offs e dp s
   }"

definition srv_dirlink :: "nat \<Rightarrow> byte list \<Rightarrow> u32 \<Rightarrow> 'a srvst_scheme \<Rightarrow> (int \<times> 'a srvst_scheme) option" where
  "srv_dirlink dp name inum s = do {
     (r, s) \<leftarrow> srv_dirlookup dp name s;
     case r of
       Some (ip, _) \<Rightarrow> Some (-1, uiput ip s)
     | None \<Rightarrow> do {
         let offs = dir_offsets (ui_size (uinode_at s dp));
         (off, s) \<leftarrow> srv_dirlink_slot offs (length offs * dirent_size) dp s;
         nm \<leftarrow> srv_strncpy (replicate DIRSIZ 0) name (int DIRSIZ);
         (w, s) \<leftarrow> uwritei dp (encode_dirent \<lparr>de_inum = ucast inum, de_name = nm\<rparr>) (of_nat off) (of_nat dirent_size) s;
         if w \<noteq> int dirent_size then panic ''exit'' else Some (0, s)
       }
   }"

section \<open>Paths\<close>

text \<open>
  The next component of a path, in the array \<^verbatim>\<open>name\<close> of \<open>DIRSIZ\<close> bytes, which always gets a final
  zero. A path that ends without a zero byte is read past its array. The rest \<open>q\<close> of the path is
  always shorter than \<open>p\<close>, which begins with a character of a name; the test serves termination.
\<close>

definition srv_store_name :: "byte list \<Rightarrow> byte list \<Rightarrow> byte list" where
  "srv_store_name el name =
     (if length el \<ge> DIRSIZ then (blit 0 (take DIRSIZ el) name)[DIRSIZ - 1 := 0] else blit 0 (el @ [0]) name)"

function srv_namei_loop ::
  "byte list \<Rightarrow> byte list \<Rightarrow> nat option \<Rightarrow> 'a srvst_scheme \<Rightarrow> (nat option \<times> 'a srvst_scheme) option" where
  "srv_namei_loop p name ip s =
     (case p of
        [] \<Rightarrow> None
      | c # _ \<Rightarrow>
          if c = 0 then Some (ip, s)
          else
            let q = skip_slashes (skip_name p); name = srv_store_name (take_name p) name in
            if q = [] \<or> \<not> length q < length p then None
            else
              (case ip of
                 None \<Rightarrow> None
               | Some i \<Rightarrow> do {
                   s \<leftarrow> uilock i s;
                   if ui_type (uinode_at s i) \<noteq> T_DIR then Some (None, uiput i s)
                   else do {
                     (r, s) \<leftarrow> srv_dirlookup i name s;
                     case r of
                       None \<Rightarrow> Some (None, uiput i s)
                     | Some (next, _) \<Rightarrow> srv_namei_loop q name (Some next) (uiput i s)
                   }
                 }))"
  by pat_completeness auto
termination
  by (relation "measure (\<lambda>(p, name, ip, s). length p)") auto

declare srv_namei_loop.simps [simp del]

definition srv_namei :: "byte list \<Rightarrow> 'a srvst_scheme \<Rightarrow> (nat option \<times> 'a srvst_scheme) option" where
  "srv_namei path s =
     (case uiget ROOTDEV ROOTINO s of
        (ip, s) \<Rightarrow> srv_namei_loop (skip_slashes path) (replicate DIRSIZ 0) ip s)"

function srv_nameiparent_loop ::
  "byte list \<Rightarrow> byte list \<Rightarrow> nat option \<Rightarrow> 'a srvst_scheme \<Rightarrow> ((nat option \<times> byte list) \<times> 'a srvst_scheme) option" where
  "srv_nameiparent_loop p name ip s =
     (case p of
        [] \<Rightarrow> None
      | c # _ \<Rightarrow>
          if c = 0 then Some ((None, name), s)
          else
            let q = skip_slashes (skip_name p); name = srv_store_name (take_name p) name in
            if q = [] \<or> \<not> length q < length p then None
            else if hd q = 0 then Some ((ip, name), s)
            else
              (case ip of
                 None \<Rightarrow> None
               | Some i \<Rightarrow> do {
                   s \<leftarrow> uilock i s;
                   if ui_type (uinode_at s i) \<noteq> T_DIR then Some ((None, name), uiput i s)
                   else do {
                     (r, s) \<leftarrow> srv_dirlookup i name s;
                     case r of
                       None \<Rightarrow> Some ((None, name), uiput i s)
                     | Some (next, _) \<Rightarrow> srv_nameiparent_loop q name (Some next) (uiput i s)
                   }
                 }))"
  by pat_completeness auto
termination
  by (relation "measure (\<lambda>(p, name, ip, s). length p)") auto

declare srv_nameiparent_loop.simps [simp del]

definition srv_nameiparent ::
  "byte list \<Rightarrow> byte list \<Rightarrow> 'a srvst_scheme \<Rightarrow> ((nat option \<times> byte list) \<times> 'a srvst_scheme) option" where
  "srv_nameiparent path name s =
     (case path of
        [] \<Rightarrow> None
      | c # _ \<Rightarrow>
          if c = 47 then
            (case uiget ROOTDEV ROOTINO s of (ip, s) \<Rightarrow> srv_nameiparent_loop (skip_slashes path) name ip s)
          else Some ((None, name), s))"

fun srv_ialloc_scan :: "u16 \<Rightarrow> nat list \<Rightarrow> 'a srvst_scheme \<Rightarrow> (nat option \<times> 'a srvst_scheme) option" where
  "srv_ialloc_scan type [] s = Some (None, s)"
| "srv_ialloc_scan type (inum # is) s = do {
     (bp, s) \<leftarrow> ubread ROOTDEV (IBLOCK (of_nat inum) (usb s)) s;
     case bp of
       None \<Rightarrow> srv_ialloc_scan type is s
     | Some bp \<Rightarrow>
         if di_type (get_dinode (inum mod IPB) (ub_data (ubuf_at s bp))) = 0 then do {
           let s = set_udata bp (put_dinode (inum mod IPB) (zero_dinode\<lparr>di_type := type\<rparr>) (ub_data (ubuf_at s bp))) s;
           s \<leftarrow> ubwrite bp s;
           Some (uiget ROOTDEV (of_nat inum) (ubrelse bp s))
         } else srv_ialloc_scan type is (ubrelse bp s)
   }"

definition srv_ialloc :: "u16 \<Rightarrow> 'a srvst_scheme \<Rightarrow> (nat option \<times> 'a srvst_scheme) option" where
  "srv_ialloc type s = srv_ialloc_scan type [1..<unat (sb_ninodes (usb s))] s"

section \<open>Remote file descriptors\<close>

definition alloc_remote_fd :: "int \<Rightarrow> int \<Rightarrow> 'a srvst_scheme \<Rightarrow> int \<times> 'a srvst_scheme" where
  "alloc_remote_fd owner flags s =
     (case first_idx (\<lambda>e. \<not> fe_used e) (fd_table s) of
        Some i \<Rightarrow>
          (int i, s\<lparr>fd_table := (fd_table s)[i := \<lparr>fe_used = True, fe_owner = owner, fe_fd = int i, fe_off = 0,
             fe_readable = (\<not> O_WRONLY flags), fe_writable = (O_WRONLY flags \<or> O_RDWR flags)\<rparr>]\<rparr>)
      | None \<Rightarrow> (-1, s))"

text \<open>The result is the index of the entry.\<close>

definition lookup_remote_fd :: "int \<Rightarrow> int \<Rightarrow> 'a srvst_scheme \<Rightarrow> nat option" where
  "lookup_remote_fd owner fd s =
     (if fd < 0 \<or> fd \<ge> int MAX_REMOTE_FDS then None
      else if \<not> fe_used (fd_table s ! nat fd) then None
      else if fe_owner (fd_table s ! nat fd) \<noteq> owner then None
      else Some (nat fd))"

definition put_fd_inode :: "nat \<Rightarrow> 'a srvst_scheme \<Rightarrow> 'a srvst_scheme" where
  "put_fd_inode i s =
     (case fd_inodes s ! i of
        Some ip \<Rightarrow> (uiput ip s)\<lparr>fd_inodes := (fd_inodes s)[i := None]\<rparr>
      | None \<Rightarrow> s)"

fun close_all_scan :: "nat list \<Rightarrow> int \<Rightarrow> 'a srvst_scheme \<Rightarrow> 'a srvst_scheme" where
  "close_all_scan [] owner s = s"
| "close_all_scan (i # is) owner s =
     (if fe_used (fd_table s ! i) \<and> fe_owner (fd_table s ! i) = owner then
        close_all_scan is owner
          (put_fd_inode i (s\<lparr>fd_table := (fd_table s)[i := (fd_table s ! i)\<lparr>fe_used := False\<rparr>]\<rparr>))
      else close_all_scan is owner s)"

definition close_all_for_owner :: "int \<Rightarrow> 'a srvst_scheme \<Rightarrow> 'a srvst_scheme" where
  "close_all_for_owner owner s = close_all_scan [0..<MAX_REMOTE_FDS] owner s"

definition send_reply ::
  "int \<Rightarrow> int \<Rightarrow> int \<Rightarrow> int \<Rightarrow> int \<Rightarrow> byte list option \<Rightarrow> 'a srvst_scheme \<Rightarrow> 'a srvst_scheme" where
  "send_reply client rid result fd nbytes data s =
     (let reply = zero_msg\<lparr>m_type := IPC_TYPE_FS_REPLY, m_request_id := rid, m_fd := fd, m_result := result,
                    m_nbytes := nbytes\<rparr>;
          reply = (case data of
             Some d \<Rightarrow>
               if nbytes > 0 then
                 let n = (if nbytes > int IPC_DATA_SIZE then IPC_DATA_SIZE else nat nbytes)
                 in reply\<lparr>m_data := blit 0 (take n d) (m_data reply)\<rparr>
               else reply
           | None \<Rightarrow> reply)
      in s\<lparr>outbox := outbox s @ [(client, reply)]\<rparr>)"

definition reply_error :: "ipc_msg \<Rightarrow> int \<Rightarrow> 'a srvst_scheme \<Rightarrow> 'a srvst_scheme" where
  "reply_error req fd s = send_reply (m_sender req) (m_request_id req) (-1) fd 0 None s"

section \<open>Requests\<close>

text \<open>
  \<^verbatim>\<open>O_CREATE\<close> for a path that was not found: a new file in the root directory, named by the first
  component of the path. The inner \<open>None\<close> is the failure that has been answered already.
\<close>

definition srv_create :: "ipc_msg \<Rightarrow> 'a srvst_scheme \<Rightarrow> (nat option \<times> 'a srvst_scheme) option" where
  "srv_create req s =
     (let p = skip_slashes (m_path req); el = take_name p;
          name = srv_store_name el (replicate DIRSIZ 0)
      in if length el = length p then None
      else
        (case uiget ROOTDEV ROOTINO s of
           (None, s) \<Rightarrow> Some (None, reply_error req (-1) s)
         | (Some dp, s) \<Rightarrow> do {
             s \<leftarrow> uilock dp s;
             (r, s) \<leftarrow> srv_ialloc T_FILE s;
             case r of
               None \<Rightarrow> Some (None, reply_error req (-1) (uiput dp s))
             | Some ip \<Rightarrow> do {
                 s \<leftarrow> uilock ip s;
                 s \<leftarrow> uiupdate ip (upd_uinode ip (\<lambda>x. x\<lparr>ui_nlink := 1\<rparr>) s);
                 (l, s) \<leftarrow> srv_dirlink dp name (ui_inum (uinode_at s ip)) s;
                 if l < 0 then do {
                   s \<leftarrow> uiupdate ip (upd_uinode ip (\<lambda>x. x\<lparr>ui_nlink := 0\<rparr>) s);
                   Some (None, reply_error req (-1) (uiput dp (uiput ip s)))
                 } else Some (Some ip, uiput dp s)
               }
           }))"

definition serve_open :: "ipc_msg \<Rightarrow> 'a srvst_scheme \<Rightarrow> 'a srvst_scheme option" where
  "serve_open req s = do {
     (found, s) \<leftarrow> srv_namei (m_path req) s;
     (ip, s) \<leftarrow>
       (case found of
          Some ip \<Rightarrow> Some (Some ip, s)
        | None \<Rightarrow> if O_CREATE (m_flags req) then srv_create req s else Some (None, reply_error req (-1) s));
     case ip of
       None \<Rightarrow> Some s
     | Some ip \<Rightarrow> do {
         s \<leftarrow> uilock ip s;
         case alloc_remote_fd (m_sender req) (m_flags req) s of
           (fd, s) \<Rightarrow>
             if fd < 0 then Some (reply_error req (-1) (uiput ip s))
             else Some (send_reply (m_sender req) (m_request_id req) fd fd 0 None
                          (s\<lparr>fd_inodes := (fd_inodes s)[nat fd := Some ip]\<rparr>))
       }
   }"

abbreviation ent_at :: "'a srvst_scheme \<Rightarrow> nat \<Rightarrow> fd_entry" where "ent_at s i \<equiv> fd_table s ! i"

definition advance :: "nat \<Rightarrow> int \<Rightarrow> 'a srvst_scheme \<Rightarrow> 'a srvst_scheme" where
  "advance i n s = s\<lparr>fd_table := (fd_table s)[i := (fd_table s ! i)\<lparr>fe_off := fe_off (fd_table s ! i) + n\<rparr>]\<rparr>"

text \<open>
  In \<^verbatim>\<open>n > ip->size - ent->off\<close> and \<^verbatim>\<open>ent->off >= ip->size\<close> the signed operands are converted to
  unsigned.
\<close>

definition serve_read :: "ipc_msg \<Rightarrow> 'a srvst_scheme \<Rightarrow> 'a srvst_scheme option" where
  "serve_read req s =
     (case lookup_remote_fd (m_sender req) (m_fd req) s of
        None \<Rightarrow> Some (reply_error req (m_fd req) s)
      | Some e \<Rightarrow>
          if \<not> fe_readable (ent_at s e) then Some (reply_error req (m_fd req) s)
          else
            (case fd_inodes s ! e of
               None \<Rightarrow> Some (reply_error req (m_fd req) s)
             | Some ip \<Rightarrow>
                 let n = (if m_nbytes req > int IPC_DATA_SIZE then int IPC_DATA_SIZE else m_nbytes req);
                     off = word_of_int (fe_off (ent_at s e)); sz = ui_size (uinode_at s ip)
                 in if off \<ge> sz then Some (send_reply (m_sender req) (m_request_id req) 0 (m_fd req) 0 None s)
                 else do {
                   let n = (if word_of_int n > sz - off then sint (sz - off) else n);
                   ((n, bs), s) \<leftarrow> ureadi ip IPC_DATA_SIZE off (word_of_int n) s;
                   if n < 0 then Some (reply_error req (m_fd req) s)
                   else Some (send_reply (m_sender req) (m_request_id req) n (m_fd req) n
                                (Some (blit 0 bs (m_data req))) (advance e n s))
                 }))"

definition serve_write :: "ipc_msg \<Rightarrow> 'a srvst_scheme \<Rightarrow> 'a srvst_scheme option" where
  "serve_write req s =
     (case lookup_remote_fd (m_sender req) (m_fd req) s of
        None \<Rightarrow> Some (reply_error req (m_fd req) s)
      | Some e \<Rightarrow>
          if \<not> fe_writable (ent_at s e) then Some (reply_error req (m_fd req) s)
          else
            (case fd_inodes s ! e of
               None \<Rightarrow> Some (reply_error req (m_fd req) s)
             | Some ip \<Rightarrow> do {
                 let n = (if m_nbytes req > int IPC_DATA_SIZE then int IPC_DATA_SIZE else m_nbytes req);
                 (n, s) \<leftarrow> uwritei ip (m_data req) (word_of_int (fe_off (ent_at s e))) (word_of_int n) s;
                 if n < 0 then Some (reply_error req (m_fd req) s)
                 else Some (send_reply (m_sender req) (m_request_id req) n (m_fd req) 0 None (advance e n s))
               }))"

definition serve_close :: "ipc_msg \<Rightarrow> 'a srvst_scheme \<Rightarrow> 'a srvst_scheme" where
  "serve_close req s =
     (case lookup_remote_fd (m_sender req) (m_fd req) s of
        None \<Rightarrow> reply_error req (m_fd req) s
      | Some e \<Rightarrow>
          let s = put_fd_inode e s;
              s = s\<lparr>fd_table := (fd_table s)[e := (fd_table s ! e)\<lparr>fe_used := False\<rparr>]\<rparr>
          in send_reply (m_sender req) (m_request_id req) 0 (m_fd req) 0 None s)"

text \<open>One round of the main loop; \<open>False\<close> when the server shuts down.\<close>

definition serve :: "ipc_msg \<Rightarrow> 'a srvst_scheme \<Rightarrow> (bool \<times> 'a srvst_scheme) option" where
  "serve req s =
     (if m_type req = IPC_TYPE_FS_SHUTDOWN then
        Some (False, send_reply (m_sender req) (m_request_id req) 0 (-1) 0 None (close_all_for_owner (m_sender req) s))
      else if m_type req = IPC_TYPE_FS_CLIENT_EXIT then Some (True, close_all_for_owner (m_sender req) s)
      else do {
        s \<leftarrow>
          (if m_type req = IPC_TYPE_FS_OPEN then serve_open req s
           else if m_type req = IPC_TYPE_FS_READ then serve_read req s
           else if m_type req = IPC_TYPE_FS_WRITE then serve_write req s
           else if m_type req = IPC_TYPE_FS_CLOSE then Some (serve_close req s)
           else Some (reply_error req (m_fd req) s));
        Some (True, s)
      })"

text \<open>The start of \<^verbatim>\<open>main\<close>, and the loop over a sequence of received requests.\<close>

definition srv_start :: "'a srvst_scheme \<Rightarrow> 'a srvst_scheme option" where
  "srv_start s = srv_readsb (uinode_init (ubuf_init s))"

fun srv_run :: "ipc_msg list \<Rightarrow> 'a srvst_scheme \<Rightarrow> 'a srvst_scheme option" where
  "srv_run [] s = Some s"
| "srv_run (req # reqs) s = do { (go, s) \<leftarrow> serve req s; if go then srv_run reqs s else Some s }"

end
