(* ===== verification/Xv6_Vm.thy ===== *)
theory Xv6_Vm
  imports Xv6_Fs
begin

text \<open>
  Physical memory: the page allocator of \<^verbatim>\<open>kalloc.c\<close> and the page tables of \<^verbatim>\<open>vm.c\<close>.

  The state adds the contents of every page the kernel can address (\<open>frames\<close>, by the kernel
  virtual address of the page), the allocator's list head and the kernel's own tables. The free
  list runs through the first word of the free pages, as in the code. A page table is a page of
  512 little-endian words. A \<^verbatim>\<open>pte_t*\<close> is the address of its table with an index. \<open>k_end\<close> is the
  linker's symbol \<^verbatim>\<open>end\<close>. Loading \<^verbatim>\<open>cr3\<close> and the segment registers has no effect on this state.
\<close>

section \<open>Words of 64 bits in a page\<close>

definition le64 :: "u64 \<Rightarrow> byte list" where
  "le64 w = le32 (ucast w) @ le32 (ucast (drop_bit 32 w))"

definition get64 :: "nat \<Rightarrow> byte list \<Rightarrow> u64" where
  "get64 off bs = ucast (get32 off bs) OR push_bit 32 (ucast (get32 (off + 4) bs))"

lemma length_le64 [simp]: "length (le64 w) = 8"
  by (simp add: le64_def)

section \<open>Addresses\<close>

abbreviation (input) PGSIZE :: nat where "PGSIZE \<equiv> 4096"
abbreviation (input) KERNBASE :: u64 where "KERNBASE \<equiv> 0xFFFF800000000000"
abbreviation (input) PHYSTOP :: u64 where "PHYSTOP \<equiv> 0xE000000"

definition V2P :: "u64 \<Rightarrow> u64" where "V2P a = a - KERNBASE"
definition P2V :: "u64 \<Rightarrow> u64" where "P2V a = a + KERNBASE"
definition PGROUNDDOWN :: "u64 \<Rightarrow> u64" where "PGROUNDDOWN a = a AND NOT 4095"
definition PGROUNDUP :: "u64 \<Rightarrow> u64" where "PGROUNDUP a = (a + 4095) AND NOT 4095"

definition PMX :: "u64 \<Rightarrow> nat" where "PMX va = unat (drop_bit 39 va AND 0x1FF)"
definition PDPX :: "u64 \<Rightarrow> nat" where "PDPX va = unat (drop_bit 30 va AND 0x1FF)"
definition PDX :: "u64 \<Rightarrow> nat" where "PDX va = unat (drop_bit 21 va AND 0x1FF)"
definition PTX :: "u64 \<Rightarrow> nat" where "PTX va = unat (drop_bit 12 va AND 0x1FF)"

abbreviation (input) PTE_P :: u64 where "PTE_P \<equiv> 1"
abbreviation (input) PTE_W :: u64 where "PTE_W \<equiv> 2"
abbreviation (input) PTE_U :: u64 where "PTE_U \<equiv> 4"
abbreviation (input) PTE_PWT :: u64 where "PTE_PWT \<equiv> 8"
abbreviation (input) PTE_PCD :: u64 where "PTE_PCD \<equiv> 16"
abbreviation (input) PTE_PS :: u64 where "PTE_PS \<equiv> 128"

definition PTE_ADDR :: "u64 \<Rightarrow> u64" where "PTE_ADDR pte = pte AND NOT 0xFFF"
definition PTE_FLAGS :: "u64 \<Rightarrow> u64" where "PTE_FLAGS pte = pte AND 0xFFF"

text \<open>The values \<^verbatim>\<open>a, a + PGSIZE, ...\<close> below \<^verbatim>\<open>b\<close> of a loop over pages.\<close>

definition page_addrs :: "u64 \<Rightarrow> u64 \<Rightarrow> u64 list" where
  "page_addrs a b = map (\<lambda>k. a + of_nat (k * PGSIZE)) [0..<(unat b - unat a + PGSIZE - 1) div PGSIZE]"

section \<open>The page allocator\<close>

type_synonym page = "byte list"

abbreviation (input) zero_page :: page where "zero_page \<equiv> replicate PGSIZE 0"

record kmst = fsst +
  k_end :: u64
  freelist :: u64
  frames :: "u64 \<Rightarrow> page"
  kpml4 :: u64
  kpdpt :: u64

definition set_frame :: "u64 \<Rightarrow> page \<Rightarrow> 'a kmst_scheme \<Rightarrow> 'a kmst_scheme" where
  "set_frame v p s = s\<lparr>frames := (frames s)(v := p)\<rparr>"

text \<open>\<^verbatim>\<open>kfree\<close> fills the page with ones and puts it in front of the list.\<close>

definition kfree :: "u64 \<Rightarrow> 'a kmst_scheme \<Rightarrow> 'a kmst_scheme option" where
  "kfree v s =
     (if v mod 4096 \<noteq> 0 \<or> v < k_end s \<or> V2P v \<ge> PHYSTOP then panic ''kfree''
      else Some ((set_frame v (blit 0 (le64 (freelist s)) (replicate PGSIZE 1)) s)\<lparr>freelist := v\<rparr>))"

definition kalloc :: "'a kmst_scheme \<Rightarrow> (u64 \<times> 'a kmst_scheme) option" where
  "kalloc s =
     (if freelist s \<noteq> 0 then Some (freelist s, s\<lparr>freelist := get64 0 (frames s (freelist s))\<rparr>)
      else panic ''Out of memory!'')"

fun kfree_all :: "u64 list \<Rightarrow> 'a kmst_scheme \<Rightarrow> 'a kmst_scheme option" where
  "kfree_all [] s = Some s"
| "kfree_all (v # vs) s = do { s \<leftarrow> kfree v s; kfree_all vs s }"

text \<open>\<^verbatim>\<open>freerange\<close> frees the whole pages between two addresses.\<close>

definition freerange :: "u64 \<Rightarrow> u64 \<Rightarrow> 'a kmst_scheme \<Rightarrow> 'a kmst_scheme option" where
  "freerange vstart vend s =
     (let p = PGROUNDUP vstart in
      kfree_all (map (\<lambda>k. p + of_nat (k * PGSIZE)) [0..<(unat vend - unat p) div PGSIZE]) s)"

definition kinit1 :: "u64 \<Rightarrow> u64 \<Rightarrow> 'a kmst_scheme \<Rightarrow> 'a kmst_scheme option" where
  "kinit1 vstart vend s = freerange vstart vend (s\<lparr>freelist := 0\<rparr>)"

section \<open>Page tables\<close>

definition get_pte :: "u64 \<Rightarrow> nat \<Rightarrow> 'a kmst_scheme \<Rightarrow> u64" where
  "get_pte tab i s = get64 (8 * i) (frames s tab)"

definition set_pte :: "u64 \<Rightarrow> nat \<Rightarrow> u64 \<Rightarrow> 'a kmst_scheme \<Rightarrow> 'a kmst_scheme" where
  "set_pte tab i w s = set_frame tab (blit (8 * i) (le64 w) (frames s tab)) s"

definition setupkvm :: "'a kmst_scheme \<Rightarrow> (u64 \<times> 'a kmst_scheme) option" where
  "setupkvm s = do {
     (pml4, s) \<leftarrow> kalloc s;
     let s = set_frame pml4 zero_page s;
     Some (pml4, set_pte pml4 256 (V2P (kpdpt s) OR PTE_P OR PTE_W) s)
   }"

definition kvmalloc :: "'a kmst_scheme \<Rightarrow> 'a kmst_scheme option" where
  "kvmalloc s = do {
     (pml4, s) \<leftarrow> kalloc s;
     let s = (set_frame pml4 zero_page s)\<lparr>kpml4 := pml4\<rparr>;
     (pdpt, s) \<leftarrow> kalloc s;
     let s = (set_frame pdpt zero_page s)\<lparr>kpdpt := pdpt\<rparr>;
     let s = set_pte pml4 (PMX KERNBASE) (V2P pdpt OR PTE_P OR PTE_W) s;
     let s = set_pte pdpt 0 (PTE_PS OR PTE_P OR PTE_W) s;
     Some (set_pte pdpt 3 (0xC0000000 OR PTE_PS OR PTE_P OR PTE_W OR PTE_PWT OR PTE_PCD) s)
   }"

text \<open>
  One level of \<^verbatim>\<open>walkpgdir\<close>: the table an entry refers to, allocated if it is missing and \<open>alloc\<close> is
  set. The inner \<open>None\<close> is the null pointer.
\<close>

definition walk_level :: "u64 \<Rightarrow> nat \<Rightarrow> bool \<Rightarrow> 'a kmst_scheme \<Rightarrow> (u64 option \<times> 'a kmst_scheme) option" where
  "walk_level tab i alloc s =
     (if get_pte tab i s AND PTE_P \<noteq> 0 then Some (Some (P2V (PTE_ADDR (get_pte tab i s))), s)
      else if \<not> alloc then Some (None, s)
      else do {
        (t, s) \<leftarrow> kalloc s;
        let s = set_frame t zero_page s;
        Some (Some t, set_pte tab i (V2P t OR PTE_P OR PTE_W OR PTE_U) s)
      })"

definition walkpgdir ::
  "u64 \<Rightarrow> u64 \<Rightarrow> bool \<Rightarrow> 'a kmst_scheme \<Rightarrow> ((u64 \<times> nat) option \<times> 'a kmst_scheme) option" where
  "walkpgdir pml4 va alloc s = do {
     (pdp, s) \<leftarrow> walk_level pml4 (PMX va) alloc s;
     case pdp of
       None \<Rightarrow> Some (None, s)
     | Some pdp \<Rightarrow> do {
         (pd, s) \<leftarrow> walk_level pdp (PDPX va) alloc s;
         case pd of
           None \<Rightarrow> Some (None, s)
         | Some pd \<Rightarrow> do {
             (pgtab, s) \<leftarrow> walk_level pd (PDX va) alloc s;
             case pgtab of
               None \<Rightarrow> Some (None, s)
             | Some pgtab \<Rightarrow> Some (Some (pgtab, PTX va), s)
           }
       }
   }"

text \<open>
  The loop of \<^verbatim>\<open>mappages\<close> counts up from the first page to the last, modulo the word size; \<open>k\<close> pages
  are left after this one.
\<close>

fun mappages_loop :: "nat \<Rightarrow> u64 \<Rightarrow> u64 \<Rightarrow> u64 \<Rightarrow> u64 \<Rightarrow> 'a kmst_scheme \<Rightarrow> (int \<times> 'a kmst_scheme) option" where
  "mappages_loop k pgdir a pa perm s = do {
     (r, s) \<leftarrow> walkpgdir pgdir a True s;
     case r of
       None \<Rightarrow> Some (-1, s)
     | Some (tab, i) \<Rightarrow>
         if get_pte tab i s AND PTE_P \<noteq> 0 then panic ''remap''
         else
           let s = set_pte tab i (pa OR perm OR PTE_P) s in
           (case k of 0 \<Rightarrow> Some (0, s) | Suc k \<Rightarrow> mappages_loop k pgdir (a + 4096) (pa + 4096) perm s)
   }"

declare mappages_loop.simps [simp del]

definition mappages :: "u64 \<Rightarrow> u64 \<Rightarrow> u64 \<Rightarrow> u64 \<Rightarrow> u64 \<Rightarrow> 'a kmst_scheme \<Rightarrow> (int \<times> 'a kmst_scheme) option" where
  "mappages pgdir va len pa perm s =
     (let a = PGROUNDDOWN va; e = PGROUNDDOWN (va + len - 1)
      in mappages_loop (unat (e - a) div PGSIZE) pgdir a pa perm s)"

definition inituvm :: "u64 \<Rightarrow> byte list \<Rightarrow> 'a kmst_scheme \<Rightarrow> 'a kmst_scheme option" where
  "inituvm pgdir init s =
     (if length init \<ge> PGSIZE then panic ''inituvm: more than a page''
      else do {
        (mem, s) \<leftarrow> kalloc s;
        let s = set_frame mem zero_page s;
        (_, s) \<leftarrow> mappages pgdir 4096 4096 (V2P mem) (PTE_W OR PTE_U) s;
        Some (set_frame mem (blit 0 init (frames s mem)) s)
      })"

text \<open>
  \<^verbatim>\<open>loaduvm\<close> reads a program segment page by page. It writes to the page the entry refers to,
  present or not.
\<close>

fun loaduvm_loop :: "nat list \<Rightarrow> u64 \<Rightarrow> u64 \<Rightarrow> nat \<Rightarrow> u32 \<Rightarrow> nat \<Rightarrow> 'a kmst_scheme \<Rightarrow> (int \<times> 'a kmst_scheme) option" where
  "loaduvm_loop [] pgdir addr ip off sz s = Some (0, s)"
| "loaduvm_loop (i # is) pgdir addr ip off sz s = do {
     (r, s) \<leftarrow> walkpgdir pgdir (addr + of_nat i) False s;
     case r of
       None \<Rightarrow> panic ''loaduvm: address should exist''
     | Some (tab, k) \<Rightarrow> do {
         let v = P2V (PTE_ADDR (get_pte tab k s));
         let n = (if sz - i < PGSIZE then sz - i else PGSIZE);
         ((r, bs), s) \<leftarrow> readi ip (off + of_nat i) (of_nat n) s;
         let s = set_frame v (blit 0 bs (frames s v)) s;
         if r \<noteq> int n then Some (-1, s) else loaduvm_loop is pgdir addr ip off sz s
       }
   }"

definition loaduvm :: "u64 \<Rightarrow> u64 \<Rightarrow> nat \<Rightarrow> u32 \<Rightarrow> u32 \<Rightarrow> 'a kmst_scheme \<Rightarrow> (int \<times> 'a kmst_scheme) option" where
  "loaduvm pgdir addr ip off sz s =
     (if addr mod 4096 \<noteq> 0 then panic ''loaduvm: addr must be page aligned''
      else loaduvm_loop (map (\<lambda>k. k * PGSIZE) [0..<(unat sz + PGSIZE - 1) div PGSIZE]) pgdir addr ip off (unat sz) s)"

fun deallocuvm_loop :: "u64 list \<Rightarrow> u64 \<Rightarrow> 'a kmst_scheme \<Rightarrow> 'a kmst_scheme option" where
  "deallocuvm_loop [] pgdir s = Some s"
| "deallocuvm_loop (a # as) pgdir s = do {
     (r, s) \<leftarrow> walkpgdir pgdir a False s;
     case r of
       None \<Rightarrow> deallocuvm_loop as pgdir s
     | Some (tab, i) \<Rightarrow>
         if get_pte tab i s AND PTE_P \<noteq> 0 then
           let pa = PTE_ADDR (get_pte tab i s) in
           if pa = 0 then panic ''kfree''
           else do {
             s \<leftarrow> kfree (P2V pa) s;
             deallocuvm_loop as pgdir (set_pte tab i 0 s)
           }
         else deallocuvm_loop as pgdir s
   }"

definition deallocuvm :: "u64 \<Rightarrow> u64 \<Rightarrow> u64 \<Rightarrow> 'a kmst_scheme \<Rightarrow> (u64 \<times> 'a kmst_scheme) option" where
  "deallocuvm pgdir oldsz newsz s =
     (if newsz \<ge> oldsz then Some (oldsz, s)
      else do {
        s \<leftarrow> deallocuvm_loop (page_addrs (PGROUNDUP newsz) oldsz) pgdir s;
        Some (newsz, s)
      })"

text \<open>\<^verbatim>\<open>kalloc\<close> never returns a null pointer, so the branch for it has no counterpart here.\<close>

fun allocuvm_loop ::
  "u64 list \<Rightarrow> u64 \<Rightarrow> u64 \<Rightarrow> u64 \<Rightarrow> 'a kmst_scheme \<Rightarrow> (u64 \<times> 'a kmst_scheme) option" where
  "allocuvm_loop [] pgdir oldsz newsz s = Some (newsz, s)"
| "allocuvm_loop (a # as) pgdir oldsz newsz s = do {
     (mem, s) \<leftarrow> kalloc s;
     let s = set_frame mem zero_page s;
     (r, s) \<leftarrow> mappages pgdir a 4096 (V2P mem) (PTE_W OR PTE_U) s;
     if r < 0 then do {
       (_, s) \<leftarrow> deallocuvm pgdir newsz oldsz s;
       s \<leftarrow> kfree mem s;
       Some (0, s)
     } else allocuvm_loop as pgdir oldsz newsz s
   }"

definition allocuvm :: "u64 \<Rightarrow> u64 \<Rightarrow> u64 \<Rightarrow> 'a kmst_scheme \<Rightarrow> (u64 \<times> 'a kmst_scheme) option" where
  "allocuvm pgdir oldsz newsz s =
     (if newsz \<ge> KERNBASE then Some (0, s)
      else if newsz < oldsz then Some (oldsz, s)
      else allocuvm_loop (page_addrs (PGROUNDUP oldsz) newsz) pgdir oldsz newsz s)"

text \<open>
  \<^verbatim>\<open>freevm\<close>: four nested loops over the entries of the tables. \<open>free_entries f\<close> calls \<open>f\<close> on the page
  of every present entry.
\<close>

fun free_entries ::
  "(u64 \<Rightarrow> 'a kmst_scheme \<Rightarrow> 'a kmst_scheme option) \<Rightarrow> nat list \<Rightarrow> u64 \<Rightarrow> 'a kmst_scheme \<Rightarrow> 'a kmst_scheme option" where
  "free_entries f [] tab s = Some s"
| "free_entries f (i # is) tab s =
     (if get_pte tab i s AND PTE_P \<noteq> 0 then do {
        s \<leftarrow> f (P2V (PTE_ADDR (get_pte tab i s))) s;
        free_entries f is tab s
      } else free_entries f is tab s)"

definition free_pt :: "u64 \<Rightarrow> 'a kmst_scheme \<Rightarrow> 'a kmst_scheme option" where
  "free_pt pt s = do { s \<leftarrow> free_entries kfree [0..<512] pt s; kfree pt s }"

definition free_pd :: "u64 \<Rightarrow> 'a kmst_scheme \<Rightarrow> 'a kmst_scheme option" where
  "free_pd pd s = do { s \<leftarrow> free_entries free_pt [0..<512] pd s; kfree pd s }"

definition free_pdp :: "u64 \<Rightarrow> 'a kmst_scheme \<Rightarrow> 'a kmst_scheme option" where
  "free_pdp pdp s = do { s \<leftarrow> free_entries free_pd [0..<512] pdp s; kfree pdp s }"

definition freevm :: "u64 \<Rightarrow> 'a kmst_scheme \<Rightarrow> 'a kmst_scheme option" where
  "freevm pml4 s =
     (if pml4 = 0 then panic ''freevm: no pgdir''
      else do { s \<leftarrow> free_entries free_pdp [0..<256] pml4 s; kfree pml4 s })"

definition clearpteu :: "u64 \<Rightarrow> u64 \<Rightarrow> 'a kmst_scheme \<Rightarrow> 'a kmst_scheme option" where
  "clearpteu pgdir uva s = do {
     (r, s) \<leftarrow> walkpgdir pgdir uva False s;
     case r of
       None \<Rightarrow> panic ''clearpteu''
     | Some (tab, i) \<Rightarrow> Some (set_pte tab i (get_pte tab i s AND NOT PTE_U) s)
   }"

fun copyuvm_loop :: "u64 list \<Rightarrow> u64 \<Rightarrow> u64 \<Rightarrow> 'a kmst_scheme \<Rightarrow> (bool \<times> 'a kmst_scheme) option" where
  "copyuvm_loop [] pgdir d s = Some (True, s)"
| "copyuvm_loop (i # is) pgdir d s = do {
     (r, s) \<leftarrow> walkpgdir pgdir i False s;
     case r of
       None \<Rightarrow> panic ''copyuvm: pte should exist''
     | Some (tab, k) \<Rightarrow>
         let pte = get_pte tab k s in
         if pte AND PTE_P = 0 then panic ''copyuvm: page not present''
         else do {
           (mem, s) \<leftarrow> kalloc s;
           let s = set_frame mem (frames s (P2V (PTE_ADDR pte))) s;
           (r, s) \<leftarrow> mappages d i 4096 (V2P mem) (PTE_FLAGS pte) s;
           if r < 0 then Some (False, s) else copyuvm_loop is pgdir d s
         }
   }"

text \<open>The size of the parent is converted to an unsigned int.\<close>

definition copyuvm :: "u64 \<Rightarrow> u32 \<Rightarrow> 'a kmst_scheme \<Rightarrow> (u64 \<times> 'a kmst_scheme) option" where
  "copyuvm pgdir sz s = do {
     (d, s) \<leftarrow> setupkvm s;
     (ok, s) \<leftarrow> copyuvm_loop (page_addrs 4096 (ucast sz)) pgdir d s;
     if ok then Some (d, s) else do { s \<leftarrow> freevm d s; Some (0, s) }
   }"

section \<open>Copying between kernel and user memory\<close>

text \<open>
  \<^verbatim>\<open>uva2ka\<close> reads through the pointer \<^verbatim>\<open>walkpgdir\<close> returns without a test: a missing page table is a
  fault in the kernel. The inner \<open>None\<close> is the null pointer.
\<close>

definition uva2ka :: "u64 \<Rightarrow> u64 \<Rightarrow> 'a kmst_scheme \<Rightarrow> u64 option option" where
  "uva2ka pgdir uva s = do {
     (r, _) \<leftarrow> walkpgdir pgdir uva False s;
     case r of
       None \<Rightarrow> None
     | Some (tab, i) \<Rightarrow>
         let pte = get_pte tab i s in
         if pte AND PTE_P = 0 then Some None
         else if pte AND PTE_U = 0 then Some None
         else Some (Some (P2V (PTE_ADDR pte)))
   }"

text \<open>
  The kernel addresses the first and the fourth gigabyte of physical memory directly
  (\<^verbatim>\<open>kvmalloc\<close>); any other access is a fault. Bytes are read one by one, across page borders.
\<close>

definition kmapped :: "u64 \<Rightarrow> bool" where
  "kmapped a \<longleftrightarrow> V2P a < 0x40000000 \<or> 0xC0000000 \<le> V2P a \<and> V2P a < 0x100000000"

definition kbyte :: "u64 \<Rightarrow> 'a kmst_scheme \<Rightarrow> byte option" where
  "kbyte a s =
     (if kmapped a then Some (frames s (PGROUNDDOWN a) ! unat (a AND 4095)) else None)"

fun kbytes :: "u64 \<Rightarrow> nat \<Rightarrow> 'a kmst_scheme \<Rightarrow> byte list option" where
  "kbytes a 0 s = Some []"
| "kbytes a (Suc n) s = do { b \<leftarrow> kbyte a s; bs \<leftarrow> kbytes (a + 1) n s; Some (b # bs) }"

lemma page_offset: "va - PGROUNDDOWN va = va AND 4095"
proof -
  have "(va AND NOT 4095) + (va AND 4095) = (va AND NOT 4095) OR (va AND 4095)"
    by (rule disjunctive_add) (simp add: bit_simps)
  also have "\<dots> = va"
    by (rule bit_eqI) (auto simp: bit_simps)
  finally show ?thesis by (simp add: PGROUNDDOWN_def algebra_simps)
qed

lemma page_offset_less: "unat (va - PGROUNDDOWN va) < PGSIZE"
proof -
  have "va AND 4095 = take_bit 12 va" by (simp add: take_bit_eq_mask mask_eq_exp_minus_1)
  then have "unat (va - PGROUNDDOWN va) = take_bit 12 (unat va)" by (simp add: page_offset unsigned_take_bit_eq)
  then show ?thesis using take_bit_nat_less_exp [of 12 "unat va"] by simp
qed

function copyout :: "u64 \<Rightarrow> u64 \<Rightarrow> byte list \<Rightarrow> 'a kmst_scheme \<Rightarrow> (int \<times> 'a kmst_scheme) option" where
  "copyout pgdir va buf s =
     (if buf = [] then Some (0, s)
      else do {
        let va0 = PGROUNDDOWN va;
        r \<leftarrow> uva2ka pgdir va0 s;
        case r of
          None \<Rightarrow> Some (-1, s)
        | Some pa0 \<Rightarrow>
            let n = min (PGSIZE - unat (va - va0)) (length buf);
                s = set_frame pa0 (blit (unat (va - va0)) (take n buf) (frames s pa0)) s
            in copyout pgdir (va0 + 4096) (drop n buf) s
      })"
  by pat_completeness auto
termination
  by (relation "measure (\<lambda>(pgdir, va, buf, s). length buf)") (auto simp: page_offset_less)

declare copyout.simps [simp del]

text \<open>
  \<^verbatim>\<open>copyin\<close> cuts the page address down to 32 bits; the difference \<^verbatim>\<open>srcva - va0\<close> and the count \<^verbatim>\<open>n\<close> are
  computed modulo \<open>2\<^sup>6\<^sup>4\<close>.
\<close>

definition copyin_page :: "u64 \<Rightarrow> u64" where
  "copyin_page srcva = ucast (ucast (PGROUNDDOWN srcva) :: u32)"

definition copyin_count :: "u64 \<Rightarrow> nat \<Rightarrow> nat" where
  "copyin_count srcva len = min (unat (4096 - (srcva - copyin_page srcva))) len"

text \<open>What \<^verbatim>\<open>srcva - va0\<close> is: the offset in the page and the upper half of the address.\<close>

lemma copyin_offset: "srcva - copyin_page srcva = srcva AND NOT (copyin_page srcva)"
proof -
  have "copyin_page srcva + (srcva AND NOT (copyin_page srcva)) = copyin_page srcva OR (srcva AND NOT (copyin_page srcva))"
    by (rule disjunctive_add) (simp add: bit_simps)
  also have "\<dots> = srcva"
    by (rule bit_eqI) (auto simp: copyin_page_def PGROUNDDOWN_def bit_simps)
  finally show ?thesis by (simp add: algebra_simps)
qed

lemma copyin_count_pos:
  assumes "0 < len"
  shows "0 < copyin_count srcva len"
proof -
  have "srcva - copyin_page srcva \<noteq> 4096"
  proof
    assume "srcva - copyin_page srcva = 4096"
    then have "bit (srcva AND NOT (copyin_page srcva)) 12 = bit (4096 :: u64) 12" by (simp only: copyin_offset)
    then show False by (simp add: copyin_page_def PGROUNDDOWN_def bit_simps)
  qed
  then show ?thesis using assms by (simp add: copyin_count_def unat_gt_0)
qed

function copyin :: "u64 \<Rightarrow> u64 \<Rightarrow> nat \<Rightarrow> 'a kmst_scheme \<Rightarrow> byte list option option" where
  "copyin pgdir srcva len s =
     (if len = 0 then Some (Some [])
      else do {
        r \<leftarrow> uva2ka pgdir (copyin_page srcva) s;
        case r of
          None \<Rightarrow> Some None
        | Some pa0 \<Rightarrow> do {
            let n = copyin_count srcva len;
            bs \<leftarrow> kbytes (pa0 + (srcva - copyin_page srcva)) n s;
            r \<leftarrow> copyin pgdir (srcva + of_nat n) (len - n) s;
            Some (case r of None \<Rightarrow> None | Some cs \<Rightarrow> Some (bs @ cs))
          }
      })"
  by pat_completeness auto
termination
  by (relation "measure (\<lambda>(pgdir, srcva, len, s). len)") (auto intro!: diff_less copyin_count_pos)

declare copyin.simps [simp del]

section \<open>A state to start from\<close>

definition km_boot :: kmst where
  "km_boot = fsst.extend fs_boot \<lparr>k_end = KERNBASE + 0x200000, freelist = 0, frames = (\<lambda>_. zero_page), kpml4 = 0, kpdpt = 0\<rparr>"

end
