(* ===== verification/Xv6_Proc.thy ===== *)
theory Xv6_Proc
  imports Xv6_Vm Xv6_Msg
begin

text \<open>
  The process table of \<^verbatim>\<open>proc.c\<close> and the operations on it that run under \<^verbatim>\<open>ptable.lock\<close>: sleeping and
  waking, \<^verbatim>\<open>kill\<close>, the scheduler, and the message passing of \<^verbatim>\<open>ipc_send_msg\<close> and \<^verbatim>\<open>ipc_recv_msg\<close>.

  A \<^verbatim>\<open>struct proc*\<close> is an index into the table. The lock makes the section between two calls of
  \<^verbatim>\<open>sleep\<close> atomic, so each of the waiting loops is a function for one evaluation of its condition:
  it either finishes or puts the process to sleep, and is called again when the process is woken.
  The caller \<open>me\<close> is the running process. A sleep channel is an address in the code, and a
  constructor for the object at that address here.
\<close>

abbreviation (input) NPROC :: nat where "NPROC \<equiv> 64"
abbreviation (input) NOFILE :: nat where "NOFILE \<equiv> 16"

datatype procstate = UNUSED | EMBRYO | SLEEPING | RUNNABLE | RUNNING | ZOMBIE | WAITING_IPC_REPLY

datatype chan = ChanProc nat | ChanMail nat | ChanPipeR u64 | ChanPipeW u64 | ChanTicks

text \<open>The registers of a trap frame that the kernel reads or writes.\<close>

record trapframe =
  tf_rax :: u64
  tf_rcx :: u64
  tf_rdx :: u64
  tf_rsi :: u64
  tf_rdi :: u64
  tf_r8 :: u64
  tf_r9 :: u64
  tf_r10 :: u64
  tf_r11 :: u64
  tf_rip :: u64
  tf_rsp :: u64

record proc =
  pr_sz :: u64
  pr_pgdir :: u64
  pr_kstack :: u64
  pr_state :: procstate
  pr_pid :: int
  pr_parent :: "nat option"
  pr_tf :: trapframe
  pr_chan :: "chan option"
  pr_killed :: bool
  pr_ofile :: "nat option list"
  pr_cwd :: "nat option"
  pr_name :: "byte list"
  mailbox :: ipc_msg
  has_msg :: bool

record ptable =
  procs :: "proc list"
  nextpid :: int
  fs_pid :: int
  initproc :: nat

abbreviation proc_at :: "ptable \<Rightarrow> nat \<Rightarrow> proc" where "proc_at pt i \<equiv> procs pt ! i"

definition upd_proc :: "nat \<Rightarrow> (proc \<Rightarrow> proc) \<Rightarrow> ptable \<Rightarrow> ptable" where
  "upd_proc i f pt = pt\<lparr>procs := (procs pt)[i := f (procs pt ! i)]\<rparr>"

section \<open>Sleeping and waking\<close>

definition wake_proc :: "chan \<Rightarrow> proc \<Rightarrow> proc" where
  "wake_proc c p = (if pr_state p = SLEEPING \<and> pr_chan p = Some c then p\<lparr>pr_state := RUNNABLE\<rparr> else p)"

definition wakeup1 :: "chan \<Rightarrow> ptable \<Rightarrow> ptable" where
  "wakeup1 c pt = pt\<lparr>procs := map (wake_proc c) (procs pt)\<rparr>"

definition wakeup :: "chan \<Rightarrow> ptable \<Rightarrow> ptable" where
  "wakeup c pt = wakeup1 c pt"

text \<open>\<^verbatim>\<open>sleep\<close> up to the switch to the scheduler, and from the return of the switch on.\<close>

definition sleep :: "nat \<Rightarrow> chan \<Rightarrow> ptable \<Rightarrow> ptable" where
  "sleep me c pt = upd_proc me (\<lambda>p. p\<lparr>pr_chan := Some c, pr_state := SLEEPING\<rparr>) pt"

definition sleep_return :: "nat \<Rightarrow> ptable \<Rightarrow> ptable" where
  "sleep_return me pt = upd_proc me (\<lambda>p. p\<lparr>pr_chan := None\<rparr>) pt"

definition yield :: "nat \<Rightarrow> ptable \<Rightarrow> ptable" where
  "yield me pt = upd_proc me (\<lambda>p. p\<lparr>pr_state := RUNNABLE\<rparr>) pt"

definition kill :: "int \<Rightarrow> ptable \<Rightarrow> int \<times> ptable" where
  "kill pid pt =
     (case first_idx (\<lambda>p. pr_pid p = pid) (procs pt) of
        Some i \<Rightarrow>
          (0, upd_proc i (\<lambda>p. p\<lparr>pr_killed := True, pr_state := (if pr_state p = SLEEPING then RUNNABLE else pr_state p)\<rparr>) pt)
      | None \<Rightarrow> (-1, pt))"

text \<open>
  One pass of \<^verbatim>\<open>scheduler\<close> over the table. \<open>run\<close> is what a process does from the switch to it until
  it switches back. The pass returns the processes it has run, in order.
\<close>

fun scheduler_pass :: "(nat \<Rightarrow> ptable \<Rightarrow> ptable) \<Rightarrow> nat list \<Rightarrow> ptable \<Rightarrow> nat list \<times> ptable" where
  "scheduler_pass run [] pt = ([], pt)"
| "scheduler_pass run (p # ps) pt =
     (if pr_state (proc_at pt p) \<noteq> RUNNABLE then scheduler_pass run ps pt
      else
        (case scheduler_pass run ps (run p (upd_proc p (\<lambda>q. q\<lparr>pr_state := RUNNING\<rparr>) pt)) of
           (tr, pt) \<Rightarrow> (p # tr, pt)))"

definition scheduler :: "(nat \<Rightarrow> ptable \<Rightarrow> ptable) \<Rightarrow> ptable \<Rightarrow> nat list \<times> ptable" where
  "scheduler run pt = scheduler_pass run [0..<NPROC] pt"

section \<open>The process listing\<close>

definition state_name :: "procstate \<Rightarrow> string" where
  "state_name st = (case st of UNUSED \<Rightarrow> ''unused'' | EMBRYO \<Rightarrow> ''embryo'' | SLEEPING \<Rightarrow> ''sleep ''
     | RUNNABLE \<Rightarrow> ''runble'' | RUNNING \<Rightarrow> ''run   '' | ZOMBIE \<Rightarrow> ''zombie'' | WAITING_IPC_REPLY \<Rightarrow> ''???'')"

definition cstring :: "string \<Rightarrow> byte list" where
  "cstring cs = map of_char cs @ [0]"

text \<open>\<open>pcs\<close> are the return addresses found on the stack of a sleeping process.\<close>

fun procdump_pcs :: "u64 list \<Rightarrow> 'a consst_scheme \<Rightarrow> 'a consst_scheme option" where
  "procdump_pcs [] s = Some s"
| "procdump_pcs (pc # pcs) s =
     (if pc = 0 then Some s
      else do { s \<leftarrow> cprintf (cstring '' %p'') [AAddr pc] s; procdump_pcs pcs s })"

fun procdump :: "(proc \<Rightarrow> u64 list) \<Rightarrow> proc list \<Rightarrow> 'a consst_scheme \<Rightarrow> 'a consst_scheme option" where
  "procdump stack [] s = Some s"
| "procdump stack (p # ps) s =
     (if pr_state p = UNUSED then procdump stack ps s
      else do {
        s \<leftarrow> cprintf (cstring ''%d %s %s'')
               [AInt (word_of_int (pr_pid p)), AStr (Some (cstring (state_name (pr_state p)))), AStr (Some (pr_name p))] s;
        s \<leftarrow> (if pr_state p = SLEEPING then procdump_pcs (stack p) s else Some s);
        s \<leftarrow> cprintf (cstring [CHR 10]) [] s;
        procdump stack ps s
      })"

section \<open>Messages\<close>

definition register_fsserver :: "nat \<Rightarrow> ptable \<Rightarrow> int \<times> ptable" where
  "register_fsserver me pt = (0, pt\<lparr>fs_pid := pr_pid (proc_at pt me)\<rparr>)"

definition get_fsserver_pid :: "ptable \<Rightarrow> int" where
  "get_fsserver_pid pt = fs_pid pt"

definition is_fsserver :: "nat \<Rightarrow> ptable \<Rightarrow> bool" where
  "is_fsserver me pt \<longleftrightarrow> fs_pid pt = pr_pid (proc_at pt me)"

text \<open>What a section under the lock ends with: a return value, or the call of \<^verbatim>\<open>sleep\<close>.\<close>

datatype 'r outcome = Return 'r | Asleep

text \<open>The loop of \<^verbatim>\<open>ipc_send_msg\<close>, entered for the first time or again after \<^verbatim>\<open>sleep\<close>.\<close>

definition ipc_send_loop :: "nat \<Rightarrow> nat \<Rightarrow> ipc_msg \<Rightarrow> ptable \<Rightarrow> int outcome \<times> ptable" where
  "ipc_send_loop me t kmsg pt =
     (if has_msg (proc_at pt t) then
        if pr_killed (proc_at pt me) \<or> pr_state (proc_at pt t) = UNUSED \<or> pr_state (proc_at pt t) = ZOMBIE
           \<or> pr_killed (proc_at pt t)
        then (Return (-1), pt)
        else (Asleep, sleep me (ChanMail t) pt)
      else
        (Return 0, wakeup1 (ChanProc t) (upd_proc t (\<lambda>p. p\<lparr>mailbox := kmsg, has_msg := True\<rparr>) pt)))"

text \<open>
  \<^verbatim>\<open>ipc_send_msg\<close> up to the first call of \<^verbatim>\<open>sleep\<close>, with the target and the message the loop works on
  when the process has gone to sleep.
\<close>

definition ipc_send_msg :: "nat \<Rightarrow> int \<Rightarrow> ipc_msg \<Rightarrow> ptable \<Rightarrow> (int outcome \<times> (nat \<times> ipc_msg) option) \<times> ptable" where
  "ipc_send_msg me pid msg pt =
     (let kmsg = msg\<lparr>m_sender := pr_pid (proc_at pt me)\<rparr> in
      if \<not> valid_ipc_msg kmsg then ((Return (-1), None), pt)
      else
        (case first_idx (\<lambda>p. pr_pid p = pid) (procs pt) of
           None \<Rightarrow> ((Return (-1), None), pt)
         | Some t \<Rightarrow>
             if pr_state (proc_at pt t) = UNUSED \<or> pr_state (proc_at pt t) = EMBRYO \<or> pr_state (proc_at pt t) = ZOMBIE
                \<or> pr_killed (proc_at pt t)
             then ((Return (-1), None), pt)
             else (case ipc_send_loop me t kmsg pt of (r, pt) \<Rightarrow> ((r, Some (t, kmsg)), pt))))"

text \<open>The loop of \<^verbatim>\<open>ipc_recv_msg\<close> with the code after it; the \<open>None\<close> in a result is \<^verbatim>\<open>return -1\<close>.\<close>

definition ipc_recv_msg :: "nat \<Rightarrow> ptable \<Rightarrow> ipc_msg option outcome \<times> ptable" where
  "ipc_recv_msg me pt =
     (if \<not> has_msg (proc_at pt me) then
        if pr_killed (proc_at pt me) then (Return None, pt) else (Asleep, sleep me (ChanProc me) pt)
      else
        (Return (Some (mailbox (proc_at pt me))),
         wakeup1 (ChanMail me) (upd_proc me (\<lambda>p. p\<lparr>has_msg := False, mailbox := zero_msg\<rparr>) pt)))"

section \<open>The life of a process, as far as the table is concerned\<close>

text \<open>
  The part of \<^verbatim>\<open>allocproc\<close> that claims a slot, the end of \<^verbatim>\<open>exit\<close> that runs under the lock, and what
  \<^verbatim>\<open>wait\<close> does to the slot of a zombie. \<^verbatim>\<open>nextpid\<close> must not leave the range of an \<^verbatim>\<open>int\<close>.
\<close>

definition claim_slot :: "ptable \<Rightarrow> (nat option \<times> ptable) option" where
  "claim_slot pt =
     (case first_idx (\<lambda>p. pr_state p = UNUSED) (procs pt) of
        None \<Rightarrow> Some (None, pt)
      | Some i \<Rightarrow>
          if nextpid pt \<ge> 2 ^ 31 - 1 then None
          else
            Some (Some i, upd_proc i (\<lambda>p. p\<lparr>pr_state := EMBRYO, pr_pid := nextpid pt, mailbox := zero_msg, has_msg := False\<rparr>)
              (pt\<lparr>nextpid := nextpid pt + 1\<rparr>)))"

fun reparent :: "nat list \<Rightarrow> nat \<Rightarrow> ptable \<Rightarrow> ptable" where
  "reparent [] me pt = pt"
| "reparent (i # is) me pt =
     (if pr_parent (proc_at pt i) = Some me then
        let pt = upd_proc i (\<lambda>p. p\<lparr>pr_parent := Some (initproc pt)\<rparr>) pt in
        reparent is me (if pr_state (proc_at pt i) = ZOMBIE then wakeup1 (ChanProc (initproc pt)) pt else pt)
      else reparent is me pt)"

definition exit_locked :: "nat \<Rightarrow> ptable \<Rightarrow> ptable" where
  "exit_locked me pt =
     (let pt = (if fs_pid pt = pr_pid (proc_at pt me) then pt\<lparr>fs_pid := -1\<rparr> else pt);
          pt = upd_proc me (\<lambda>p. p\<lparr>has_msg := False, mailbox := zero_msg\<rparr>) pt;
          pt = wakeup1 (ChanMail me) pt;
          pt = (case pr_parent (proc_at pt me) of Some i \<Rightarrow> wakeup1 (ChanProc i) pt | None \<Rightarrow> pt);
          pt = reparent [0..<NPROC] me pt
      in upd_proc me (\<lambda>p. p\<lparr>pr_state := ZOMBIE\<rparr>) pt)"

definition reap :: "nat \<Rightarrow> ptable \<Rightarrow> ptable" where
  "reap i pt = upd_proc i (\<lambda>p. p\<lparr>pr_kstack := 0, pr_pid := 0, pr_parent := None, pr_name := (pr_name p)[0 := 0],
     pr_killed := False, mailbox := zero_msg, has_msg := False, pr_state := UNUSED\<rparr>) pt"

text \<open>One scan of \<^verbatim>\<open>wait\<close>: the first child that has exited, and whether there is a child at all.\<close>

definition find_zombie :: "nat \<Rightarrow> ptable \<Rightarrow> nat option" where
  "find_zombie me pt = first_idx (\<lambda>p. pr_parent p = Some me \<and> pr_state p = ZOMBIE) (procs pt)"

definition havekids :: "nat \<Rightarrow> ptable \<Rightarrow> bool" where
  "havekids me pt \<longleftrightarrow> (\<exists>p \<in> set (procs pt). pr_parent p = Some me)"

text \<open>The table after \<^verbatim>\<open>userinit\<close>: the first process, and free slots.\<close>

definition empty_proc :: proc where
  "empty_proc = \<lparr>pr_sz = 0, pr_pgdir = 0, pr_kstack = 0, pr_state = UNUSED, pr_pid = 0, pr_parent = None,
     pr_tf = \<lparr>tf_rax = 0, tf_rcx = 0, tf_rdx = 0, tf_rsi = 0, tf_rdi = 0, tf_r8 = 0, tf_r9 = 0, tf_r10 = 0, tf_r11 = 0,
       tf_rip = 0, tf_rsp = 0\<rparr>,
     pr_chan = None, pr_killed = False, pr_ofile = replicate NOFILE None, pr_cwd = None, pr_name = replicate 16 0,
     mailbox = zero_msg, has_msg = False\<rparr>"

definition boot_table :: ptable where
  "boot_table = \<lparr>procs = empty_proc\<lparr>pr_state := RUNNABLE, pr_pid := 1\<rparr> # replicate (NPROC - 1) empty_proc,
     nextpid = 2, fs_pid = -1, initproc = 0\<rparr>"

end
