(* ===== verification/Xv6_File.thy ===== *)
theory Xv6_File
  imports Xv6_Proc
begin

text \<open>
  Open files and pipes: \<^verbatim>\<open>file.c\<close> and \<^verbatim>\<open>pipe.c\<close>.

  The state adds the process table with the running process, the file table, and the pipes by
  the address of their page. A \<^verbatim>\<open>struct file*\<close> is an index into the table. Reading and writing a
  pipe can put the process to sleep: as for messages, there is a function that runs up to the
  next call of \<^verbatim>\<open>sleep\<close>, and for a single thread of control a pipe operation that sleeps does not
  return.
\<close>

abbreviation (input) NFILE :: nat where "NFILE \<equiv> 100"
abbreviation (input) PIPESIZE :: nat where "PIPESIZE \<equiv> 512"

datatype ftype = FD_NONE | FD_PIPE | FD_INODE | FD_REMOTE

record kfile =
  f_type :: ftype
  f_ref :: int
  f_readable :: bool
  f_writable :: bool
  f_pipe :: u64
  f_ip :: "nat option"
  f_off :: u32
  f_remote_fd :: int
  f_remote_owner :: int

record pipe =
  p_data :: "byte list"
  p_nread :: u32
  p_nwrite :: u32
  p_readopen :: bool
  p_writeopen :: bool

record filest = kmst +
  pt :: ptable
  cur :: nat
  ftable :: "kfile list"
  pipes :: "u64 \<Rightarrow> pipe"

abbreviation cur_proc :: "'a filest_scheme \<Rightarrow> proc" where "cur_proc s \<equiv> procs (pt s) ! cur s"
abbreviation file_at :: "'a filest_scheme \<Rightarrow> nat \<Rightarrow> kfile" where "file_at s i \<equiv> ftable s ! i"

definition upd_file :: "nat \<Rightarrow> (kfile \<Rightarrow> kfile) \<Rightarrow> 'a filest_scheme \<Rightarrow> 'a filest_scheme" where
  "upd_file i f s = s\<lparr>ftable := (ftable s)[i := f (ftable s ! i)]\<rparr>"

definition upd_pipe :: "u64 \<Rightarrow> (pipe \<Rightarrow> pipe) \<Rightarrow> 'a filest_scheme \<Rightarrow> 'a filest_scheme" where
  "upd_pipe p f s = s\<lparr>pipes := (pipes s)(p := f (pipes s p))\<rparr>"

text \<open>A change of the process table; \<^verbatim>\<open>proc->killed\<close> is also what the console code reads.\<close>

definition set_pt :: "ptable \<Rightarrow> 'a filest_scheme \<Rightarrow> 'a filest_scheme" where
  "set_pt t s = s\<lparr>pt := t, p_killed := pr_killed (procs t ! cur s)\<rparr>"

section \<open>The file table\<close>

definition filealloc :: "'a filest_scheme \<Rightarrow> nat option \<times> 'a filest_scheme" where
  "filealloc s =
     (case first_idx (\<lambda>f. f_ref f = 0) (ftable s) of
        Some i \<Rightarrow>
          (Some i, upd_file i (\<lambda>_. \<lparr>f_type = FD_NONE, f_ref = 1, f_readable = False, f_writable = False, f_pipe = 0,
             f_ip = None, f_off = 0, f_remote_fd = -1, f_remote_owner = -1\<rparr>) s)
      | None \<Rightarrow> (None, s))"

definition filedup :: "nat \<Rightarrow> 'a filest_scheme \<Rightarrow> 'a filest_scheme option" where
  "filedup i s =
     (if f_ref (file_at s i) < 1 then panic ''filedup''
      else Some (upd_file i (\<lambda>f. f\<lparr>f_ref := f_ref f + 1\<rparr>) s))"

definition pipeclose :: "u64 \<Rightarrow> bool \<Rightarrow> 'a filest_scheme \<Rightarrow> 'a filest_scheme option" where
  "pipeclose p writable s =
     (let s = (if writable then set_pt (wakeup (ChanPipeR p) (pt s)) (upd_pipe p (\<lambda>q. q\<lparr>p_writeopen := False\<rparr>) s)
               else set_pt (wakeup (ChanPipeW p) (pt s)) (upd_pipe p (\<lambda>q. q\<lparr>p_readopen := False\<rparr>) s))
      in if \<not> p_readopen (pipes s p) \<and> \<not> p_writeopen (pipes s p) then kfree p s else Some s)"

definition fileclose :: "nat \<Rightarrow> 'a filest_scheme \<Rightarrow> 'a filest_scheme option" where
  "fileclose i s =
     (if f_ref (file_at s i) < 1 then panic ''fileclose''
      else
        let s = upd_file i (\<lambda>f. f\<lparr>f_ref := f_ref f - 1\<rparr>) s in
        if f_ref (file_at s i) > 0 then Some s
        else do {
          let ff = file_at s i;
          let s = upd_file i (\<lambda>f. f\<lparr>f_ref := 0, f_type := FD_NONE, f_remote_fd := -1, f_remote_owner := -1\<rparr>) s;
          if f_type ff = FD_PIPE then pipeclose (f_pipe ff) (f_writable ff) s
          else if f_type ff = FD_INODE then
            (case f_ip ff of
               None \<Rightarrow> None
             | Some ip \<Rightarrow> do { s \<leftarrow> begin_op s; s \<leftarrow> iput ip s; end_op s })
          else Some s
        })"

definition filestat :: "nat \<Rightarrow> 'a filest_scheme \<Rightarrow> (stat option \<times> 'a filest_scheme) option" where
  "filestat i s =
     (if f_type (file_at s i) = FD_INODE then
        (case f_ip (file_at s i) of
           None \<Rightarrow> panic ''ilock''
         | Some ip \<Rightarrow> do {
             s \<leftarrow> ilock ip s;
             let st = stati (inode_at s ip);
             s \<leftarrow> iunlock ip s;
             Some (Some st, s)
           })
      else Some (None, s))"

section \<open>Pipes\<close>

text \<open>\<^verbatim>\<open>kalloc\<close> does not return a null pointer, so the clean-up code frees at most the files.\<close>

definition pipealloc :: "'a filest_scheme \<Rightarrow> ((nat \<times> nat) option \<times> 'a filest_scheme) option" where
  "pipealloc s =
     (case filealloc s of
        (None, s) \<Rightarrow> Some (None, s)
      | (Some f0, s) \<Rightarrow>
          (case filealloc s of
             (None, s) \<Rightarrow> do { s \<leftarrow> fileclose f0 s; Some (None, s) }
           | (Some f1, s) \<Rightarrow> do {
               (p, s) \<leftarrow> kalloc s;
               let s = upd_pipe p (\<lambda>q. q\<lparr>p_readopen := True, p_writeopen := True, p_nwrite := 0, p_nread := 0\<rparr>) s;
               let s = upd_file f0 (\<lambda>f. f\<lparr>f_type := FD_PIPE, f_readable := True, f_writable := False, f_pipe := p\<rparr>) s;
               let s = upd_file f1 (\<lambda>f. f\<lparr>f_type := FD_PIPE, f_readable := False, f_writable := True, f_pipe := p\<rparr>) s;
               Some (Some (f0, f1), s)
             }))"

definition pipe_full :: "pipe \<Rightarrow> bool" where
  "pipe_full q \<longleftrightarrow> p_nwrite q = p_nread q + of_nat PIPESIZE"

definition pipe_empty :: "pipe \<Rightarrow> bool" where
  "pipe_empty q \<longleftrightarrow> p_nread q = p_nwrite q"

definition pipe_put :: "byte \<Rightarrow> pipe \<Rightarrow> pipe" where
  "pipe_put b q = q\<lparr>p_data := (p_data q)[unat (p_nwrite q) mod PIPESIZE := b], p_nwrite := p_nwrite q + 1\<rparr>"

definition pipe_get :: "pipe \<Rightarrow> byte \<times> pipe" where
  "pipe_get q = (p_data q ! (unat (p_nread q) mod PIPESIZE), q\<lparr>p_nread := p_nread q + 1\<rparr>)"

text \<open>
  \<^verbatim>\<open>pipewrite\<close> up to its return or its next call of \<^verbatim>\<open>sleep\<close>, with the bytes that are still to be
  written then.
\<close>

fun pipewrite_run :: "u64 \<Rightarrow> byte list \<Rightarrow> 'a filest_scheme \<Rightarrow> (bool outcome \<times> byte list) \<times> 'a filest_scheme" where
  "pipewrite_run p [] s = ((Return True, []), set_pt (wakeup (ChanPipeR p) (pt s)) s)"
| "pipewrite_run p (b # bs) s =
     (if pipe_full (pipes s p) then
        if \<not> p_readopen (pipes s p) \<or> pr_killed (cur_proc s) then ((Return False, b # bs), s)
        else
          ((Asleep, b # bs), set_pt (sleep (cur s) (ChanPipeW p) (wakeup (ChanPipeR p) (pt s))) s)
      else pipewrite_run p bs (upd_pipe p (pipe_put b) s))"

definition pipewrite :: "u64 \<Rightarrow> byte list \<Rightarrow> 'a filest_scheme \<Rightarrow> (int \<times> 'a filest_scheme) option" where
  "pipewrite p bs s =
     (case pipewrite_run p bs s of
        ((Return ok, _), s) \<Rightarrow> Some (if ok then int (length bs) else -1, s)
      | ((Asleep, _), s) \<Rightarrow> blocked)"

fun pipe_copy :: "nat \<Rightarrow> pipe \<Rightarrow> byte list \<times> pipe" where
  "pipe_copy 0 q = ([], q)"
| "pipe_copy (Suc n) q =
     (if pipe_empty q then ([], q)
      else (case pipe_get q of (b, q) \<Rightarrow> (case pipe_copy n q of (bs, q) \<Rightarrow> (b # bs, q))))"

definition piperead_run :: "u64 \<Rightarrow> nat \<Rightarrow> 'a filest_scheme \<Rightarrow> byte list option outcome \<times> 'a filest_scheme" where
  "piperead_run p n s =
     (if pipe_empty (pipes s p) \<and> p_writeopen (pipes s p) then
        if pr_killed (cur_proc s) then (Return None, s)
        else (Asleep, set_pt (sleep (cur s) (ChanPipeR p) (pt s)) s)
      else
        (case pipe_copy n (pipes s p) of
           (bs, q) \<Rightarrow>
             (Return (Some bs), set_pt (wakeup (ChanPipeW p) (pt s)) (upd_pipe p (\<lambda>_. q) s))))"

definition piperead :: "u64 \<Rightarrow> nat \<Rightarrow> 'a filest_scheme \<Rightarrow> ((int \<times> byte list) \<times> 'a filest_scheme) option" where
  "piperead p n s =
     (case piperead_run p n s of
        (Return None, s) \<Rightarrow> Some ((-1, []), s)
      | (Return (Some bs), s) \<Rightarrow> Some ((int (length bs), bs), s)
      | (Asleep, s) \<Rightarrow> blocked)"

section \<open>Reading and writing files\<close>

definition fileread :: "nat \<Rightarrow> nat \<Rightarrow> 'a filest_scheme \<Rightarrow> ((int \<times> byte list) \<times> 'a filest_scheme) option" where
  "fileread i n s =
     (if \<not> f_readable (file_at s i) then Some ((-1, []), s)
      else if f_type (file_at s i) = FD_PIPE then piperead (f_pipe (file_at s i)) n s
      else if f_type (file_at s i) = FD_INODE then
        (case f_ip (file_at s i) of
           None \<Rightarrow> panic ''ilock''
         | Some ip \<Rightarrow> do {
             s \<leftarrow> ilock ip s;
             ((r, bs), s) \<leftarrow> readi ip (f_off (file_at s i)) (of_nat n) s;
             let s = (if r > 0 then upd_file i (\<lambda>f. f\<lparr>f_off := f_off f + word_of_int r\<rparr>) s else s);
             s \<leftarrow> iunlock ip s;
             Some ((r, bs), s)
           })
      else panic ''fileread'')"

text \<open>
  A write to an inode is cut into transactions of at most \<open>6656\<close> bytes, which is
  \<^verbatim>\<open>((LOGSIZE-1-1-2) / 2) * 512\<close>. The result of the loop is whether all bytes were written.
\<close>

function filewrite_loop :: "nat \<Rightarrow> nat \<Rightarrow> byte list \<Rightarrow> 'a filest_scheme \<Rightarrow> (bool \<times> 'a filest_scheme) option" where
  "filewrite_loop i ip src s =
     (if src = [] then Some (True, s)
      else do {
        let n1 = min (length src) (((LOGSIZE - 1 - 1 - 2) div 2) * 512);
        s \<leftarrow> begin_op s;
        s \<leftarrow> ilock ip s;
        (r, s) \<leftarrow> writei ip src (f_off (file_at s i)) (of_nat n1) s;
        let s = (if r > 0 then upd_file i (\<lambda>f. f\<lparr>f_off := f_off f + word_of_int r\<rparr>) s else s);
        s \<leftarrow> iunlock ip s;
        s \<leftarrow> end_op s;
        if r < 0 then Some (False, s)
        else if r \<noteq> int n1 then panic ''short filewrite''
        else filewrite_loop i ip (drop n1 src) s
      })"
  by pat_completeness auto
termination by (relation "measure (\<lambda>(i, ip, src, s). length src)") auto

declare filewrite_loop.simps [simp del]

definition filewrite :: "nat \<Rightarrow> byte list \<Rightarrow> 'a filest_scheme \<Rightarrow> (int \<times> 'a filest_scheme) option" where
  "filewrite i src s =
     (if \<not> f_writable (file_at s i) then Some (-1, s)
      else if f_type (file_at s i) = FD_PIPE then pipewrite (f_pipe (file_at s i)) src s
      else if f_type (file_at s i) = FD_INODE then
        (case f_ip (file_at s i) of
           None \<Rightarrow> panic ''ilock''
         | Some ip \<Rightarrow> do {
             (ok, s) \<leftarrow> filewrite_loop i ip src s;
             Some (if ok then int (length src) else -1, s)
           })
      else panic ''filewrite'')"

section \<open>A state to start from\<close>

definition zero_file :: kfile where
  "zero_file = \<lparr>f_type = FD_NONE, f_ref = 0, f_readable = False, f_writable = False, f_pipe = 0, f_ip = None, f_off = 0,
     f_remote_fd = 0, f_remote_owner = 0\<rparr>"

definition zero_pipe :: pipe where
  "zero_pipe = \<lparr>p_data = replicate PIPESIZE 0, p_nread = 0, p_nwrite = 0, p_readopen = False, p_writeopen = False\<rparr>"

definition file_boot :: filest where
  "file_boot = kmst.extend km_boot
     \<lparr>pt = boot_table, cur = 0, ftable = replicate NFILE zero_file, pipes = (\<lambda>_. zero_pipe)\<rparr>"

lemma file_boot_fields [simp]:
  "pt file_boot = boot_table" "cur file_boot = 0" "ftable file_boot = replicate NFILE zero_file" "pipes file_boot p = zero_pipe"
  by (simp_all add: file_boot_def kmst.defs)

lemma length_boot_table [simp]: "length (procs boot_table) = NPROC"
  by (simp add: boot_table_def)

end
