(* ===== verification/Xv6_Process.thy ===== *)
theory Xv6_Process
  imports Xv6_File
begin

text \<open>
  The life of a process: \<^verbatim>\<open>allocproc\<close>, \<^verbatim>\<open>userinit\<close>, \<^verbatim>\<open>growproc\<close>, \<^verbatim>\<open>fork\<close>, \<^verbatim>\<open>exit\<close> and \<^verbatim>\<open>wait\<close> of \<^verbatim>\<open>proc.c\<close>, and
  \<^verbatim>\<open>exec\<close> of \<^verbatim>\<open>exec.c\<close>, over the process table, the page tables, the file table and the file system.

  \<^verbatim>\<open>exit\<close> ends in the scheduler; its result is the state there. The kernel context that \<^verbatim>\<open>swtch\<close> saves
  and restores is not part of the state.
\<close>

definition upd_pt :: "nat \<Rightarrow> (proc \<Rightarrow> proc) \<Rightarrow> 'a filest_scheme \<Rightarrow> 'a filest_scheme" where
  "upd_pt i f s = set_pt (upd_proc i f (pt s)) s"

definition allocproc :: "'a filest_scheme \<Rightarrow> (nat option \<times> 'a filest_scheme) option" where
  "allocproc s = do {
     (r, t) \<leftarrow> claim_slot (pt s);
     let s = set_pt t s;
     case r of
       None \<Rightarrow> Some (None, s)
     | Some i \<Rightarrow> do {
         (k, s) \<leftarrow> kalloc s;
         Some (Some i, upd_pt i (\<lambda>p. p\<lparr>pr_kstack := k\<rparr>) s)
       }
   }"

definition zero_tf :: trapframe where
  "zero_tf = \<lparr>tf_rax = 0, tf_rcx = 0, tf_rdx = 0, tf_rsi = 0, tf_rdi = 0, tf_r8 = 0, tf_r9 = 0, tf_r10 = 0,
     tf_r11 = 0, tf_rip = 0, tf_rsp = 0\<rparr>"

text \<open>The first process; \<open>initcode\<close> is the binary that the build links into the kernel.\<close>

definition userinit :: "byte list \<Rightarrow> 'a filest_scheme \<Rightarrow> 'a filest_scheme option" where
  "userinit initcode s = do {
     (r, s) \<leftarrow> allocproc s;
     p \<leftarrow> r;
     let s = s\<lparr>pt := (pt s)\<lparr>initproc := p\<rparr>\<rparr>;
     (d, s) \<leftarrow> setupkvm s;
     let s = upd_pt p (\<lambda>q. q\<lparr>pr_pgdir := d\<rparr>) s;
     s \<leftarrow> inituvm d initcode s;
     nm \<leftarrow> safestrcpy (pr_name (procs (pt s) ! p)) (cstring ''initcode'') 16;
     let s = upd_pt p (\<lambda>q. q\<lparr>pr_sz := 8192, pr_tf := zero_tf\<lparr>tf_r11 := 0x200, tf_rsp := 8192, tf_rcx := 4096\<rparr>,
                             pr_name := nm\<rparr>) s;
     (ip, s) \<leftarrow> namei (cstring ''/'') s;
     Some (upd_pt p (\<lambda>q. q\<lparr>pr_cwd := ip, pr_state := RUNNABLE\<rparr>) s)
   }"

text \<open>The argument of \<^verbatim>\<open>growproc\<close> is signed, the sum with the size wraps around.\<close>

definition growproc :: "u64 \<Rightarrow> 'a filest_scheme \<Rightarrow> (int \<times> 'a filest_scheme) option" where
  "growproc n s = do {
     let sz = pr_sz (cur_proc s);
     let d = pr_pgdir (cur_proc s);
     (sz', s) \<leftarrow>
       (if sint n > 0 then allocuvm d sz (sz + n) s
        else if sint n < 0 then deallocuvm d sz (sz + n) s
        else Some (sz, s));
     if sint n \<noteq> 0 \<and> sz' = 0 then Some (-1, s)
     else Some (0, upd_pt (cur s) (\<lambda>p. p\<lparr>pr_sz := sz'\<rparr>) s)
   }"

section \<open>fork, exit and wait\<close>

fun fork_files :: "nat list \<Rightarrow> nat \<Rightarrow> 'a filest_scheme \<Rightarrow> 'a filest_scheme option" where
  "fork_files [] np s = Some s"
| "fork_files (i # is) np s =
     (case pr_ofile (cur_proc s) ! i of
        None \<Rightarrow> fork_files is np s
      | Some f \<Rightarrow> do {
          s \<leftarrow> filedup f s;
          fork_files is np (upd_pt np (\<lambda>p. p\<lparr>pr_ofile := (pr_ofile p)[i := Some f]\<rparr>) s)
        })"

definition fork :: "'a filest_scheme \<Rightarrow> (int \<times> 'a filest_scheme) option" where
  "fork s = do {
     (r, s) \<leftarrow> allocproc s;
     case r of
       None \<Rightarrow> Some (-1, s)
     | Some np \<Rightarrow> do {
         (d, s) \<leftarrow> copyuvm (pr_pgdir (cur_proc s)) (ucast (pr_sz (cur_proc s))) s;
         let s = upd_pt np (\<lambda>p. p\<lparr>pr_pgdir := d\<rparr>) s;
         if d = 0 then do {
           s \<leftarrow> kfree (pr_kstack (procs (pt s) ! np)) s;
           Some (-1, upd_pt np (\<lambda>p. p\<lparr>pr_kstack := 0, pr_state := UNUSED\<rparr>) s)
         } else do {
           let s = upd_pt np (\<lambda>p. p\<lparr>pr_sz := pr_sz (cur_proc s), pr_parent := Some (cur s),
                                    pr_tf := (pr_tf (cur_proc s))\<lparr>tf_rax := 0\<rparr>\<rparr>) s;
           s \<leftarrow> fork_files [0..<NOFILE] np s;
           case idup (p_cwd s) s of
             (ip, s) \<Rightarrow> do {
               nm \<leftarrow> safestrcpy (pr_name (procs (pt s) ! np)) (pr_name (cur_proc s)) 16;
               let pid = pr_pid (procs (pt s) ! np);
               Some (pid, upd_pt np (\<lambda>p. p\<lparr>pr_cwd := Some ip, pr_name := nm, pr_state := RUNNABLE\<rparr>) s)
             }
         }
       }
   }"

fun exit_files :: "nat list \<Rightarrow> 'a filest_scheme \<Rightarrow> 'a filest_scheme option" where
  "exit_files [] s = Some s"
| "exit_files (fd # fds) s =
     (case pr_ofile (cur_proc s) ! fd of
        None \<Rightarrow> exit_files fds s
      | Some f \<Rightarrow> do {
          s \<leftarrow> fileclose f s;
          exit_files fds (upd_pt (cur s) (\<lambda>p. p\<lparr>pr_ofile := (pr_ofile p)[fd := None]\<rparr>) s)
        })"

text \<open>The message of an exiting client to the server.\<close>

definition exit_notify :: "'a filest_scheme \<Rightarrow> 'a filest_scheme option" where
  "exit_notify s =
     (if fs_pid (pt s) > 0 \<and> fs_pid (pt s) \<noteq> pr_pid (cur_proc s) then
        (case ipc_send_msg (cur s) (fs_pid (pt s)) (zero_msg\<lparr>m_type := IPC_TYPE_FS_CLIENT_EXIT\<rparr>) (pt s) of
           ((Return _, _), t) \<Rightarrow> Some (set_pt t s)
         | ((Asleep, _), t) \<Rightarrow> blocked)
      else Some s)"

definition exit :: "'a filest_scheme \<Rightarrow> 'a filest_scheme option" where
  "exit s =
     (if cur s = initproc (pt s) then panic ''init exiting''
      else do {
        s \<leftarrow> exit_notify s;
        s \<leftarrow> exit_files [0..<NOFILE] s;
        s \<leftarrow> begin_op s;
        s \<leftarrow> iput (p_cwd s) s;
        s \<leftarrow> end_op s;
        let s = upd_pt (cur s) (\<lambda>p. p\<lparr>pr_cwd := None\<rparr>) s;
        Some (set_pt (exit_locked (cur s) (pt s)) s)
      })"

text \<open>One scan of \<^verbatim>\<open>wait\<close>; it is repeated after the sleep.\<close>

definition wait :: "'a filest_scheme \<Rightarrow> (int outcome \<times> 'a filest_scheme) option" where
  "wait s =
     (case find_zombie (cur s) (pt s) of
        Some i \<Rightarrow> do {
          let pid = pr_pid (procs (pt s) ! i);
          s \<leftarrow> kfree (pr_kstack (procs (pt s) ! i)) s;
          s \<leftarrow> freevm (pr_pgdir (procs (pt s) ! i)) s;
          Some (Return pid, set_pt (reap i (pt s)) s)
        }
      | None \<Rightarrow>
          if \<not> havekids (cur s) (pt s) \<or> pr_killed (cur_proc s) then Some (Return (-1), s)
          else Some (Asleep, set_pt (sleep (cur s) (ChanProc (cur s)) (pt s)) s))"

text \<open>
  \<^verbatim>\<open>forkret\<close>: the first process to be scheduled initialises the file system. \<open>first\<close> is the static
  variable of the function.
\<close>

definition forkret :: "bool \<Rightarrow> 'a filest_scheme \<Rightarrow> (bool \<times> 'a filest_scheme) option" where
  "forkret first s =
     (if first then do { s \<leftarrow> iinit ROOTDEV s; s \<leftarrow> initlog ROOTDEV s; Some (False, s) } else Some (False, s))"

section \<open>exec\<close>

record elfhdr =
  eh_magic :: u32
  eh_entry :: u64
  eh_phoff :: u64
  eh_phnum :: u16

record proghdr =
  ph_type :: u32
  ph_off :: u64
  ph_vaddr :: u64
  ph_filesz :: u64
  ph_memsz :: u64

definition decode_elfhdr :: "byte list \<Rightarrow> elfhdr" where
  "decode_elfhdr bs = \<lparr>eh_magic = get32 0 bs, eh_entry = get64 24 bs, eh_phoff = get64 32 bs, eh_phnum = get16 56 bs\<rparr>"

definition decode_proghdr :: "byte list \<Rightarrow> proghdr" where
  "decode_proghdr bs = \<lparr>ph_type = get32 0 bs, ph_off = get64 8 bs, ph_vaddr = get64 16 bs, ph_filesz = get64 32 bs,
     ph_memsz = get64 40 bs\<rparr>"

text \<open>The loop over the program headers; the inner \<open>None\<close> is \<^verbatim>\<open>goto bad\<close>. \<^verbatim>\<open>off\<close> is an \<^verbatim>\<open>int\<close>.\<close>

fun exec_load :: "nat \<Rightarrow> u32 \<Rightarrow> u64 \<Rightarrow> nat \<Rightarrow> u64 \<Rightarrow> 'a filest_scheme \<Rightarrow> (u64 option \<times> 'a filest_scheme) option" where
  "exec_load 0 off pgdir ip sz s = Some (Some sz, s)"
| "exec_load (Suc k) off pgdir ip sz s = do {
     ((r, bs), s) \<leftarrow> readi ip off 56 s;
     if r \<noteq> 56 then Some (None, s)
     else
       let ph = decode_proghdr bs in
       if ph_type ph \<noteq> 1 then exec_load k (off + 56) pgdir ip sz s
       else if ph_memsz ph < ph_filesz ph then Some (None, s)
       else if ph_vaddr ph + ph_memsz ph < ph_vaddr ph then Some (None, s)
       else do {
         (sz, s) \<leftarrow> allocuvm pgdir sz (ph_vaddr ph + ph_memsz ph) s;
         if sz = 0 then Some (None, s)
         else if ph_vaddr ph mod 4096 \<noteq> 0 then Some (None, s)
         else do {
           (r, s) \<leftarrow> loaduvm pgdir (ph_vaddr ph) ip (ucast (ph_off ph)) (ucast (ph_filesz ph)) s;
           if r < 0 then Some (None, s) else exec_load k (off + 56) pgdir ip sz s
         }
       }
   }"

abbreviation (input) MAXARG :: nat where "MAXARG \<equiv> 32"

text \<open>Pushing the argument strings: the stack pointer with the addresses of the strings.\<close>

fun exec_args ::
  "byte list list \<Rightarrow> u64 \<Rightarrow> u64 \<Rightarrow> u64 list \<Rightarrow> 'a filest_scheme \<Rightarrow> ((u64 \<times> u64 list) option \<times> 'a filest_scheme) option" where
  "exec_args [] pgdir sp us s = Some (Some (sp, us), s)"
| "exec_args (arg # args) pgdir sp us s =
     (if length us \<ge> MAXARG then Some (None, s)
      else do {
        n \<leftarrow> strlen arg;
        let sp = (sp - of_nat (n + 1)) AND NOT 7;
        (r, s) \<leftarrow> copyout pgdir sp (take (n + 1) arg) s;
        if r < 0 then Some (None, s) else exec_args args pgdir sp (us @ [sp]) s
      })"

fun last_elem :: "byte list \<Rightarrow> byte list \<Rightarrow> byte list" where
  "last_elem [] e = e"
| "last_elem (c # cs) e = (if c = 0 then e else last_elem cs (if c = 47 then cs else e))"

text \<open>The label \<^verbatim>\<open>bad\<close>, before and after the inode has been released.\<close>

definition exec_bad :: "u64 \<Rightarrow> nat option \<Rightarrow> 'a filest_scheme \<Rightarrow> (int \<times> 'a filest_scheme) option" where
  "exec_bad pgdir ip s = do {
     s \<leftarrow> (if pgdir \<noteq> 0 then freevm pgdir s else Some s);
     s \<leftarrow> (case ip of None \<Rightarrow> Some s | Some ip \<Rightarrow> do { s \<leftarrow> iunlockput ip s; end_op s });
     Some (-1, s)
   }"

text \<open>The user stack, and the switch to the new image.\<close>

definition exec_image ::
  "byte list \<Rightarrow> byte list list \<Rightarrow> u64 \<Rightarrow> u64 \<Rightarrow> u64 \<Rightarrow> 'a filest_scheme \<Rightarrow> (int \<times> 'a filest_scheme) option" where
  "exec_image path argv entry pgdir sz s = do {
     let sz = PGROUNDUP sz;
     (sz, s) \<leftarrow> allocuvm pgdir sz (sz + 8192) s;
     if sz = 0 then exec_bad pgdir None s
     else do {
       s \<leftarrow> clearpteu pgdir (sz - 8192) s;
       (r, s) \<leftarrow> exec_args argv pgdir sz [] s;
       case r of
         None \<Rightarrow> exec_bad pgdir None s
       | Some (sp, us) \<Rightarrow> do {
           let argc = length us;
           let s = upd_pt (cur s) (\<lambda>p. p\<lparr>pr_tf := (pr_tf p)\<lparr>tf_rdi := of_nat argc,
                                           tf_rsi := sp - of_nat (argc + 1) * 8\<rparr>\<rparr>) s;
           let sp = sp - of_nat (1 + argc + 1) * 8;
           (r, s) \<leftarrow> copyout pgdir sp (concat (map le64 (0xffffffffffffffff # us @ [0]))) s;
           if r < 0 then exec_bad pgdir None s
           else do {
             nm \<leftarrow> safestrcpy (pr_name (cur_proc s)) (last_elem path path) 16;
             let old = pr_pgdir (cur_proc s);
             let s = upd_pt (cur s) (\<lambda>p. p\<lparr>pr_name := nm, pr_pgdir := pgdir, pr_sz := sz,
                       pr_tf := (pr_tf p)\<lparr>tf_rip := entry, tf_rcx := entry, tf_rsp := sp\<rparr>\<rparr>) s;
             s \<leftarrow> freevm old s;
             Some (0, s)
           }
         }
     }
   }"

definition exec :: "byte list \<Rightarrow> byte list list \<Rightarrow> 'a filest_scheme \<Rightarrow> (int \<times> 'a filest_scheme) option" where
  "exec path argv s = do {
     s \<leftarrow> begin_op s;
     (r, s) \<leftarrow> namei path s;
     case r of
       None \<Rightarrow> do { s \<leftarrow> end_op s; Some (-1, s) }
     | Some ip \<Rightarrow> do {
         s \<leftarrow> ilock ip s;
         ((r, bs), s) \<leftarrow> readi ip 0 64 s;
         let elf = decode_elfhdr bs;
         if r \<noteq> 64 then exec_bad 0 (Some ip) s
         else if eh_magic elf \<noteq> 0x464C457F then exec_bad 0 (Some ip) s
         else do {
           (pgdir, s) \<leftarrow> setupkvm s;
           (r, s) \<leftarrow> exec_load (unat (eh_phnum elf)) (ucast (eh_phoff elf)) pgdir ip 4096 s;
           case r of
             None \<Rightarrow> exec_bad pgdir (Some ip) s
           | Some sz \<Rightarrow> do {
               s \<leftarrow> iunlockput ip s;
               s \<leftarrow> end_op s;
               exec_image path argv (eh_entry elf) pgdir sz s
             }
         }
       }
   }"

end
