(* ===== verification/Xv6_Syscall.thy ===== *)
theory Xv6_Syscall
  imports Xv6_Process
begin

text \<open>
  Arguments of system calls, \<^verbatim>\<open>syscall.c\<close>: the registers of the trap frame, and the memory of the
  running process read and written through its page table.

  A value \<open>None\<close> is a fault in the kernel, an inner \<open>None\<close> the error code of the function. Pointers
  that pass the checks are dereferenced in kernel mode: an address in the kernel's half of the
  address space reaches the kernel's own memory.
\<close>

section \<open>Memory of the running process\<close>

text \<open>The kernel address of the byte at a virtual address.\<close>

definition vaddr :: "u64 \<Rightarrow> 'a filest_scheme \<Rightarrow> u64 option" where
  "vaddr a s =
     (if PMX a = 256 then (if kmapped a then Some a else None)
      else do {
        (r, _) \<leftarrow> walkpgdir (pr_pgdir (cur_proc s)) a False s;
        (tab, i) \<leftarrow> r;
        if get_pte tab i s AND PTE_P = 0 then None
        else Some (P2V (PTE_ADDR (get_pte tab i s)) + (a AND 4095))
      })"

definition vbyte :: "u64 \<Rightarrow> 'a filest_scheme \<Rightarrow> byte option" where
  "vbyte a s = do { v \<leftarrow> vaddr a s; Some (frames s (PGROUNDDOWN v) ! unat (v AND 4095)) }"

fun vbytes :: "u64 \<Rightarrow> nat \<Rightarrow> 'a filest_scheme \<Rightarrow> byte list option" where
  "vbytes a 0 s = Some []"
| "vbytes a (Suc n) s = do { b \<leftarrow> vbyte a s; bs \<leftarrow> vbytes (a + 1) n s; Some (b # bs) }"

fun vstore :: "u64 \<Rightarrow> byte list \<Rightarrow> 'a filest_scheme \<Rightarrow> 'a filest_scheme option" where
  "vstore a [] s = Some s"
| "vstore a (b # bs) s = do {
     v \<leftarrow> vaddr a s;
     vstore (a + 1) bs (set_frame (PGROUNDDOWN v) ((frames s (PGROUNDDOWN v))[unat (v AND 4095) := b]) s)
   }"

section \<open>Fetching arguments\<close>

definition fetchint :: "u64 \<Rightarrow> 'a filest_scheme \<Rightarrow> int option option" where
  "fetchint addr s =
     (let sz = pr_sz (cur_proc s) in
      if addr < 4096 \<or> addr \<ge> sz \<or> addr + 4 > sz then Some None
      else do { bs \<leftarrow> vbytes addr 4 s; Some (Some (sint (get32 0 bs))) })"

definition fetchaddr :: "u64 \<Rightarrow> 'a filest_scheme \<Rightarrow> u64 option option" where
  "fetchaddr addr s =
     (let sz = pr_sz (cur_proc s) in
      if addr < 4096 \<or> addr \<ge> sz \<or> addr + 8 > sz then Some None
      else do { bs \<leftarrow> vbytes addr 8 s; Some (Some (get64 0 bs)) })"

fun fetchstr_scan :: "nat \<Rightarrow> u64 \<Rightarrow> 'a filest_scheme \<Rightarrow> byte list option option" where
  "fetchstr_scan 0 a s = Some None"
| "fetchstr_scan (Suc n) a s = do {
     b \<leftarrow> vbyte a s;
     if b = 0 then Some (Some [0])
     else do { r \<leftarrow> fetchstr_scan n (a + 1) s; Some (map_option ((#) b) r) }
   }"

text \<open>The string with its final zero; its length is what \<^verbatim>\<open>fetchstr\<close> returns.\<close>

definition fetchstr :: "u64 \<Rightarrow> 'a filest_scheme \<Rightarrow> byte list option option" where
  "fetchstr addr s =
     (let sz = pr_sz (cur_proc s) in
      if addr < 4096 \<or> addr \<ge> sz then Some None else fetchstr_scan (unat sz - unat addr) addr s)"

text \<open>Every call of \<^verbatim>\<open>fetcharg\<close> has an index below 6; another index is a panic.\<close>

definition fetcharg :: "nat \<Rightarrow> 'a filest_scheme \<Rightarrow> u64" where
  "fetcharg n s =
     (let tf = pr_tf (cur_proc s) in
      case n of 0 \<Rightarrow> tf_rdi tf | Suc 0 \<Rightarrow> tf_rsi tf | Suc (Suc 0) \<Rightarrow> tf_rdx tf | Suc (Suc (Suc 0)) \<Rightarrow> tf_r10 tf
        | Suc (Suc (Suc (Suc 0))) \<Rightarrow> tf_r8 tf | _ \<Rightarrow> tf_r9 tf)"

definition argint :: "nat \<Rightarrow> 'a filest_scheme \<Rightarrow> int" where
  "argint n s = sint (ucast (fetcharg n s) :: u32)"

definition argaddr :: "nat \<Rightarrow> 'a filest_scheme \<Rightarrow> u64" where
  "argaddr n s = fetcharg n s"

text \<open>\<^verbatim>\<open>argptr\<close> checks the lower half of the pointer and passes on the whole pointer.\<close>

definition argptr :: "nat \<Rightarrow> int \<Rightarrow> 'a filest_scheme \<Rightarrow> u64 option" where
  "argptr n len s =
     (let i = argaddr n s; lo = (ucast i :: u32); sz = pr_sz (cur_proc s) in
      if len < 0 \<or> ucast lo \<ge> sz \<or> ucast (lo + word_of_int len) > sz then None else Some i)"

text \<open>The pointer of \<^verbatim>\<open>argstr\<close> goes through an \<^verbatim>\<open>int\<close>.\<close>

definition argstr :: "nat \<Rightarrow> 'a filest_scheme \<Rightarrow> byte list option option" where
  "argstr n s = fetchstr (scast (ucast (fetcharg n s) :: u32)) s"

end
