(* ===== verification/Xv6_Sysfile.thy ===== *)
theory Xv6_Sysfile
  imports Xv6_Syscall
begin

text \<open>
  The system calls on files, \<^verbatim>\<open>sysfile.c\<close>. While a file server is registered, \<^verbatim>\<open>open\<close> goes to it in
  a message, and \<^verbatim>\<open>read\<close>, \<^verbatim>\<open>write\<close> and \<^verbatim>\<open>close\<close> of the descriptors it returns do too.

  A system call that exchanges messages gives up the processor. Its argument \<open>sch\<close> is what the
  other processes do in the periods in which the caller sleeps, one function for each period; it
  is returned without the periods that have been used up. The caller continues after a period
  that has woken it. A caller that is not woken by the end of \<open>sch\<close> has no result.
\<close>

record sysst = filest +
  next_fs_request_id :: u32

type_synonym 's schedule = "('s \<Rightarrow> 's) list"

section \<open>Waiting for messages\<close>

definition runnable :: "'a filest_scheme \<Rightarrow> bool" where
  "runnable s \<longleftrightarrow> pr_state (cur_proc s) = RUNNABLE"

text \<open>The return from \<^verbatim>\<open>sleep\<close> of a process that the scheduler has picked.\<close>

definition resume :: "'a filest_scheme \<Rightarrow> 'a filest_scheme" where
  "resume s = set_pt (sleep_return (cur s) (upd_proc (cur s) (\<lambda>p. p\<lparr>pr_state := RUNNING\<rparr>) (pt s))) s"

text \<open>The end of a sleep: the others run until the caller has been woken and is scheduled.\<close>

fun await_wakeup ::
  "'a filest_scheme schedule \<Rightarrow> 'a filest_scheme \<Rightarrow> ('a filest_scheme schedule \<times> 'a filest_scheme) option" where
  "await_wakeup [] s = blocked"
| "await_wakeup (others # sch) s =
     (let s = others s in if runnable s then Some (sch, resume s) else await_wakeup sch s)"

lemma await_wakeup_shorter: "await_wakeup sch s = Some (sch', t) \<Longrightarrow> length sch' < length sch"
  by (induction sch s rule: await_wakeup.induct) (auto simp: Let_def less_SucI split: if_splits)

function send_wait ::
  "'a filest_scheme schedule \<Rightarrow> nat \<Rightarrow> ipc_msg \<Rightarrow> 'a filest_scheme
     \<Rightarrow> ((int \<times> 'a filest_scheme schedule) \<times> 'a filest_scheme) option" where
  "send_wait sch t kmsg s = do {
     (sch, s) \<leftarrow> await_wakeup sch s;
     case ipc_send_loop (cur s) t kmsg (pt s) of
       (Return r, tab) \<Rightarrow> Some ((r, sch), set_pt tab s)
     | (Asleep, tab) \<Rightarrow> send_wait sch t kmsg (set_pt tab s)
   }"
  by pat_completeness auto
termination
  by (relation "measure (\<lambda>(sch, t, kmsg, s). length sch)") (auto dest: await_wakeup_shorter)

declare send_wait.simps [simp del]

definition ipc_send ::
  "'a filest_scheme schedule \<Rightarrow> int \<Rightarrow> ipc_msg \<Rightarrow> 'a filest_scheme
     \<Rightarrow> ((int \<times> 'a filest_scheme schedule) \<times> 'a filest_scheme) option" where
  "ipc_send sch pid msg s =
     (case ipc_send_msg (cur s) pid msg (pt s) of
        ((Return r, _), tab) \<Rightarrow> Some ((r, sch), set_pt tab s)
      | ((Asleep, Some (t, kmsg)), tab) \<Rightarrow> send_wait sch t kmsg (set_pt tab s)
      | ((Asleep, None), tab) \<Rightarrow> None)"

function recv_wait ::
  "'a filest_scheme schedule \<Rightarrow> 'a filest_scheme
     \<Rightarrow> ((ipc_msg option \<times> 'a filest_scheme schedule) \<times> 'a filest_scheme) option" where
  "recv_wait sch s = do {
     (sch, s) \<leftarrow> await_wakeup sch s;
     case ipc_recv_msg (cur s) (pt s) of
       (Return r, tab) \<Rightarrow> Some ((r, sch), set_pt tab s)
     | (Asleep, tab) \<Rightarrow> recv_wait sch (set_pt tab s)
   }"
  by pat_completeness auto
termination
  by (relation "measure (\<lambda>(sch, s). length sch)") (auto dest: await_wakeup_shorter)

declare recv_wait.simps [simp del]

definition ipc_recv ::
  "'a filest_scheme schedule \<Rightarrow> 'a filest_scheme
     \<Rightarrow> ((ipc_msg option \<times> 'a filest_scheme schedule) \<times> 'a filest_scheme) option" where
  "ipc_recv sch s =
     (case ipc_recv_msg (cur s) (pt s) of
        (Return r, tab) \<Rightarrow> Some ((r, sch), set_pt tab s)
      | (Asleep, tab) \<Rightarrow> recv_wait sch (set_pt tab s))"

definition fsserver_active :: "'a filest_scheme \<Rightarrow> bool" where
  "fsserver_active s \<longleftrightarrow> get_fsserver_pid (pt s) > 0 \<and> \<not> is_fsserver (cur s) (pt s)"

text \<open>A request and its reply; the inner \<open>None\<close> is the result \<open>-1\<close>.\<close>

definition fs_ipc_call ::
  "'a sysst_scheme schedule \<Rightarrow> ipc_msg \<Rightarrow> 'a sysst_scheme
     \<Rightarrow> ((ipc_msg option \<times> 'a sysst_scheme schedule) \<times> 'a sysst_scheme) option" where
  "fs_ipc_call sch req s =
     (let server_pid = get_fsserver_pid (pt s) in
      if server_pid < 0 then Some ((None, sch), s)
      else do {
        let rid = sint (next_fs_request_id s);
        let s = s\<lparr>next_fs_request_id := next_fs_request_id s + 1\<rparr>;
        ((r, sch), s) \<leftarrow> ipc_send sch server_pid (req\<lparr>m_request_id := rid\<rparr>) s;
        if r < 0 then Some ((None, sch), s)
        else do {
          ((r, sch), s) \<leftarrow> ipc_recv sch s;
          case r of
            None \<Rightarrow> Some ((None, sch), s)
          | Some reply \<Rightarrow>
              if m_type reply \<noteq> IPC_TYPE_FS_REPLY \<or> m_request_id reply \<noteq> rid then Some ((None, sch), s)
              else Some ((Some reply, sch), s)
        }
      })"

section \<open>File descriptors\<close>

definition argfd :: "nat \<Rightarrow> 'a filest_scheme \<Rightarrow> (nat \<times> nat) option" where
  "argfd n s =
     (let fd = argint n s in
      if fd < 0 \<or> fd \<ge> int NOFILE then None
      else (case pr_ofile (cur_proc s) ! nat fd of None \<Rightarrow> None | Some f \<Rightarrow> Some (nat fd, f)))"

definition set_ofile :: "nat \<Rightarrow> nat option \<Rightarrow> 'a filest_scheme \<Rightarrow> 'a filest_scheme" where
  "set_ofile fd f s = upd_pt (cur s) (\<lambda>p. p\<lparr>pr_ofile := (pr_ofile p)[fd := f]\<rparr>) s"

definition fdalloc :: "nat \<Rightarrow> 'a filest_scheme \<Rightarrow> nat option \<times> 'a filest_scheme" where
  "fdalloc f s =
     (case first_idx (\<lambda>x. x = None) (pr_ofile (cur_proc s)) of
        None \<Rightarrow> (None, s)
      | Some fd \<Rightarrow> (Some fd, set_ofile fd (Some f) s))"

definition sys_dup :: "'a filest_scheme \<Rightarrow> (int \<times> 'a filest_scheme) option" where
  "sys_dup s =
     (case argfd 0 s of
        None \<Rightarrow> Some (-1, s)
      | Some (_, f) \<Rightarrow>
          if f_type (file_at s f) = FD_REMOTE then Some (-1, s)
          else
            (case fdalloc f s of
               (None, s) \<Rightarrow> Some (-1, s)
             | (Some fd, s) \<Rightarrow> do { s \<leftarrow> filedup f s; Some (int fd, s) }))"

section \<open>Reading and writing\<close>

text \<open>
  The loop of a remote read. \<^verbatim>\<open>memmove\<close> copies as many bytes as the reply says, also beyond the array
  \<^verbatim>\<open>reply.data\<close>.
\<close>

function remote_read ::
  "int \<Rightarrow> u64 \<Rightarrow> int \<Rightarrow> int \<Rightarrow> 'a sysst_scheme schedule \<Rightarrow> 'a sysst_scheme
     \<Rightarrow> ((int \<times> 'a sysst_scheme schedule) \<times> 'a sysst_scheme) option" where
  "remote_read rfd p n tot sch s =
     (if \<not> tot < n then Some ((tot, sch), s)
      else do {
        let chunk = min (n - tot) (int IPC_DATA_SIZE);
        ((r, sch), s) \<leftarrow> fs_ipc_call sch (zero_msg\<lparr>m_type := IPC_TYPE_FS_READ, m_fd := rfd, m_nbytes := chunk\<rparr>) s;
        case r of
          None \<Rightarrow> Some ((if tot > 0 then tot else -1, sch), s)
        | Some reply \<Rightarrow>
            if m_result reply < 0 then Some ((if tot > 0 then tot else -1, sch), s)
            else if m_nbytes reply > m_result reply then Some ((if tot > 0 then tot else -1, sch), s)
            else if m_result reply = 0 then Some ((tot, sch), s)
            else if m_result reply > int (length (m_data reply)) then None
            else do {
              s \<leftarrow> vstore (p + word_of_int tot) (take (nat (m_result reply)) (m_data reply)) s;
              if m_result reply < chunk then Some ((tot + m_result reply, sch), s)
              else remote_read rfd p n (tot + m_result reply) sch s
            }
      })"
  by pat_completeness auto
termination by (relation "measure (\<lambda>(rfd, p, n, tot, sch, s). nat (n - tot))") auto

declare remote_read.simps [simp del]

definition sys_read ::
  "'a sysst_scheme schedule \<Rightarrow> 'a sysst_scheme \<Rightarrow> ((int \<times> 'a sysst_scheme schedule) \<times> 'a sysst_scheme) option" where
  "sys_read sch s =
     (case (argfd 0 s, argptr 1 (argint 2 s) s) of
        (Some (_, f), Some p) \<Rightarrow>
          if f_type (file_at s f) = FD_REMOTE then remote_read (f_remote_fd (file_at s f)) p (argint 2 s) 0 sch s
          else do {
            ((r, bs), s) \<leftarrow> fileread f (nat (argint 2 s)) s;
            s \<leftarrow> vstore p bs s;
            Some ((r, sch), s)
          }
      | _ \<Rightarrow> Some ((-1, sch), s))"

function remote_write ::
  "int \<Rightarrow> u64 \<Rightarrow> int \<Rightarrow> int \<Rightarrow> 'a sysst_scheme schedule \<Rightarrow> 'a sysst_scheme
     \<Rightarrow> ((int \<times> 'a sysst_scheme schedule) \<times> 'a sysst_scheme) option" where
  "remote_write rfd p n tot sch s =
     (if \<not> tot < n then Some ((tot, sch), s)
      else do {
        let chunk = min (n - tot) (int IPC_DATA_SIZE);
        bs \<leftarrow> vbytes (p + word_of_int tot) (nat chunk) s;
        ((r, sch), s) \<leftarrow> fs_ipc_call sch (zero_msg\<lparr>m_type := IPC_TYPE_FS_WRITE, m_fd := rfd, m_nbytes := chunk,
                            m_data := blit 0 bs (m_data zero_msg)\<rparr>) s;
        case r of
          None \<Rightarrow> Some ((if tot > 0 then tot else -1, sch), s)
        | Some reply \<Rightarrow>
            if m_result reply < 0 then Some ((if tot > 0 then tot else -1, sch), s)
            else if m_result reply = 0 then Some ((tot, sch), s)
            else if m_result reply < chunk then Some ((tot + m_result reply, sch), s)
            else remote_write rfd p n (tot + m_result reply) sch s
      })"
  by pat_completeness auto
termination by (relation "measure (\<lambda>(rfd, p, n, tot, sch, s). nat (n - tot))") auto

declare remote_write.simps [simp del]

definition sys_write ::
  "'a sysst_scheme schedule \<Rightarrow> 'a sysst_scheme \<Rightarrow> ((int \<times> 'a sysst_scheme schedule) \<times> 'a sysst_scheme) option" where
  "sys_write sch s =
     (case (argfd 0 s, argptr 1 (argint 2 s) s) of
        (Some (_, f), Some p) \<Rightarrow>
          if f_type (file_at s f) = FD_REMOTE then remote_write (f_remote_fd (file_at s f)) p (argint 2 s) 0 sch s
          else do {
            bs \<leftarrow> vbytes p (nat (argint 2 s)) s;
            (r, s) \<leftarrow> filewrite f bs s;
            Some ((r, sch), s)
          }
      | _ \<Rightarrow> Some ((-1, sch), s))"

definition sys_close ::
  "'a sysst_scheme schedule \<Rightarrow> 'a sysst_scheme \<Rightarrow> ((int \<times> 'a sysst_scheme schedule) \<times> 'a sysst_scheme) option" where
  "sys_close sch s =
     (case argfd 0 s of
        None \<Rightarrow> Some ((-1, sch), s)
      | Some (fd, f) \<Rightarrow>
          if f_type (file_at s f) = FD_REMOTE then do {
            ((r, sch), s) \<leftarrow> fs_ipc_call sch (zero_msg\<lparr>m_type := IPC_TYPE_FS_CLOSE, m_fd := f_remote_fd (file_at s f)\<rparr>) s;
            let result = (case r of None \<Rightarrow> -1 | Some reply \<Rightarrow> m_result reply);
            s \<leftarrow> fileclose f (set_ofile fd None s);
            Some ((result, sch), s)
          } else do {
            s \<leftarrow> fileclose f (set_ofile fd None s);
            Some ((0, sch), s)
          })"

text \<open>\<^verbatim>\<open>struct stat\<close> in memory: type, padding, dev, ino, nlink, padding, size.\<close>

definition encode_stat :: "stat \<Rightarrow> byte list \<Rightarrow> byte list" where
  "encode_stat st old = blit 16 (le32 (st_size st)) (blit 12 (le16 (st_nlink st)) (blit 8 (le32 (st_ino st))
     (blit 4 (le32 (st_dev st)) (blit 0 (le16 (st_type st)) old))))"

definition sys_fstat :: "'a filest_scheme \<Rightarrow> (int \<times> 'a filest_scheme) option" where
  "sys_fstat s =
     (case (argfd 0 s, argptr 1 20 s) of
        (Some (_, f), Some p) \<Rightarrow> do {
          (r, s) \<leftarrow> filestat f s;
          case r of
            None \<Rightarrow> Some (-1, s)
          | Some st \<Rightarrow> do {
              old \<leftarrow> vbytes p 20 s;
              s \<leftarrow> vstore p (encode_stat st old) s;
              Some (0, s)
            }
        }
      | _ \<Rightarrow> Some (-1, s))"

section \<open>Directories and names\<close>

text \<open>Is the directory empty except for its first two entries? The list holds the offsets to test.\<close>

fun isdirempty_scan :: "nat list \<Rightarrow> nat \<Rightarrow> 'a fsst_scheme \<Rightarrow> (bool \<times> 'a fsst_scheme) option" where
  "isdirempty_scan [] dp s = Some (True, s)"
| "isdirempty_scan (off # offs) dp s = do {
     ((r, bs), s) \<leftarrow> readi dp (of_nat off) (of_nat dirent_size) s;
     if r \<noteq> int dirent_size then panic ''isdirempty: readi''
     else if de_inum (decode_dirent bs) \<noteq> 0 then Some (False, s)
     else isdirempty_scan offs dp s
   }"

definition isdirempty :: "nat \<Rightarrow> 'a fsst_scheme \<Rightarrow> (bool \<times> 'a fsst_scheme) option" where
  "isdirempty dp s = isdirempty_scan (drop 2 (dir_offsets (i_size (inode_at s dp)))) dp s"

definition add_nlink :: "nat \<Rightarrow> u16 \<Rightarrow> 'a fsst_scheme \<Rightarrow> 'a fsst_scheme option" where
  "add_nlink ip d s = iupdate ip (upd_inode ip (\<lambda>x. x\<lparr>i_nlink := i_nlink x + d\<rparr>) s)"

text \<open>The common end of an operation that has failed.\<close>

definition op_fail :: "'a fsst_scheme \<Rightarrow> (int \<times> 'a fsst_scheme) option" where
  "op_fail s = do { s \<leftarrow> end_op s; Some (-1, s) }"

definition link_bad :: "nat \<Rightarrow> 'a fsst_scheme \<Rightarrow> (int \<times> 'a fsst_scheme) option" where
  "link_bad ip s = do {
     s \<leftarrow> ilock ip s;
     s \<leftarrow> add_nlink ip (-1) s;
     s \<leftarrow> iunlockput ip s;
     op_fail s
   }"

definition link :: "byte list \<Rightarrow> byte list \<Rightarrow> 'a fsst_scheme \<Rightarrow> (int \<times> 'a fsst_scheme) option" where
  "link old new s = do {
     s \<leftarrow> begin_op s;
     (r, s) \<leftarrow> namei old s;
     case r of
       None \<Rightarrow> op_fail s
     | Some ip \<Rightarrow> do {
         s \<leftarrow> ilock ip s;
         if i_type (inode_at s ip) = T_DIR then do { s \<leftarrow> iunlockput ip s; op_fail s }
         else do {
           s \<leftarrow> add_nlink ip 1 s;
           s \<leftarrow> iunlock ip s;
           ((r, name), s) \<leftarrow> nameiparent new (replicate DIRSIZ 0) s;
           case r of
             None \<Rightarrow> link_bad ip s
           | Some dp \<Rightarrow> do {
               s \<leftarrow> ilock dp s;
               (r, s) \<leftarrow> (if i_dev (inode_at s dp) \<noteq> i_dev (inode_at s ip) then Some (-1, s)
                         else dirlink dp name (i_inum (inode_at s ip)) s);
               s \<leftarrow> iunlockput dp s;
               if r < 0 then link_bad ip s
               else do {
                 s \<leftarrow> iput ip s;
                 s \<leftarrow> end_op s;
                 Some (0, s)
               }
             }
         }
       }
   }"

definition sys_link :: "'a filest_scheme \<Rightarrow> (int \<times> 'a filest_scheme) option" where
  "sys_link s = do {
     r \<leftarrow> argstr 0 s;
     case r of
       None \<Rightarrow> Some (-1, s)
     | Some old \<Rightarrow> do {
         r \<leftarrow> argstr 1 s;
         case r of None \<Rightarrow> Some (-1, s) | Some new \<Rightarrow> link old new s
       }
   }"

definition unlink_bad :: "nat \<Rightarrow> 'a fsst_scheme \<Rightarrow> (int \<times> 'a fsst_scheme) option" where
  "unlink_bad dp s = do { s \<leftarrow> iunlockput dp s; op_fail s }"

definition unlink :: "byte list \<Rightarrow> 'a fsst_scheme \<Rightarrow> (int \<times> 'a fsst_scheme) option" where
  "unlink path s = do {
     s \<leftarrow> begin_op s;
     ((r, name), s) \<leftarrow> nameiparent path (replicate DIRSIZ 0) s;
     case r of
       None \<Rightarrow> op_fail s
     | Some dp \<Rightarrow> do {
         s \<leftarrow> ilock dp s;
         c1 \<leftarrow> namecmp name [46, 0];
         c2 \<leftarrow> namecmp name [46, 46, 0];
         if c1 = 0 \<or> c2 = 0 then unlink_bad dp s
         else do {
           (r, s) \<leftarrow> dirlookup dp name s;
           case r of
             None \<Rightarrow> unlink_bad dp s
           | Some (ip, off) \<Rightarrow> do {
               s \<leftarrow> ilock ip s;
               if sint (i_nlink (inode_at s ip)) < 1 then panic ''unlink: nlink < 1''
               else do {
                 (e, s) \<leftarrow> (if i_type (inode_at s ip) = T_DIR then isdirempty ip s else Some (True, s));
                 if \<not> e then do { s \<leftarrow> iunlockput ip s; unlink_bad dp s }
                 else do {
                   (w, s) \<leftarrow> writei dp (replicate dirent_size 0) (of_nat off) (of_nat dirent_size) s;
                   if w \<noteq> int dirent_size then panic ''unlink: writei''
                   else do {
                     s \<leftarrow> (if i_type (inode_at s ip) = T_DIR then add_nlink dp (-1) s else Some s);
                     s \<leftarrow> iunlockput dp s;
                     s \<leftarrow> add_nlink ip (-1) s;
                     s \<leftarrow> iunlockput ip s;
                     s \<leftarrow> end_op s;
                     Some (0, s)
                   }
                 }
               }
             }
         }
       }
   }"

definition sys_unlink :: "'a filest_scheme \<Rightarrow> (int \<times> 'a filest_scheme) option" where
  "sys_unlink s = do {
     path \<leftarrow> argstr 0 s;
     case path of Some path \<Rightarrow> unlink path s | None \<Rightarrow> Some (-1, s)
   }"

definition create ::
  "byte list \<Rightarrow> u16 \<Rightarrow> u16 \<Rightarrow> u16 \<Rightarrow> 'a fsst_scheme \<Rightarrow> (nat option \<times> 'a fsst_scheme) option" where
  "create path type major minor s = do {
     ((r, name), s) \<leftarrow> nameiparent path (replicate DIRSIZ 0) s;
     case r of
       None \<Rightarrow> Some (None, s)
     | Some dp \<Rightarrow> do {
         s \<leftarrow> ilock dp s;
         (r, s) \<leftarrow> dirlookup dp name s;
         case r of
           Some (ip, _) \<Rightarrow> do {
             s \<leftarrow> iunlockput dp s;
             s \<leftarrow> ilock ip s;
             if type = T_FILE \<and> i_type (inode_at s ip) = T_FILE then Some (Some ip, s)
             else do { s \<leftarrow> iunlockput ip s; Some (None, s) }
           }
         | None \<Rightarrow> do {
             (ip, s) \<leftarrow> ialloc (i_dev (inode_at s dp)) type s;
             s \<leftarrow> ilock ip s;
             s \<leftarrow> iupdate ip (upd_inode ip (\<lambda>x. x\<lparr>i_major := major, i_minor := minor, i_nlink := 1\<rparr>) s);
             s \<leftarrow>
               (if type = T_DIR then do {
                  s \<leftarrow> add_nlink dp 1 s;
                  (l1, s) \<leftarrow> dirlink ip [46, 0] (i_inum (inode_at s ip)) s;
                  if l1 < 0 then panic ''create dots''
                  else do {
                    (l2, s) \<leftarrow> dirlink ip [46, 46, 0] (i_inum (inode_at s dp)) s;
                    if l2 < 0 then panic ''create dots'' else Some s
                  }
                } else Some s);
             (l, s) \<leftarrow> dirlink dp name (i_inum (inode_at s ip)) s;
             if l < 0 then panic ''create: dirlink''
             else do { s \<leftarrow> iunlockput dp s; Some (Some ip, s) }
           }
       }
   }"

section \<open>Opening files\<close>

text \<open>The kernel's own file system, without a server.\<close>

definition open_inode :: "byte list \<Rightarrow> int \<Rightarrow> 'a fsst_scheme \<Rightarrow> (nat option \<times> 'a fsst_scheme) option" where
  "open_inode path omode s =
     (if O_CREATE omode then create path T_FILE 0 0 s
      else do {
        (r, s) \<leftarrow> namei path s;
        case r of
          None \<Rightarrow> Some (None, s)
        | Some ip \<Rightarrow> do {
            s \<leftarrow> ilock ip s;
            if i_type (inode_at s ip) = T_DIR \<and> omode \<noteq> 0 then do { s \<leftarrow> iunlockput ip s; Some (None, s) }
            else Some (Some ip, s)
          }
      })"

definition open_local :: "byte list \<Rightarrow> int \<Rightarrow> 'a filest_scheme \<Rightarrow> (int \<times> 'a filest_scheme) option" where
  "open_local path omode s = do {
     s \<leftarrow> begin_op s;
     (r, s) \<leftarrow> open_inode path omode s;
     case r of
       None \<Rightarrow> op_fail s
     | Some ip \<Rightarrow>
         (case filealloc s of
            (None, s) \<Rightarrow> do { s \<leftarrow> iunlockput ip s; op_fail s }
          | (Some f, s) \<Rightarrow>
              (case fdalloc f s of
                 (None, s) \<Rightarrow> do { s \<leftarrow> fileclose f s; s \<leftarrow> iunlockput ip s; op_fail s }
               | (Some fd, s) \<Rightarrow> do {
                   s \<leftarrow> iunlock ip s;
                   s \<leftarrow> end_op s;
                   Some (int fd, upd_file f (\<lambda>x. x\<lparr>f_type := FD_INODE, f_ip := Some ip, f_off := 0,
                     f_readable := (\<not> O_WRONLY omode), f_writable := (O_WRONLY omode \<or> O_RDWR omode)\<rparr>) s)
                 }))
   }"

definition open_remote_fail ::
  "'a sysst_scheme schedule \<Rightarrow> ipc_msg \<Rightarrow> 'a sysst_scheme \<Rightarrow> ((int \<times> 'a sysst_scheme schedule) \<times> 'a sysst_scheme) option" where
  "open_remote_fail sch reply s = do {
     ((_, sch), s) \<leftarrow> fs_ipc_call sch (zero_msg\<lparr>m_type := IPC_TYPE_FS_CLOSE, m_fd := m_fd reply\<rparr>) s;
     Some ((-1, sch), s)
   }"

definition open_remote ::
  "byte list \<Rightarrow> int \<Rightarrow> 'a sysst_scheme schedule \<Rightarrow> 'a sysst_scheme
     \<Rightarrow> ((int \<times> 'a sysst_scheme schedule) \<times> 'a sysst_scheme) option" where
  "open_remote path omode sch s = do {
     n \<leftarrow> strlen path;
     if n \<ge> IPC_PATH_SIZE then Some ((-1, sch), s)
     else do {
       pa \<leftarrow> safestrcpy (m_path zero_msg) path (int IPC_PATH_SIZE);
       ((r, sch), s) \<leftarrow> fs_ipc_call sch (zero_msg\<lparr>m_type := IPC_TYPE_FS_OPEN, m_flags := omode, m_path := pa\<rparr>) s;
       case r of
         None \<Rightarrow> Some ((-1, sch), s)
       | Some reply \<Rightarrow>
           if m_result reply < 0 then Some ((-1, sch), s)
           else
             (case filealloc s of
                (None, s) \<Rightarrow> open_remote_fail sch reply s
              | (Some f, s) \<Rightarrow>
                  (case fdalloc f s of
                     (None, s) \<Rightarrow> do { s \<leftarrow> fileclose f s; open_remote_fail sch reply s }
                   | (Some fd, s) \<Rightarrow>
                       Some ((int fd, sch), upd_file f (\<lambda>x. x\<lparr>f_type := FD_REMOTE, f_ip := None, f_pipe := 0, f_off := 0,
                         f_remote_fd := m_fd reply, f_remote_owner := get_fsserver_pid (pt s),
                         f_readable := (\<not> O_WRONLY omode), f_writable := (O_WRONLY omode \<or> O_RDWR omode)\<rparr>) s)))
     }
   }"

definition sys_open ::
  "'a sysst_scheme schedule \<Rightarrow> 'a sysst_scheme \<Rightarrow> ((int \<times> 'a sysst_scheme schedule) \<times> 'a sysst_scheme) option" where
  "sys_open sch s = do {
     r \<leftarrow> argstr 0 s;
     case r of
       None \<Rightarrow> Some ((-1, sch), s)
     | Some path \<Rightarrow>
         if fsserver_active s then open_remote path (argint 1 s) sch s
         else do { (fd, s) \<leftarrow> open_local path (argint 1 s) s; Some ((fd, sch), s) }
   }"

section \<open>The other calls\<close>

definition mknode :: "byte list option \<Rightarrow> u16 \<Rightarrow> u16 \<Rightarrow> u16 \<Rightarrow> 'a fsst_scheme \<Rightarrow> (int \<times> 'a fsst_scheme) option" where
  "mknode path type major minor s =
     (case path of
        None \<Rightarrow> op_fail s
      | Some path \<Rightarrow> do {
          (r, s) \<leftarrow> create path type major minor s;
          case r of
            None \<Rightarrow> op_fail s
          | Some ip \<Rightarrow> do { s \<leftarrow> iunlockput ip s; s \<leftarrow> end_op s; Some (0, s) }
        })"

definition sys_mkdir :: "'a filest_scheme \<Rightarrow> (int \<times> 'a filest_scheme) option" where
  "sys_mkdir s = do {
     s \<leftarrow> begin_op s;
     path \<leftarrow> argstr 0 s;
     mknode path T_DIR 0 0 s
   }"

definition sys_mknod :: "'a filest_scheme \<Rightarrow> (int \<times> 'a filest_scheme) option" where
  "sys_mknod s = do {
     s \<leftarrow> begin_op s;
     path \<leftarrow> argstr 0 s;
     mknode path T_DEV (word_of_int (argint 1 s)) (word_of_int (argint 2 s)) s
   }"

definition sys_chdir :: "'a filest_scheme \<Rightarrow> (int \<times> 'a filest_scheme) option" where
  "sys_chdir s = do {
     s \<leftarrow> begin_op s;
     r \<leftarrow> argstr 0 s;
     case r of
       None \<Rightarrow> op_fail s
     | Some path \<Rightarrow> do {
         (r, s) \<leftarrow> namei path s;
         case r of
           None \<Rightarrow> op_fail s
         | Some ip \<Rightarrow> do {
             s \<leftarrow> ilock ip s;
             if i_type (inode_at s ip) \<noteq> T_DIR then do { s \<leftarrow> iunlockput ip s; op_fail s }
             else do {
               s \<leftarrow> iunlock ip s;
               s \<leftarrow> iput (p_cwd s) s;
               s \<leftarrow> end_op s;
               Some (0, upd_pt (cur s) (\<lambda>p. p\<lparr>pr_cwd := Some ip\<rparr>) (s\<lparr>p_cwd := ip\<rparr>))
             }
           }
       }
   }"

text \<open>The loop over \<^verbatim>\<open>argv\<close>; \<open>k\<close> entries of the array are left.\<close>

fun sys_exec_args :: "nat \<Rightarrow> u64 \<Rightarrow> 'a filest_scheme \<Rightarrow> byte list list option option" where
  "sys_exec_args 0 uargv s = Some None"
| "sys_exec_args (Suc k) uargv s = do {
     r \<leftarrow> fetchaddr uargv s;
     case r of
       None \<Rightarrow> Some None
     | Some uarg \<Rightarrow>
         if uarg = 0 then Some (Some [])
         else do {
           r \<leftarrow> fetchstr uarg s;
           case r of
             None \<Rightarrow> Some None
           | Some arg \<Rightarrow> do { r \<leftarrow> sys_exec_args k (uargv + 8) s; Some (map_option ((#) arg) r) }
         }
   }"

definition sys_exec :: "'a filest_scheme \<Rightarrow> (int \<times> 'a filest_scheme) option" where
  "sys_exec s = do {
     r \<leftarrow> argstr 0 s;
     case r of
       None \<Rightarrow> Some (-1, s)
     | Some path \<Rightarrow> do {
         r \<leftarrow> sys_exec_args MAXARG (argaddr 1 s) s;
         case r of None \<Rightarrow> Some (-1, s) | Some argv \<Rightarrow> exec path argv s
       }
   }"

definition sys_pipe :: "'a filest_scheme \<Rightarrow> (int \<times> 'a filest_scheme) option" where
  "sys_pipe s =
     (case argptr 0 8 s of
        None \<Rightarrow> Some (-1, s)
      | Some p \<Rightarrow> do {
          (r, s) \<leftarrow> pipealloc s;
          case r of
            None \<Rightarrow> Some (-1, s)
          | Some (rfl, wfl) \<Rightarrow>
              (case fdalloc rfl s of
                 (None, s) \<Rightarrow> do { s \<leftarrow> fileclose rfl s; s \<leftarrow> fileclose wfl s; Some (-1, s) }
               | (Some fd0, s) \<Rightarrow>
                   (case fdalloc wfl s of
                      (None, s) \<Rightarrow> do {
                        s \<leftarrow> fileclose rfl (set_ofile fd0 None s);
                        s \<leftarrow> fileclose wfl s;
                        Some (-1, s)
                      }
                    | (Some fd1, s) \<Rightarrow> do {
                        s \<leftarrow> vstore p (le32 (of_nat fd0) @ le32 (of_nat fd1)) s;
                        Some (0, s)
                      }))
        })"

end
