(* ===== verification/Xv6_Sysproc.thy ===== *)
theory Xv6_Sysproc
  imports Xv6_Sysfile
begin

text \<open>
  The remaining system calls, \<^verbatim>\<open>sysproc.c\<close>, with \<^verbatim>\<open>send\<close> and \<^verbatim>\<open>recv\<close> of \<^verbatim>\<open>proc.c\<close>, and the dispatcher
  \<^verbatim>\<open>syscall\<close>. The state adds the tick counter.
\<close>

record tickst = sysst +
  ticks :: u32

section \<open>Messages from user space\<close>

text \<open>\<^verbatim>\<open>struct ipc_msg\<close> in memory: eight integers, the path and the data.\<close>

definition decode_msg :: "byte list \<Rightarrow> ipc_msg" where
  "decode_msg bs = \<lparr>m_sender = sint (get32 0 bs), m_request_id = sint (get32 4 bs), m_type = sint (get32 8 bs),
     m_fd = sint (get32 12 bs), m_flags = sint (get32 16 bs), m_nbytes = sint (get32 20 bs), m_result = sint (get32 24 bs),
     m_error = sint (get32 28 bs), m_path = cut 32 IPC_PATH_SIZE bs, m_data = cut 96 IPC_DATA_SIZE bs\<rparr>"

definition encode_msg :: "ipc_msg \<Rightarrow> byte list" where
  "encode_msg m = concat (map (\<lambda>f. le32 (word_of_int (f m)))
     [m_sender, m_request_id, m_type, m_fd, m_flags, m_nbytes, m_result, m_error]) @ m_path m @ m_data m"

abbreviation (input) msg_size :: nat where "msg_size \<equiv> 224"

definition send ::
  "'a sysst_scheme schedule \<Rightarrow> int \<Rightarrow> u64 \<Rightarrow> 'a sysst_scheme
     \<Rightarrow> ((int \<times> 'a sysst_scheme schedule) \<times> 'a sysst_scheme) option" where
  "send sch pid msg s = do {
     r \<leftarrow> copyin (pr_pgdir (cur_proc s)) msg msg_size s;
     case r of
       None \<Rightarrow> Some ((-1, sch), s)
     | Some bs \<Rightarrow> ipc_send sch pid (decode_msg bs) s
   }"

definition recv ::
  "'a sysst_scheme schedule \<Rightarrow> u64 \<Rightarrow> 'a sysst_scheme
     \<Rightarrow> ((int \<times> 'a sysst_scheme schedule) \<times> 'a sysst_scheme) option" where
  "recv sch msg s = do {
     ((r, sch), s) \<leftarrow> ipc_recv sch s;
     case r of
       None \<Rightarrow> Some ((-1, sch), s)
     | Some m \<Rightarrow> do {
         (c, s) \<leftarrow> copyout (pr_pgdir (cur_proc s)) msg (encode_msg m) s;
         Some ((if c < 0 then -1 else 0, sch), s)
       }
   }"

definition sys_send ::
  "'a sysst_scheme schedule \<Rightarrow> 'a sysst_scheme \<Rightarrow> ((int \<times> 'a sysst_scheme schedule) \<times> 'a sysst_scheme) option" where
  "sys_send sch s =
     (case argptr 1 (int msg_size) s of
        None \<Rightarrow> Some ((-1, sch), s)
      | Some msg \<Rightarrow> send sch (argint 0 s) msg s)"

definition sys_recv ::
  "'a sysst_scheme schedule \<Rightarrow> 'a sysst_scheme \<Rightarrow> ((int \<times> 'a sysst_scheme schedule) \<times> 'a sysst_scheme) option" where
  "sys_recv sch s =
     (case argptr 0 (int msg_size) s of
        None \<Rightarrow> Some ((-1, sch), s)
      | Some msg \<Rightarrow> recv sch msg s)"

section \<open>Processes\<close>

definition sys_register_fsserver :: "'a filest_scheme \<Rightarrow> int \<times> 'a filest_scheme" where
  "sys_register_fsserver s = (case register_fsserver (cur s) (pt s) of (r, tab) \<Rightarrow> (r, set_pt tab s))"

definition sys_kill :: "'a filest_scheme \<Rightarrow> int \<times> 'a filest_scheme" where
  "sys_kill s = (case kill (argint 0 s) (pt s) of (r, tab) \<Rightarrow> (r, set_pt tab s))"

definition sys_getpid :: "'a filest_scheme \<Rightarrow> int" where
  "sys_getpid s = pr_pid (cur_proc s)"

definition sys_sbrk :: "'a filest_scheme \<Rightarrow> (u64 \<times> 'a filest_scheme) option" where
  "sys_sbrk s = do {
     let addr = pr_sz (cur_proc s);
     (r, s) \<leftarrow> growproc (argaddr 0 s) s;
     Some (if r < 0 then -1 else addr, s)
   }"

text \<open>
  \<^verbatim>\<open>sys_sleep\<close>: the test \<^verbatim>\<open>ticks - ticks0 < n\<close> is unsigned. \<open>sch\<close> is what happens while the caller
  sleeps, as for messages.
\<close>

function sleep_ticks ::
  "'a tickst_scheme schedule \<Rightarrow> u32 \<Rightarrow> u32 \<Rightarrow> 'a tickst_scheme
     \<Rightarrow> ((int \<times> 'a tickst_scheme schedule) \<times> 'a tickst_scheme) option" where
  "sleep_ticks sch n ticks0 s =
     (if \<not> ticks s - ticks0 < n then Some ((0, sch), s)
      else if pr_killed (cur_proc s) then Some ((-1, sch), s)
      else do {
        (sch, s) \<leftarrow> await_wakeup sch (set_pt (sleep (cur s) ChanTicks (pt s)) s);
        sleep_ticks sch n ticks0 s
      })"
  by pat_completeness auto
termination
  by (relation "measure (\<lambda>(sch, n, ticks0, s). length sch)") (auto dest: await_wakeup_shorter)

declare sleep_ticks.simps [simp del]

definition sys_sleep ::
  "'a tickst_scheme schedule \<Rightarrow> 'a tickst_scheme \<Rightarrow> ((int \<times> 'a tickst_scheme schedule) \<times> 'a tickst_scheme) option" where
  "sys_sleep sch s = sleep_ticks sch (word_of_int (argint 0 s)) (ticks s) s"

definition sys_uptime :: "'a tickst_scheme \<Rightarrow> int" where
  "sys_uptime s = sint (ticks s)"

text \<open>The timer interrupt on the first processor.\<close>

definition timer_tick :: "'a tickst_scheme \<Rightarrow> 'a tickst_scheme" where
  "timer_tick s = set_pt (wakeup ChanTicks (pt s)) (s\<lparr>ticks := ticks s + 1\<rparr>)"

section \<open>The disk\<close>

text \<open>
  \<^verbatim>\<open>sys_disk_request\<close>, for the registered server only. \<^verbatim>\<open>bread\<close> never returns a null pointer.
\<close>

definition sys_disk_request :: "'a filest_scheme \<Rightarrow> (int \<times> 'a filest_scheme) option" where
  "sys_disk_request s =
     (case argptr 1 (int BSIZE) s of
        None \<Rightarrow> Some (-1, s)
      | Some buf \<Rightarrow>
          let server = get_fsserver_pid (pt s); sector = word_of_int (argint 0 s) in
          if server \<le> 0 \<or> pr_pid (cur_proc s) \<noteq> server then do {
            s \<leftarrow> cprintf (cstring (''kernel: unauthorized disk request from pid %d'' @ [CHR 10]))
                   [AInt (word_of_int (pr_pid (cur_proc s)))] s;
            Some (-1, upd_pt (cur s) (\<lambda>p. p\<lparr>pr_killed := True\<rparr>) s)
          }
          else if argint 2 s = 0 then do {
            (bp, s) \<leftarrow> bread ROOTDEV sector s;
            s \<leftarrow> vstore buf (b_data (buf_at s bp)) s;
            s \<leftarrow> brelse bp s;
            Some (0, s)
          }
          else if argint 2 s = 1 then do {
            (bp, s) \<leftarrow> bread ROOTDEV sector s;
            d \<leftarrow> vbytes buf BSIZE s;
            s \<leftarrow> bwrite bp (set_data bp d s);
            s \<leftarrow> brelse bp s;
            Some (0, s)
          }
          else Some (-1, s))"

section \<open>Dispatch\<close>

text \<open>\<^verbatim>\<open>wait\<close> with its sleeps.\<close>

function wait_children ::
  "'a tickst_scheme schedule \<Rightarrow> 'a tickst_scheme \<Rightarrow> ((int \<times> 'a tickst_scheme schedule) \<times> 'a tickst_scheme) option" where
  "wait_children sch s = do {
     (r, s) \<leftarrow> wait s;
     case r of
       Return pid \<Rightarrow> Some ((pid, sch), s)
     | Asleep \<Rightarrow> do { (sch, s) \<leftarrow> await_wakeup sch s; wait_children sch s }
   }"
  by pat_completeness auto
termination
  by (relation "measure (\<lambda>(sch, s). length sch)") (auto dest: await_wakeup_shorter)

declare wait_children.simps [simp del]

text \<open>
  The table \<^verbatim>\<open>syscalls\<close>. The functions return an \<^verbatim>\<open>int\<close>, or a pointer for \<^verbatim>\<open>sbrk\<close>; \<^verbatim>\<open>exit\<close> does not return.
  The outer \<open>None\<close> in the result is an unknown number.
\<close>

definition int_result :: "int \<Rightarrow> u64" where
  "int_result r = ucast (word_of_int r :: u32)"

definition plain ::
  "'a tickst_scheme schedule \<Rightarrow> (int \<times> 'a tickst_scheme) option \<Rightarrow> ((int \<times> 'a tickst_scheme schedule) \<times> 'a tickst_scheme) option" where
  "plain sch r = map_option (\<lambda>(v, s). ((v, sch), s)) r"

definition call_int ::
  "nat \<Rightarrow> 'a tickst_scheme schedule \<Rightarrow> 'a tickst_scheme
     \<Rightarrow> ((int \<times> 'a tickst_scheme schedule) \<times> 'a tickst_scheme) option option" where
  "call_int num sch s =
     (if num = 1 then Some (plain sch (fork s))
      else if num = 3 then Some (wait_children sch s)
      else if num = 4 then Some (plain sch (sys_pipe s))
      else if num = 5 then Some (sys_read sch s)
      else if num = 6 then Some (plain sch (Some (sys_kill s)))
      else if num = 7 then Some (plain sch (sys_exec s))
      else if num = 8 then Some (plain sch (sys_fstat s))
      else if num = 9 then Some (plain sch (sys_chdir s))
      else if num = 10 then Some (plain sch (sys_dup s))
      else if num = 11 then Some (plain sch (Some (sys_getpid s, s)))
      else if num = 13 then Some (sys_sleep sch s)
      else if num = 14 then Some (plain sch (Some (sys_uptime s, s)))
      else if num = 15 then Some (sys_open sch s)
      else if num = 16 then Some (sys_write sch s)
      else if num = 17 then Some (plain sch (sys_mknod s))
      else if num = 18 then Some (plain sch (sys_unlink s))
      else if num = 19 then Some (plain sch (sys_link s))
      else if num = 20 then Some (plain sch (sys_mkdir s))
      else if num = 21 then Some (sys_close sch s)
      else if num = 22 then Some (sys_send sch s)
      else if num = 23 then Some (sys_recv sch s)
      else if num = 24 then Some (plain sch (Some (sys_register_fsserver s)))
      else if num = 25 then Some (plain sch (sys_disk_request s))
      else None)"

definition set_rax :: "u64 \<Rightarrow> 'a filest_scheme \<Rightarrow> 'a filest_scheme" where
  "set_rax r s = upd_pt (cur s) (\<lambda>p. p\<lparr>pr_tf := (pr_tf p)\<lparr>tf_rax := r\<rparr>\<rparr>) s"

text \<open>The state after the call, in which the process either continues or has exited.\<close>

definition syscall ::
  "'a tickst_scheme schedule \<Rightarrow> 'a tickst_scheme \<Rightarrow> ('a tickst_scheme schedule \<times> 'a tickst_scheme) option" where
  "syscall sch s = do {
     let num = tf_rax (pr_tf (cur_proc s));
     (sch, s) \<leftarrow>
       (if num = 2 then do { s \<leftarrow> exit s; Some (sch, s) }
        else if num = 12 then do { (r, s) \<leftarrow> sys_sbrk s; Some (sch, set_rax r s) }
        else
          (case call_int (unat num) sch s of
             Some m \<Rightarrow> do { ((r, sch), s) \<leftarrow> m; Some (sch, set_rax (int_result r) s) }
           | None \<Rightarrow> do {
               s \<leftarrow> cprintf (cstring (''%d %s: unknown sys call %d'' @ [CHR 10]))
                      [AInt (word_of_int (pr_pid (cur_proc s))), AStr (Some (pr_name (cur_proc s))), AInt (ucast num)] s;
               Some (sch, set_rax (-1) s)
             }));
     if num \<noteq> 2 \<and> pr_killed (cur_proc s) then do { s \<leftarrow> exit s; Some (sch, s) } else Some (sch, s)
   }"

end
