(* ===== verification/Xv6_Fifo.thy ===== *)
theory Xv6_Fifo
  imports Xv6_Prelude
begin

text \<open>
  The contract of a bounded first-in first-out buffer, which the pipes of \<^verbatim>\<open>pipe.c\<close> and the one-slot
  mailboxes of \<^verbatim>\<open>proc.c\<close> provide: what its clients see of a sequence of writes and reads by any
  number of processes depends on the sequence of the elements only.
\<close>

section \<open>Ring buffers with free-running indices\<close>

text \<open>
  The read and write indices of the kernel's ring buffers are never reduced modulo the size of
  the buffer; they wrap around at 32 bits, and the size divides \<open>2\<^sup>3\<^sup>2\<close>.
\<close>

definition ring :: "'a list \<Rightarrow> u32 \<Rightarrow> u32 \<Rightarrow> 'a list" where
  "ring buf r w = map (\<lambda>i. buf ! (unat (r + of_nat i) mod length buf)) [0..<unat (w - r)]"

lemma length_ring [simp]: "length (ring buf r w) = unat (w - r)"
  by (simp add: ring_def)

lemma wrapped_index:
  assumes "N dvd 2 ^ 32"
  shows "unat (r + of_nat i :: u32) mod N = (unat r + i) mod N"
proof -
  have "unat (r + of_nat i) = (unat r + i mod 2 ^ 32) mod 2 ^ 32" by (simp add: unat_word_ariths unat_of_nat)
  also have "\<dots> mod N = (unat r + i mod 2 ^ 32) mod N" by (rule mod_mod_cancel [OF assms])
  also have "\<dots> = (unat r + i mod 2 ^ 32 mod N) mod N" by (rule mod_add_right_eq [symmetric])
  also have "i mod 2 ^ 32 mod N = i mod N" by (rule mod_mod_cancel [OF assms])
  also have "(unat r + i mod N) mod N = (unat r + i) mod N" by (rule mod_add_right_eq)
  finally show ?thesis .
qed

lemma mod_index_inj: "i < n \<Longrightarrow> n < N \<Longrightarrow> (a + i) mod N \<noteq> (a + n) mod N" for a N :: nat
  using mod_eq_dvd_iff_nat [of "a + i" "a + n" N] nat_dvd_not_less [of "n - i" N] by auto

lemma ring_put:
  assumes N: "length buf dvd 2 ^ 32" and n: "unat (w - r) < length buf" "length buf < 2 ^ 32"
  shows "ring (buf[unat w mod length buf := x]) r (w + 1) = ring buf r w @ [x]"
proof -
  let ?n = "unat (w - r)" and ?N = "length buf"
  have "unat (w + 1 - r) = unat (w - r + 1)" by (simp add: algebra_simps)
  also have "\<dots> = Suc ?n" using n by (simp add: unat_word_ariths)
  finally have len: "unat (w + 1 - r) = Suc ?n" .
  have w: "unat w mod ?N = (unat r + ?n) mod ?N" using wrapped_index [OF N, of r ?n] by simp
  have m: "(unat r + ?n) mod ?N < ?N" using n by (intro mod_less_divisor) linarith
  have "(buf[unat w mod ?N := x]) ! (unat (r + of_nat i) mod ?N) = (if i = ?n then x else buf ! (unat (r + of_nat i) mod ?N))"
    if "i \<le> ?n" for i
    using mod_index_inj [of i ?n ?N "unat r"] n that m by (auto simp: wrapped_index [OF N] w)
  moreover have "buf[unat w mod ?N := x] ! (unat w mod ?N) = x" using m by (simp add: w)
  ultimately show ?thesis by (auto simp: ring_def len)
qed

lemma ring_get:
  assumes "r \<noteq> w"
  shows "ring buf r w = buf ! (unat r mod length buf) # ring buf (r + 1) w"
proof -
  have d: "w - (r + 1) = (w - r) - 1" "w - r \<noteq> 0" using assms by auto
  have "unat (w - r) = Suc (unat (w - (r + 1)))" unfolding d(1) using unat_minus_one [OF d(2)] d(2) by (simp add: unat_gt_0)
  then show ?thesis by (simp add: ring_def upt_conv_Cons map_Suc_upt [symmetric] del: upt_Suc map_Suc_upt) (simp add: algebra_simps)
qed

lemma ring_Nil_iff: "ring buf r w = [] \<longleftrightarrow> r = w"
  by (metis length_0_conv length_ring unat_eq_zero eq_iff_diff_eq_0)

section \<open>The contract\<close>

datatype 'a fifo_op = Put 'a | Get

locale bounded_fifo =
  fixes inv :: "'s \<Rightarrow> bool" and contents :: "'s \<Rightarrow> 'a list" and cap :: nat
    and put :: "'a \<Rightarrow> 's \<Rightarrow> 's option" and get :: "'s \<Rightarrow> ('a \<times> 's) option"
  assumes put_ok: "inv s \<Longrightarrow> length (contents s) < cap \<Longrightarrow> \<exists>t. put x s = Some t \<and> inv t \<and> contents t = contents s @ [x]"
    and put_full: "inv s \<Longrightarrow> cap \<le> length (contents s) \<Longrightarrow> put x s = None"
    and get_ok: "inv s \<Longrightarrow> contents s = x # xs \<Longrightarrow> \<exists>t. get s = Some (x, t) \<and> inv t \<and> contents t = xs"
    and get_empty: "inv s \<Longrightarrow> contents s = [] \<Longrightarrow> get s = None"
begin

text \<open>
  A sequence of attempts to write and to read; an attempt that finds the buffer full or empty
  has no effect. The results are the elements that were accepted and those that were read.
\<close>

fun run :: "'a fifo_op list \<Rightarrow> 's \<Rightarrow> ('a list \<times> 'a list) \<times> 's" where
  "run [] s = (([], []), s)"
| "run (Put x # ops) s =
     (case put x s of
        None \<Rightarrow> run ops s
      | Some s \<Rightarrow> (case run ops s of ((ins, outs), s) \<Rightarrow> ((x # ins, outs), s)))"
| "run (Get # ops) s =
     (case get s of
        None \<Rightarrow> run ops s
      | Some (x, s) \<Rightarrow> (case run ops s of ((ins, outs), s) \<Rightarrow> ((ins, x # outs), s)))"

lemma put_cases:
  assumes "inv s"
  obtains "put x s = None" "cap \<le> length (contents s)"
  | t where "put x s = Some t" "inv t" "contents t = contents s @ [x]" "length (contents s) < cap"
  using put_ok [OF assms] put_full [OF assms] by (metis not_le)

lemma get_cases:
  assumes "inv s"
  obtains "get s = None" "contents s = []"
  | x t where "get s = Some (x, t)" "inv t" "contents s = x # contents t"
  using get_ok [OF assms] get_empty [OF assms] by (metis list.exhaust)

text \<open>Nothing is lost, duplicated or reordered, and the buffer never holds more than its capacity.\<close>

lemma run_fifo:
  assumes "inv s" "length (contents s) \<le> cap" "run ops s = ((ins, outs), t)"
  shows "inv t \<and> contents s @ ins = outs @ contents t \<and> length (contents t) \<le> cap"
  using assms
proof (induction ops s arbitrary: ins outs rule: run.induct)
  case (1 s)
  then show ?case by simp
next
  case (2 x ops s)
  from 2(3) show ?case
  proof (cases rule: put_cases [of s x])
    case 1
    then show ?thesis using 2 by simp
  next
    case (2 u)
    then show ?thesis using "2.IH"(2) [OF 2(1)] "2.prems"(3) by (fastforce split: prod.splits)
  qed
next
  case (3 ops s)
  from 3(3) show ?case
  proof (cases rule: get_cases [of s])
    case 1
    then show ?thesis using 3 by simp
  next
    case (2 x u)
    then show ?thesis using "3.IH"(2) [OF 2(1)] "3.prems"(2,3) by (fastforce split: prod.splits)
  qed
qed

end

end
