(* ===== verification/Xv6_Ipc.thy ===== *)
theory Xv6_Ipc
  imports Xv6_Proc Xv6_Fifo
begin

text \<open>
  The exchange of messages between all processes of the table, as a transition system: every
  interleaving of the sections that \<^verbatim>\<open>ipc_send_msg\<close>, \<^verbatim>\<open>ipc_recv_msg\<close>, \<^verbatim>\<open>fork\<close>, \<^verbatim>\<open>exit\<close>, \<^verbatim>\<open>wait\<close>, \<^verbatim>\<open>kill\<close>,
  \<^verbatim>\<open>register_fsserver\<close>, \<^verbatim>\<open>yield\<close> and the scheduler execute under \<^verbatim>\<open>ptable.lock\<close>, on any number of
  processors. \<open>stage\<close> is where a process is in the code: outside the message functions, or in the
  loop of one of them.

  Two components of the state are there for the specification only: what has been put into the
  mailbox of a process since its slot was allocated, with the pid of the process that put it
  there, and what the process has taken out.
\<close>

datatype stage = User | Sending nat ipc_msg | Receiving

record ipcst =
  tab :: ptable
  stage :: "nat \<Rightarrow> stage"
  sent :: "nat \<Rightarrow> (int \<times> ipc_msg) list"
  got :: "nat \<Rightarrow> ipc_msg list"

definition delivered :: "nat \<Rightarrow> nat \<Rightarrow> ipc_msg \<Rightarrow> ipcst \<Rightarrow> ipcst" where
  "delivered i t k s = s\<lparr>sent := (sent s)(t := sent s t @ [(pr_pid (proc_at (tab s) i), k)])\<rparr>"

text \<open>The state after a section of \<^verbatim>\<open>ipc_send_msg\<close> of process \<open>i\<close> with the given outcome.\<close>

fun after_send :: "nat \<Rightarrow> int outcome \<Rightarrow> (nat \<times> ipc_msg) option \<Rightarrow> ptable \<Rightarrow> ipcst \<Rightarrow> ipcst" where
  "after_send i (Return r) (Some (t, k)) pt s =
     (if r = 0 then (delivered i t k s)\<lparr>tab := pt, stage := (stage s)(i := User)\<rparr>
      else s\<lparr>tab := pt, stage := (stage s)(i := User)\<rparr>)"
| "after_send i (Return r) None pt s = s\<lparr>tab := pt, stage := (stage s)(i := User)\<rparr>"
| "after_send i Asleep (Some (t, k)) pt s = s\<lparr>tab := pt, stage := (stage s)(i := Sending t k)\<rparr>"
| "after_send i Asleep None pt s = s\<lparr>tab := pt\<rparr>"

fun after_recv :: "nat \<Rightarrow> ipc_msg option outcome \<Rightarrow> ptable \<Rightarrow> ipcst \<Rightarrow> ipcst" where
  "after_recv i (Return (Some m)) pt s =
     s\<lparr>tab := pt, stage := (stage s)(i := User), got := (got s)(i := got s i @ [m])\<rparr>"
| "after_recv i (Return None) pt s = s\<lparr>tab := pt, stage := (stage s)(i := User)\<rparr>"
| "after_recv i Asleep pt s = s\<lparr>tab := pt, stage := (stage s)(i := Receiving)\<rparr>"

definition running :: "nat \<Rightarrow> ipcst \<Rightarrow> bool" where
  "running i s \<longleftrightarrow> i < NPROC \<and> pr_state (proc_at (tab s) i) = RUNNING"

inductive ipc_step :: "ipcst \<Rightarrow> ipcst \<Rightarrow> bool" where
  send: "running i s \<Longrightarrow> stage s i = User \<Longrightarrow> ipc_send_msg i pid msg (tab s) = ((r, tk), pt) \<Longrightarrow>
    ipc_step s (after_send i r tk pt s)"
| send_again: "running i s \<Longrightarrow> stage s i = Sending t k \<Longrightarrow> ipc_send_loop i t k (tab s) = (r, pt) \<Longrightarrow>
    ipc_step s (after_send i r (Some (t, k)) pt s)"
| recv: "running i s \<Longrightarrow> stage s i = User \<Longrightarrow> ipc_recv_msg i (tab s) = (r, pt) \<Longrightarrow>
    ipc_step s (after_recv i r pt s)"
| recv_again: "running i s \<Longrightarrow> stage s i = Receiving \<Longrightarrow> ipc_recv_msg i (tab s) = (r, pt) \<Longrightarrow>
    ipc_step s (after_recv i r pt s)"
| schedule: "i < NPROC \<Longrightarrow> pr_state (proc_at (tab s) i) = RUNNABLE \<Longrightarrow>
    ipc_step s (s\<lparr>tab := sleep_return i (upd_proc i (\<lambda>p. p\<lparr>pr_state := RUNNING\<rparr>) (tab s))\<rparr>)"
| preempt: "running i s \<Longrightarrow> stage s i = User \<Longrightarrow> ipc_step s (s\<lparr>tab := yield i (tab s)\<rparr>)"
| sleeps: "running i s \<Longrightarrow> stage s i = User \<Longrightarrow> ipc_step s (s\<lparr>tab := sleep i c (tab s)\<rparr>)"
| wakes: "ipc_step s (s\<lparr>tab := wakeup c (tab s)\<rparr>)"
| kills: "ipc_step s (s\<lparr>tab := snd (kill pid (tab s))\<rparr>)"
| registers: "running i s \<Longrightarrow> stage s i = User \<Longrightarrow> ipc_step s (s\<lparr>tab := snd (register_fsserver i (tab s))\<rparr>)"
| forks: "running i s \<Longrightarrow> stage s i = User \<Longrightarrow> claim_slot (tab s) = Some (Some n, pt) \<Longrightarrow>
    ipc_step s (s\<lparr>tab := pt, sent := (sent s)(n := []), got := (got s)(n := [])\<rparr>)"
| starts: "running i s \<Longrightarrow> stage s i = User \<Longrightarrow> n < NPROC \<Longrightarrow> pr_state (proc_at (tab s) n) = EMBRYO \<Longrightarrow>
    ipc_step s (s\<lparr>tab := upd_proc n (\<lambda>p. p\<lparr>pr_parent := Some i, pr_state := RUNNABLE\<rparr>) (tab s)\<rparr>)"
| exits: "running i s \<Longrightarrow> stage s i = User \<Longrightarrow> i \<noteq> initproc (tab s) \<Longrightarrow>
    ipc_step s (s\<lparr>tab := exit_locked i (tab s)\<rparr>)"
| reaps: "running i s \<Longrightarrow> stage s i = User \<Longrightarrow> find_zombie i (tab s) = Some z \<Longrightarrow>
    ipc_step s (s\<lparr>tab := reap z (tab s)\<rparr>)"

definition ipc_boot :: ipcst where
  "ipc_boot = \<lparr>tab = boot_table, stage = (\<lambda>_. User), sent = (\<lambda>_. []), got = (\<lambda>_. [])\<rparr>"

definition ipc_reach :: "ipcst \<Rightarrow> bool" where
  "ipc_reach s \<longleftrightarrow> ipc_step\<^sup>*\<^sup>* ipc_boot s"

section \<open>Facts about the table\<close>

lemma length_upd_proc [simp]: "length (procs (upd_proc i f pt)) = length (procs pt)"
  by (simp add: upd_proc_def)

lemma upd_proc_other_fields [simp]:
  "nextpid (upd_proc i f pt) = nextpid pt" "fs_pid (upd_proc i f pt) = fs_pid pt" "initproc (upd_proc i f pt) = initproc pt"
  by (simp_all add: upd_proc_def)

lemma proc_upd_proc:
  "i < length (procs pt) \<Longrightarrow> proc_at (upd_proc j f pt) i = (if i = j then f (proc_at pt i) else proc_at pt i)"
  by (simp add: upd_proc_def)

lemma wake_proc_fields [simp]:
  "pr_pid (wake_proc c p) = pr_pid p" "mailbox (wake_proc c p) = mailbox p" "has_msg (wake_proc c p) = has_msg p"
  "pr_chan (wake_proc c p) = pr_chan p" "pr_killed (wake_proc c p) = pr_killed p" "pr_parent (wake_proc c p) = pr_parent p"
  by (simp_all add: wake_proc_def)

lemma length_wakeup1 [simp]: "length (procs (wakeup1 c pt)) = length (procs pt)"
  by (simp add: wakeup1_def)

lemma wakeup1_other_fields [simp]:
  "nextpid (wakeup1 c pt) = nextpid pt" "fs_pid (wakeup1 c pt) = fs_pid pt" "initproc (wakeup1 c pt) = initproc pt"
  by (simp_all add: wakeup1_def)

lemma proc_wakeup1: "i < length (procs pt) \<Longrightarrow> proc_at (wakeup1 c pt) i = wake_proc c (proc_at pt i)"
  by (simp add: wakeup1_def)

lemma wake_proc_woken [simp]: "pr_chan p = Some c \<Longrightarrow> pr_state (wake_proc c p) \<noteq> SLEEPING"
  by (simp add: wake_proc_def)

text \<open>
  Changes that a process does not notice: it may have been woken, and it may have got another
  parent.
\<close>

definition quiet :: "proc \<Rightarrow> proc \<Rightarrow> bool" where
  "quiet p q \<longleftrightarrow> pr_pid q = pr_pid p \<and> mailbox q = mailbox p \<and> has_msg q = has_msg p \<and> pr_chan q = pr_chan p
     \<and> pr_killed q = pr_killed p \<and> (pr_state q = pr_state p \<or> pr_state p = SLEEPING \<and> pr_state q = RUNNABLE)"

definition quiet_tab :: "ptable \<Rightarrow> ptable \<Rightarrow> bool" where
  "quiet_tab pt pt' \<longleftrightarrow> length (procs pt') = length (procs pt) \<and> nextpid pt' = nextpid pt \<and> initproc pt' = initproc pt
     \<and> fs_pid pt' = fs_pid pt \<and> (\<forall>i < length (procs pt). quiet (proc_at pt i) (proc_at pt' i))"

lemma quiet_refl [simp]: "quiet p p"
  by (simp add: quiet_def)

lemma quiet_trans: "quiet p q \<Longrightarrow> quiet q r \<Longrightarrow> quiet p r"
  by (auto simp: quiet_def)

lemma quiet_tab_refl [simp]: "quiet_tab pt pt"
  by (simp add: quiet_tab_def)

lemma quiet_tab_trans: "quiet_tab a b \<Longrightarrow> quiet_tab b c \<Longrightarrow> quiet_tab a c"
  unfolding quiet_tab_def by (metis quiet_trans)

lemma quiet_wakeup1: "quiet_tab pt (wakeup1 c pt)"
  by (auto simp: quiet_tab_def quiet_def proc_wakeup1 wake_proc_def)

lemma quiet_parent: "quiet_tab pt (upd_proc i (\<lambda>p. p\<lparr>pr_parent := x\<rparr>) pt)"
  by (auto simp: quiet_tab_def quiet_def proc_upd_proc)

lemma quiet_reparent: "quiet_tab pt (reparent is me pt)"
proof (induction "is" me pt rule: reparent.induct)
  case (1 me pt)
  show ?case by simp
next
  case (2 i "is" me pt)
  let ?u = "upd_proc i (\<lambda>p. p\<lparr>pr_parent := Some (initproc pt)\<rparr>) pt"
  let ?w = "if pr_state (proc_at ?u i) = ZOMBIE then wakeup1 (ChanProc (initproc ?u)) ?u else ?u"
  have "quiet_tab ?u ?w" by (simp add: quiet_wakeup1)
  then have "quiet_tab pt ?w" by (rule quiet_tab_trans [OF quiet_parent])
  with 2 show ?case by (auto simp: Let_def intro: quiet_tab_trans)
qed

section \<open>The invariant\<close>

definition waiting_ok :: "ptable \<Rightarrow> nat \<Rightarrow> stage \<Rightarrow> bool" where
  "waiting_ok pt i st =
     (case st of
        User \<Rightarrow> True
      | Receiving \<Rightarrow> pr_chan (proc_at pt i) = Some (ChanProc i) \<and> \<not> has_msg (proc_at pt i)
      | Sending t k \<Rightarrow> pr_chan (proc_at pt i) = Some (ChanMail t) \<and> has_msg (proc_at pt t)
          \<and> pr_state (proc_at pt t) \<notin> {UNUSED, ZOMBIE})"

definition stage_ok :: "ptable \<Rightarrow> nat \<Rightarrow> stage \<Rightarrow> bool" where
  "stage_ok pt i st =
     (case st of
        User \<Rightarrow> True
      | Receiving \<Rightarrow> True
      | Sending t k \<Rightarrow> m_sender k = pr_pid (proc_at pt i) \<and> valid_ipc_msg k \<and> t < NPROC)"

definition pid_ok :: "ptable \<Rightarrow> nat \<Rightarrow> bool" where
  "pid_ok pt i \<longleftrightarrow> (if pr_state (proc_at pt i) = UNUSED then pr_pid (proc_at pt i) = 0
     else 0 < pr_pid (proc_at pt i) \<and> pr_pid (proc_at pt i) < nextpid pt)"

definition proc_ok :: "ptable \<Rightarrow> (nat \<Rightarrow> stage) \<Rightarrow> nat \<Rightarrow> bool" where
  "proc_ok pt st i \<longleftrightarrow> pid_ok pt i
     \<and> (pr_state (proc_at pt i) \<in> {UNUSED, EMBRYO, ZOMBIE} \<longrightarrow> st i = User)
     \<and> (has_msg (proc_at pt i) \<longrightarrow> valid_ipc_msg (mailbox (proc_at pt i)))
     \<and> stage_ok pt i (st i)
     \<and> (pr_state (proc_at pt i) = SLEEPING \<longrightarrow> waiting_ok pt i (st i))"

definition ipc_inv :: "ptable \<Rightarrow> (nat \<Rightarrow> stage) \<Rightarrow> bool" where
  "ipc_inv pt st \<longleftrightarrow> length (procs pt) = NPROC \<and> 0 < nextpid pt
     \<and> (\<forall>i < NPROC. proc_ok pt st i)
     \<and> (\<forall>i < NPROC. \<forall>j < NPROC. pr_pid (proc_at pt i) = pr_pid (proc_at pt j) \<longrightarrow> pr_pid (proc_at pt i) \<noteq> 0 \<longrightarrow> i = j)"

lemma ipc_invI:
  assumes "length (procs pt) = NPROC" "0 < nextpid pt" "\<And>i. i < NPROC \<Longrightarrow> proc_ok pt st i"
    "\<And>i j. i < NPROC \<Longrightarrow> j < NPROC \<Longrightarrow> pr_pid (proc_at pt i) = pr_pid (proc_at pt j) \<Longrightarrow> pr_pid (proc_at pt i) \<noteq> 0 \<Longrightarrow> i = j"
  shows "ipc_inv pt st"
  using assms by (simp add: ipc_inv_def)

lemma ipc_invD:
  assumes "ipc_inv pt st"
  shows "length (procs pt) = NPROC" "0 < nextpid pt" "i < NPROC \<Longrightarrow> proc_ok pt st i"
    "i < NPROC \<Longrightarrow> j < NPROC \<Longrightarrow> pr_pid (proc_at pt i) = pr_pid (proc_at pt j) \<Longrightarrow> pr_pid (proc_at pt i) \<noteq> 0 \<Longrightarrow> i = j"
  using assms by (simp_all add: ipc_inv_def)

text \<open>A change that keeps what the other processes rely on keeps their part of the invariant.\<close>

definition keeps :: "ptable \<Rightarrow> ptable \<Rightarrow> nat \<Rightarrow> bool" where
  "keeps pt pt' d \<longleftrightarrow> (has_msg (proc_at pt d) \<and> pr_state (proc_at pt d) \<notin> {UNUSED, ZOMBIE} \<longrightarrow>
     has_msg (proc_at pt' d) \<and> pr_state (proc_at pt' d) \<notin> {UNUSED, ZOMBIE})"

lemma proc_ok_quiet:
  assumes "proc_ok pt st i" and "quiet (proc_at pt i) (proc_at pt' i)" and "nextpid pt \<le> nextpid pt'"
    and "\<And>d k. st i = Sending d k \<Longrightarrow> pr_state (proc_at pt' i) = SLEEPING \<Longrightarrow> keeps pt pt' d" and "st' i = st i"
  shows "proc_ok pt' st' i"
  using assms
  by (auto simp: proc_ok_def pid_ok_def quiet_def waiting_ok_def stage_ok_def keeps_def split: stage.splits if_splits)

lemma ipc_inv_quiet:
  assumes inv: "ipc_inv pt st" and q: "quiet_tab pt pt'"
  shows "ipc_inv pt' st"
proof (rule ipc_invI)
  note I = ipc_invD [OF inv]
  have Q: "\<And>i. i < NPROC \<Longrightarrow> quiet (proc_at pt i) (proc_at pt' i)" and n: "nextpid pt' = nextpid pt"
    using q I(1) by (simp_all add: quiet_tab_def)
  show "length (procs pt') = NPROC" "0 < nextpid pt'" using q I(1,2) by (simp_all add: quiet_tab_def)
  show "proc_ok pt' st i" if i: "i < NPROC" for i
  proof (rule proc_ok_quiet [OF I(3) [OF i] Q [OF i]])
    show "keeps pt pt' d" if "st i = Sending d k" for d k
    proof -
      have "d < NPROC" using I(3) [OF i] that by (simp add: proc_ok_def stage_ok_def)
      then show ?thesis using Q [of d] by (auto simp: keeps_def quiet_def)
    qed
  qed (simp_all add: n)
  show "i = j" if "i < NPROC" "j < NPROC" "pr_pid (proc_at pt' i) = pr_pid (proc_at pt' j)" "pr_pid (proc_at pt' i) \<noteq> 0" for i j
    using that I(4) [OF that(1,2)] Q [OF that(1)] Q [OF that(2)] by (simp add: quiet_def)
qed

text \<open>A change of one process that keeps its pid and what others rely on.\<close>

lemma ipc_inv_upd:
  assumes inv: "ipc_inv pt st" and i: "i < NPROC" and pid: "pr_pid (f (proc_at pt i)) = pr_pid (proc_at pt i)"
    and ok: "proc_ok (upd_proc i f pt) (st(i := x)) i"
    and keep: "\<And>j k. j < NPROC \<Longrightarrow> j \<noteq> i \<Longrightarrow> st j = Sending i k \<Longrightarrow> pr_state (proc_at pt j) = SLEEPING \<Longrightarrow> keeps pt (upd_proc i f pt) i"
  shows "ipc_inv (upd_proc i f pt) (st(i := x))"
proof (rule ipc_invI)
  note I = ipc_invD [OF inv]
  show "length (procs (upd_proc i f pt)) = NPROC" "0 < nextpid (upd_proc i f pt)" using I(1,2) by simp_all
  have P: "\<And>j. j < NPROC \<Longrightarrow> proc_at (upd_proc i f pt) j = (if j = i then f (proc_at pt j) else proc_at pt j)"
    using I(1) by (simp add: proc_upd_proc)
  show "proc_ok (upd_proc i f pt) (st(i := x)) j" if j: "j < NPROC" for j
  proof (cases "j = i")
    case True
    then show ?thesis using ok by simp
  next
    case False
    show ?thesis
    proof (rule proc_ok_quiet [OF I(3) [OF j]])
      show "keeps pt (upd_proc i f pt) d" if "st j = Sending d k" "pr_state (proc_at (upd_proc i f pt) j) = SLEEPING" for d k
      proof -
        have "d < NPROC" using I(3) [OF j] that by (simp add: proc_ok_def stage_ok_def)
        then show ?thesis using keep [OF j False] that False P [OF j] P [of d] by (cases "d = i") (auto simp: keeps_def)
      qed
    qed (use False P [OF j] in auto)
  qed
  show "a = b" if "a < NPROC" "b < NPROC" "pr_pid (proc_at (upd_proc i f pt) a) = pr_pid (proc_at (upd_proc i f pt) b)"
    "pr_pid (proc_at (upd_proc i f pt) a) \<noteq> 0" for a b
    using that I(4) [OF that(1,2)] P [OF that(1)] P [OF that(2)] pid by (auto split: if_splits)
qed

lemmas proc_ok_defs = proc_ok_def pid_ok_def stage_ok_def waiting_ok_def keeps_def

lemma ipc_inv_stage:
  assumes inv: "ipc_inv pt st" and i: "i < NPROC" "pr_state (proc_at pt i) = RUNNING" and x: "stage_ok pt i x"
  shows "ipc_inv pt (st(i := x))"
proof -
  have P: "proc_at (upd_proc i (\<lambda>p. p) pt) i = proc_at pt i" using i ipc_invD(1) [OF inv] by (simp add: proc_upd_proc)
  have "ipc_inv (upd_proc i (\<lambda>p. p) pt) (st(i := x))"
    using ipc_invD(3) [OF inv i(1)] i x
    by (intro ipc_inv_upd [OF inv i(1)]) (simp_all add: P proc_ok_defs split: stage.splits)
  then show ?thesis by (simp add: upd_proc_def)
qed

lemma wakeup1_upd_proc:
  assumes "i < length (procs pt)" and "\<And>p. wake_proc c (f p) = f (wake_proc c p)"
  shows "wakeup1 c (upd_proc i f pt) = upd_proc i f (wakeup1 c pt)"
  using assms by (simp add: wakeup1_def upd_proc_def map_update)

lemma wake_proc_message:
  "wake_proc c (p\<lparr>mailbox := k, has_msg := b\<rparr>) = (wake_proc c p)\<lparr>mailbox := k, has_msg := b\<rparr>"
  "wake_proc c (p\<lparr>has_msg := b, mailbox := k\<rparr>) = (wake_proc c p)\<lparr>has_msg := b, mailbox := k\<rparr>"
  by (simp_all add: wake_proc_def)

text \<open>Putting a valid message into a mailbox, with the wake-up of its owner.\<close>

lemma deliver_inv:
  assumes inv: "ipc_inv pt st" and t: "t < NPROC" and k: "valid_ipc_msg k"
  shows "ipc_inv (wakeup1 (ChanProc t) (upd_proc t (\<lambda>p. p\<lparr>mailbox := k, has_msg := True\<rparr>) pt)) st"
proof -
  let ?f = "\<lambda>p. p\<lparr>mailbox := k, has_msg := True\<rparr>" and ?w = "wakeup1 (ChanProc t) pt"
  have w: "ipc_inv ?w st" by (rule ipc_inv_quiet [OF inv quiet_wakeup1])
  note I = ipc_invD [OF w]
  have awake: "st t = Receiving \<longrightarrow> pr_state (proc_at ?w t) \<noteq> SLEEPING"
    using ipc_invD(1) [OF inv] ipc_invD(3) [OF inv t] t by (auto simp: proc_wakeup1 proc_ok_defs wake_proc_def)
  have "ipc_inv (upd_proc t ?f ?w) (st(t := st t))"
    using I(3) [OF t] t k I(1) awake
    by (intro ipc_inv_upd [OF w t]) (auto simp: proc_upd_proc proc_ok_defs split: stage.splits if_splits)
  moreover have "wakeup1 (ChanProc t) (upd_proc t ?f pt) = upd_proc t ?f ?w"
    using t ipc_invD(1) [OF inv] by (intro wakeup1_upd_proc) (simp_all add: wake_proc_message)
  ultimately show ?thesis by simp
qed

text \<open>Emptying a mailbox, with the wake-up of the senders that wait for it.\<close>

lemma empty_mailbox_inv:
  assumes inv: "ipc_inv pt st" and t: "t < NPROC"
  shows "ipc_inv (wakeup1 (ChanMail t) (upd_proc t (\<lambda>p. p\<lparr>has_msg := False, mailbox := zero_msg\<rparr>) pt)) st"
proof -
  let ?f = "\<lambda>p. p\<lparr>has_msg := False, mailbox := zero_msg\<rparr>" and ?w = "wakeup1 (ChanMail t) pt"
  have w: "ipc_inv ?w st" by (rule ipc_inv_quiet [OF inv quiet_wakeup1])
  note I = ipc_invD [OF w]
  have awake: "pr_state (proc_at ?w j) \<noteq> SLEEPING" if "j < NPROC" "st j = Sending t k" for j k
    using ipc_invD(1) [OF inv] ipc_invD(3) [OF inv that(1)] that by (auto simp: proc_wakeup1 proc_ok_defs wake_proc_def)
  have "ipc_inv (upd_proc t ?f ?w) (st(t := st t))"
    using I(3) [OF t] t I(1) awake
    by (intro ipc_inv_upd [OF w t]) (auto simp: proc_upd_proc proc_ok_defs split: stage.splits if_splits)
  moreover have "wakeup1 (ChanMail t) (upd_proc t ?f pt) = upd_proc t ?f ?w"
    using t ipc_invD(1) [OF inv] by (intro wakeup1_upd_proc) (simp_all add: wake_proc_message)
  ultimately show ?thesis by simp
qed

lemma ipc_send_loop_inv:
  assumes inv: "ipc_inv pt st" and i: "i < NPROC" "pr_state (proc_at pt i) = RUNNING"
    and k: "m_sender k = pr_pid (proc_at pt i)" "valid_ipc_msg k" "t < NPROC"
    and send: "ipc_send_loop i t k pt = (r, pt')"
  shows "ipc_inv pt' (st(i := (case r of Return _ \<Rightarrow> User | Asleep \<Rightarrow> Sending t k)))"
proof -
  note I = ipc_invD [OF inv]
  note Pi = I(3) [OF i(1)]
  have st: "stage_ok pt i User" by (simp add: stage_ok_def)
  show ?thesis
  proof (cases "has_msg (proc_at pt t)")
    case full: True
    show ?thesis
    proof (cases "pr_killed (proc_at pt i) \<or> pr_state (proc_at pt t) = UNUSED \<or> pr_state (proc_at pt t) = ZOMBIE \<or> pr_killed (proc_at pt t)")
      case True
      then have "r = Return (-1)" "pt' = pt" using send full by (auto simp: ipc_send_loop_def)
      then show ?thesis using ipc_inv_stage [OF inv i st] by simp
    next
      case False
      then have e: "r = Asleep" "pt' = sleep i (ChanMail t) pt" using send full by (auto simp: ipc_send_loop_def)
      have "ipc_inv (sleep i (ChanMail t) pt) (st(i := Sending t k))"
        unfolding sleep_def using Pi i k full False I(1)
        by (intro ipc_inv_upd [OF inv i(1)]) (auto simp: proc_upd_proc proc_ok_defs split: if_splits)
      then show ?thesis by (simp add: e)
    qed
  next
    case False
    let ?f = "\<lambda>p. p\<lparr>mailbox := k, has_msg := True\<rparr>"
    have e: "r = Return 0" "pt' = wakeup1 (ChanProc t) (upd_proc t ?f pt)" using send False by (auto simp: ipc_send_loop_def)
    have "ipc_inv pt (st(i := User))" by (rule ipc_inv_stage [OF inv i st])
    from deliver_inv [OF this k(3,2)] show ?thesis by (simp add: e)
  qed
qed

lemma ipc_recv_msg_inv:
  assumes inv: "ipc_inv pt st" and i: "i < NPROC" "pr_state (proc_at pt i) = RUNNING"
    and recv: "ipc_recv_msg i pt = (r, pt')"
  shows "ipc_inv pt' (st(i := (case r of Return _ \<Rightarrow> User | Asleep \<Rightarrow> Receiving)))"
proof -
  note I = ipc_invD [OF inv]
  note Pi = I(3) [OF i(1)]
  have u: "ipc_inv pt (st(i := User))" by (rule ipc_inv_stage [OF inv i]) (simp add: stage_ok_def)
  show ?thesis
  proof (cases "has_msg (proc_at pt i)")
    case True
    then have "pt' = wakeup1 (ChanMail i) (upd_proc i (\<lambda>p. p\<lparr>has_msg := False, mailbox := zero_msg\<rparr>) pt)"
      "\<exists>m. r = Return (Some m)"
      using recv by (auto simp: ipc_recv_msg_def)
    then show ?thesis using empty_mailbox_inv [OF u i(1)] by auto
  next
    case False
    show ?thesis
    proof (cases "pr_killed (proc_at pt i)")
      case True
      then show ?thesis using recv False u by (auto simp: ipc_recv_msg_def)
    next
      case nk: False
      then have e: "r = Asleep" "pt' = sleep i (ChanProc i) pt" using recv False by (auto simp: ipc_recv_msg_def)
      have "ipc_inv (sleep i (ChanProc i) pt) (st(i := Receiving))"
        unfolding sleep_def using Pi i False I(1)
        by (intro ipc_inv_upd [OF inv i(1)]) (auto simp: proc_upd_proc proc_ok_defs split: if_splits)
      then show ?thesis by (simp add: e)
    qed
  qed
qed

text \<open>The steps outside the message functions.\<close>

lemma ipc_inv_upd_same:
  assumes "ipc_inv pt st" "i < NPROC" "pr_pid (f (proc_at pt i)) = pr_pid (proc_at pt i)"
    "proc_ok (upd_proc i f pt) st i"
    "\<And>j k. j < NPROC \<Longrightarrow> j \<noteq> i \<Longrightarrow> st j = Sending i k \<Longrightarrow> pr_state (proc_at pt j) = SLEEPING \<Longrightarrow> keeps pt (upd_proc i f pt) i"
  shows "ipc_inv (upd_proc i f pt) st"
  using ipc_inv_upd [where f = f, OF assms(1-3), of "st i"] assms(4,5) by simp

lemma schedule_inv:
  assumes inv: "ipc_inv pt st" and i: "i < NPROC" "pr_state (proc_at pt i) = RUNNABLE"
  shows "ipc_inv (sleep_return i (upd_proc i (\<lambda>p. p\<lparr>pr_state := RUNNING\<rparr>) pt)) st"
proof -
  have "sleep_return i (upd_proc i (\<lambda>p. p\<lparr>pr_state := RUNNING\<rparr>) pt) = upd_proc i (\<lambda>p. p\<lparr>pr_state := RUNNING, pr_chan := None\<rparr>) pt"
    using i ipc_invD(1) [OF inv] by (simp add: sleep_return_def upd_proc_def)
  moreover have "ipc_inv (upd_proc i (\<lambda>p. p\<lparr>pr_state := RUNNING, pr_chan := None\<rparr>) pt) st"
    using ipc_invD(3) [OF inv i(1)] i ipc_invD(1) [OF inv]
    by (intro ipc_inv_upd_same [OF inv i(1)]) (auto simp: proc_upd_proc proc_ok_defs split: stage.splits if_splits)
  ultimately show ?thesis by simp
qed

lemma yield_inv:
  assumes inv: "ipc_inv pt st" and i: "i < NPROC" "pr_state (proc_at pt i) = RUNNING"
  shows "ipc_inv (yield i pt) st"
  unfolding yield_def using ipc_invD(3) [OF inv i(1)] i ipc_invD(1) [OF inv]
  by (intro ipc_inv_upd_same [OF inv i(1)]) (auto simp: proc_upd_proc proc_ok_defs split: stage.splits if_splits)

lemma sleep_inv:
  assumes inv: "ipc_inv pt st" and i: "i < NPROC" "pr_state (proc_at pt i) = RUNNING" "st i = User"
  shows "ipc_inv (sleep i c pt) st"
  unfolding sleep_def using ipc_invD(3) [OF inv i(1)] i ipc_invD(1) [OF inv]
  by (intro ipc_inv_upd_same [OF inv i(1)]) (auto simp: proc_upd_proc proc_ok_defs split: if_splits)

lemma kill_inv:
  assumes inv: "ipc_inv pt st"
  shows "ipc_inv (snd (kill pid pt)) st"
proof (cases "first_idx (\<lambda>p. pr_pid p = pid) (procs pt)")
  case None
  then show ?thesis using inv by (simp add: kill_def)
next
  case (Some i)
  then have i: "i < NPROC" using first_idx_SomeD [OF Some] ipc_invD(1) [OF inv] by simp
  show ?thesis
    using Some ipc_invD(3) [OF inv i] i ipc_invD(1) [OF inv]
    by (simp add: kill_def, intro ipc_inv_upd_same [OF inv i])
       (auto simp: proc_upd_proc proc_ok_defs split: stage.splits if_splits)
qed

lemma fs_pid_inv: "ipc_inv (pt\<lparr>fs_pid := x\<rparr>) st = ipc_inv pt st"
  by (simp add: ipc_inv_def proc_ok_defs cong: stage.case_cong)

lemma starts_inv:
  assumes inv: "ipc_inv pt st" and n: "n < NPROC" "pr_state (proc_at pt n) = EMBRYO"
  shows "ipc_inv (upd_proc n (\<lambda>p. p\<lparr>pr_parent := x, pr_state := RUNNABLE\<rparr>) pt) st"
  using ipc_invD(3) [OF inv n(1)] n ipc_invD(1) [OF inv]
  by (intro ipc_inv_upd_same [OF inv n(1)]) (auto simp: proc_upd_proc proc_ok_defs split: stage.splits if_splits)

lemma claim_slot_SomeD:
  assumes "claim_slot pt = Some (Some n, pt')"
  shows "n < length (procs pt)" "pr_state (proc_at pt n) = UNUSED"
    "pt' = upd_proc n (\<lambda>p. p\<lparr>pr_state := EMBRYO, pr_pid := nextpid pt, mailbox := zero_msg, has_msg := False\<rparr>)
       (pt\<lparr>nextpid := nextpid pt + 1\<rparr>)"
  using assms first_idx_SomeD [of "\<lambda>p. pr_state p = UNUSED" "procs pt" n]
  by (auto simp: claim_slot_def split: option.splits if_splits)

lemma claim_slot_inv:
  assumes inv: "ipc_inv pt st" and c: "claim_slot pt = Some (Some n, pt')"
  shows "ipc_inv pt' st"
proof -
  note I = ipc_invD [OF inv]
  have n: "n < NPROC" "pr_state (proc_at pt n) = UNUSED" using claim_slot_SomeD [OF c] I(1) by auto
  have P: "proc_at pt' i = (if i = n then (proc_at pt i)\<lparr>pr_state := EMBRYO, pr_pid := nextpid pt, mailbox := zero_msg, has_msg := False\<rparr>
     else proc_at pt i)" if "i < NPROC" for i
    using that I(1) by (simp add: claim_slot_SomeD(3) [OF c] proc_upd_proc)
  have N: "nextpid pt' = nextpid pt + 1" "length (procs pt') = NPROC" using I(1) by (simp_all add: claim_slot_SomeD(3) [OF c])
  have fresh: "pr_pid (proc_at pt j) \<noteq> nextpid pt" if "j < NPROC" for j
    using I(3) [OF that] I(2) by (auto simp: proc_ok_def pid_ok_def split: if_splits)
  show ?thesis
  proof (rule ipc_invI)
    show "length (procs pt') = NPROC" "0 < nextpid pt'" using N I(2) by simp_all
    show "proc_ok pt' st i" if i: "i < NPROC" for i
    proof (cases "i = n")
      case True
      then show ?thesis using I(2) I(3) [OF n(1)] n P [OF n(1)] N by (simp add: proc_ok_def pid_ok_def stage_ok_def)
    next
      case False
      show ?thesis
      proof (rule proc_ok_quiet [OF I(3) [OF i]])
        show "keeps pt pt' d" if "st i = Sending d k" for d k
        proof -
          have "d < NPROC" using I(3) [OF i] that by (simp add: proc_ok_def stage_ok_def)
          then show ?thesis using P n by (auto simp: keeps_def)
        qed
      qed (use False P [OF i] N in auto)
    qed
    show "i = j" if "i < NPROC" "j < NPROC" "pr_pid (proc_at pt' i) = pr_pid (proc_at pt' j)" "pr_pid (proc_at pt' i) \<noteq> 0" for i j
      using that I(4) [OF that(1,2)] P [OF that(1)] P [OF that(2)] fresh [OF that(1)] fresh [OF that(2)]
      by (auto split: if_splits)
  qed
qed

text \<open>\<open>exit\<close>: the mailbox is emptied before the process becomes a zombie, so nobody waits for it.\<close>

lemma zombie_inv:
  assumes inv: "ipc_inv pt st" and i: "i < NPROC" "st i = User" "pr_state (proc_at pt i) \<noteq> UNUSED"
    and quiet: "\<And>j k. j < NPROC \<Longrightarrow> st j = Sending i k \<Longrightarrow> pr_state (proc_at pt j) \<noteq> SLEEPING"
  shows "ipc_inv (upd_proc i (\<lambda>p. p\<lparr>pr_state := ZOMBIE\<rparr>) pt) st"
  using ipc_invD(3) [OF inv i(1)] i ipc_invD(1) [OF inv] quiet
  by (intro ipc_inv_upd_same [OF inv i(1)]) (auto simp: proc_upd_proc proc_ok_defs split: if_splits)

definition exit_awake :: "nat \<Rightarrow> ptable \<Rightarrow> ptable" where
  "exit_awake me pt =
     (let pt = (if fs_pid pt = pr_pid (proc_at pt me) then pt\<lparr>fs_pid := -1\<rparr> else pt)
      in wakeup1 (ChanMail me) (upd_proc me (\<lambda>p. p\<lparr>has_msg := False, mailbox := zero_msg\<rparr>) pt))"

lemma exit_locked_split:
  "\<exists>pt'. exit_locked me pt = upd_proc me (\<lambda>p. p\<lparr>pr_state := ZOMBIE\<rparr>) pt' \<and> quiet_tab (exit_awake me pt) pt'"
proof -
  let ?a = "exit_awake me pt"
  let ?b = "case pr_parent (proc_at ?a me) of Some i \<Rightarrow> wakeup1 (ChanProc i) ?a | None \<Rightarrow> ?a"
  have "exit_locked me pt = upd_proc me (\<lambda>p. p\<lparr>pr_state := ZOMBIE\<rparr>) (reparent [0..<NPROC] me ?b)"
    by (simp only: exit_locked_def exit_awake_def Let_def)
  moreover have "quiet_tab ?a ?b" by (simp add: quiet_wakeup1 split: option.split)
  ultimately show ?thesis using quiet_tab_trans [OF _ quiet_reparent] by blast
qed

lemma exit_awake_inv:
  assumes "ipc_inv pt st" "i < NPROC"
  shows "ipc_inv (exit_awake i pt) st"
proof -
  have "ipc_inv (if fs_pid pt = pr_pid (proc_at pt i) then pt\<lparr>fs_pid := -1\<rparr> else pt) st"
    using assms(1) by (simp add: fs_pid_inv)
  from empty_mailbox_inv [OF this assms(2)] show ?thesis by (simp only: exit_awake_def Let_def)
qed

lemma exit_awake_proc:
  assumes "i < NPROC" "j < NPROC" "length (procs pt) = NPROC"
  shows "proc_at (exit_awake i pt) j =
    wake_proc (ChanMail i) (if j = i then (proc_at pt j)\<lparr>has_msg := False, mailbox := zero_msg\<rparr> else proc_at pt j)"
  using assms by (simp add: exit_awake_def Let_def proc_wakeup1 proc_upd_proc)

lemma exit_locked_inv:
  assumes inv: "ipc_inv pt st" and i: "i < NPROC" "pr_state (proc_at pt i) = RUNNING" "st i = User"
  shows "ipc_inv (exit_locked i pt) st"
proof -
  obtain pt' where e: "exit_locked i pt = upd_proc i (\<lambda>p. p\<lparr>pr_state := ZOMBIE\<rparr>) pt'" and q: "quiet_tab (exit_awake i pt) pt'"
    using exit_locked_split by blast
  note L = ipc_invD(1) [OF inv]
  have inv': "ipc_inv pt' st" by (rule ipc_inv_quiet [OF exit_awake_inv [OF inv i(1)] q])
  have Q: "quiet (proc_at (exit_awake i pt) j) (proc_at pt' j)" if "j < NPROC" for j
    using q that ipc_invD(1) [OF exit_awake_inv [OF inv i(1)]] by (simp add: quiet_tab_def)
  have "ipc_inv (upd_proc i (\<lambda>p. p\<lparr>pr_state := ZOMBIE\<rparr>) pt') st"
  proof (rule zombie_inv [OF inv' i(1,3)])
    show "pr_state (proc_at pt' i) \<noteq> UNUSED"
      using Q [OF i(1)] i exit_awake_proc [OF i(1) i(1) L] by (auto simp: quiet_def wake_proc_def)
    show "pr_state (proc_at pt' j) \<noteq> SLEEPING" if "j < NPROC" "st j = Sending i k" for j k
    proof -
      have "j \<noteq> i" using that i by auto
      then have "pr_state (proc_at (exit_awake i pt) j) \<noteq> SLEEPING"
        using ipc_invD(3) [OF inv that(1)] that exit_awake_proc [OF i(1) that(1) L] by (auto simp: proc_ok_defs wake_proc_def)
      then show ?thesis using Q [OF that(1)] by (auto simp: quiet_def)
    qed
  qed
  then show ?thesis by (simp add: e)
qed

lemma reap_inv:
  assumes inv: "ipc_inv pt st" and z: "z < NPROC" "pr_state (proc_at pt z) = ZOMBIE"
  shows "ipc_inv (reap z pt) st"
proof -
  note I = ipc_invD [OF inv]
  have P: "proc_at (reap z pt) i = (if i = z then (proc_at pt i)\<lparr>pr_kstack := 0, pr_pid := 0, pr_parent := None,
      pr_name := (pr_name (proc_at pt i))[0 := 0], pr_killed := False, mailbox := zero_msg, has_msg := False, pr_state := UNUSED\<rparr>
     else proc_at pt i)" if "i < NPROC" for i
    using that I(1) by (simp add: reap_def proc_upd_proc)
  show ?thesis
  proof (rule ipc_invI)
    show "length (procs (reap z pt)) = NPROC" "0 < nextpid (reap z pt)" using I(1,2) by (simp_all add: reap_def)
    show "proc_ok (reap z pt) st i" if i: "i < NPROC" for i
    proof (cases "i = z")
      case True
      then show ?thesis using I(3) [OF z(1)] z P [OF z(1)] by (simp add: proc_ok_def pid_ok_def stage_ok_def)
    next
      case False
      show ?thesis
      proof (rule proc_ok_quiet [OF I(3) [OF i]])
        show "keeps pt (reap z pt) d" if "st i = Sending d k" for d k
        proof -
          have "d < NPROC" using I(3) [OF i] that by (simp add: proc_ok_def stage_ok_def)
          then show ?thesis using P z by (auto simp: keeps_def)
        qed
      qed (use False P [OF i] in \<open>auto simp: reap_def\<close>)
    qed
    show "i = j" if "i < NPROC" "j < NPROC" "pr_pid (proc_at (reap z pt) i) = pr_pid (proc_at (reap z pt) j)"
      "pr_pid (proc_at (reap z pt) i) \<noteq> 0" for i j
      using that I(4) [OF that(1,2)] P [OF that(1)] P [OF that(2)] by (auto split: if_splits)
  qed
qed

lemma find_zombie_SomeD:
  assumes "find_zombie i pt = Some z"
  shows "z < length (procs pt)" "pr_state (proc_at pt z) = ZOMBIE" "pr_parent (proc_at pt z) = Some i"
  using first_idx_SomeD [OF assms [unfolded find_zombie_def]] by auto

lemma ipc_send_msg_cases:
  assumes "ipc_send_msg i pid msg pt = ((r, tk), pt')"
  obtains (fail) "r = Return (-1)" "tk = None" "pt' = pt"
  | (loop) t k where "tk = Some (t, k)" "k = msg\<lparr>m_sender := pr_pid (proc_at pt i)\<rparr>" "valid_ipc_msg k" "t < length (procs pt)"
      "pr_pid (proc_at pt t) = pid" "pr_state (proc_at pt t) \<notin> {UNUSED, EMBRYO, ZOMBIE}" "\<not> pr_killed (proc_at pt t)"
      "ipc_send_loop i t k pt = (r, pt')"
  using assms first_idx_SomeD [of "\<lambda>p. pr_pid p = pid" "procs pt"]
  by (fastforce simp: ipc_send_msg_def Let_def split: if_splits option.splits prod.splits)

text \<open>The invariant with the histories.\<close>

definition hist_ok :: "ipcst \<Rightarrow> nat \<Rightarrow> bool" where
  "hist_ok s i \<longleftrightarrow> (\<forall>(pid, m) \<in> set (sent s i). m_sender m = pid \<and> valid_ipc_msg m)
     \<and> (pr_state (proc_at (tab s) i) \<notin> {UNUSED, ZOMBIE} \<longrightarrow>
          map snd (sent s i) = got s i @ (if has_msg (proc_at (tab s) i) then [mailbox (proc_at (tab s) i)] else []))"

definition sys_inv :: "ipcst \<Rightarrow> bool" where
  "sys_inv s \<longleftrightarrow> ipc_inv (tab s) (stage s) \<and> (\<forall>i < NPROC. hist_ok s i)"

lemma sys_inv_boot: "sys_inv ipc_boot"
proof -
  have P: "proc_at boot_table i = (if i = 0 then empty_proc\<lparr>pr_state := RUNNABLE, pr_pid := 1\<rparr> else empty_proc)" if "i < NPROC" for i
    using that by (auto simp: boot_table_def nth_Cons')
  have L: "length (procs boot_table) = NPROC" "nextpid boot_table = 2" by (simp_all add: boot_table_def)
  have "ipc_inv boot_table (\<lambda>_. User)"
    by (rule ipc_invI) (auto simp: L P proc_ok_defs empty_proc_def split: if_splits)
  moreover have "hist_ok ipc_boot i" if "i < NPROC" for i
    using P [OF that] by (auto simp: hist_ok_def ipc_boot_def empty_proc_def)
  ultimately show ?thesis by (simp add: sys_inv_def ipc_boot_def)
qed

text \<open>Steps that do not touch mailboxes and histories.\<close>

lemma hist_ok_frame:
  assumes "hist_ok s i" "sent s' i = sent s i" "got s' i = got s i"
    "has_msg (proc_at (tab s') i) = has_msg (proc_at (tab s) i)" "mailbox (proc_at (tab s') i) = mailbox (proc_at (tab s) i)"
    "pr_state (proc_at (tab s') i) \<notin> {UNUSED, ZOMBIE} \<Longrightarrow> pr_state (proc_at (tab s) i) \<notin> {UNUSED, ZOMBIE}"
  shows "hist_ok s' i"
  using assms by (auto simp: hist_ok_def)

lemma after_send_simps [simp]:
  "tab (after_send i r (Some (t, k)) pt s) = pt"
  "stage (after_send i r (Some (t, k)) pt s) = (stage s)(i := (case r of Return _ \<Rightarrow> User | Asleep \<Rightarrow> Sending t k))"
  "got (after_send i r (Some (t, k)) pt s) = got s"
  "sent (after_send i r (Some (t, k)) pt s) =
     (if r = Return 0 then (sent s)(t := sent s t @ [(pr_pid (proc_at (tab s) i), k)]) else sent s)"
  by (cases r; simp add: delivered_def)+

lemma ipc_send_loop_mail:
  assumes "ipc_send_loop i t k pt = (r, pt')" "length (procs pt) = NPROC" "j < NPROC" "i < NPROC" "t < NPROC"
  shows "r = Return 0 \<longleftrightarrow> \<not> has_msg (proc_at pt t)"
    "has_msg (proc_at pt' j) = (has_msg (proc_at pt j) \<or> r = Return 0 \<and> j = t)"
    "mailbox (proc_at pt' j) = (if r = Return 0 \<and> j = t then k else mailbox (proc_at pt j))"
    "pr_state (proc_at pt i) = RUNNING \<Longrightarrow> pr_state (proc_at pt' j) \<in> {UNUSED, ZOMBIE} \<longleftrightarrow> pr_state (proc_at pt j) \<in> {UNUSED, ZOMBIE}"
  using assms
  by (auto simp: ipc_send_loop_def sleep_def proc_wakeup1 proc_upd_proc wake_proc_def split: if_splits)

lemma send_loop_step:
  assumes inv: "sys_inv s" and run: "running i s"
    and k: "m_sender k = pr_pid (proc_at (tab s) i)" "valid_ipc_msg k" "t < NPROC"
    and send: "ipc_send_loop i t k (tab s) = (r, pt)"
  shows "sys_inv (after_send i r (Some (t, k)) pt s)"
proof -
  have i: "i < NPROC" "pr_state (proc_at (tab s) i) = RUNNING" using run by (simp_all add: running_def)
  have J: "ipc_inv (tab s) (stage s)" and H: "\<And>j. j < NPROC \<Longrightarrow> hist_ok s j" using inv by (simp_all add: sys_inv_def)
  note L = ipc_invD(1) [OF J]
  have "hist_ok (after_send i r (Some (t, k)) pt s) j" if j: "j < NPROC" for j
    using H [OF j] ipc_send_loop_mail [OF send L j i(1) k(3)] i k by (auto simp: hist_ok_def)
  moreover have "ipc_inv pt ((stage s)(i := (case r of Return _ \<Rightarrow> User | Asleep \<Rightarrow> Sending t k)))"
    by (rule ipc_send_loop_inv [OF J i k send])
  ultimately show ?thesis by (simp add: sys_inv_def)
qed

lemma ipc_recv_msg_mail:
  assumes "ipc_recv_msg i pt = (r, pt')" "length (procs pt) = NPROC" "j < NPROC" "i < NPROC"
  shows "r = (if has_msg (proc_at pt i) then Return (Some (mailbox (proc_at pt i)))
      else if pr_killed (proc_at pt i) then Return None else Asleep)"
    "has_msg (proc_at pt' j) = (has_msg (proc_at pt j) \<and> j \<noteq> i)"
    "j \<noteq> i \<Longrightarrow> mailbox (proc_at pt' j) = mailbox (proc_at pt j)"
    "pr_state (proc_at pt i) = RUNNING \<Longrightarrow> pr_state (proc_at pt' j) \<in> {UNUSED, ZOMBIE} \<longleftrightarrow> pr_state (proc_at pt j) \<in> {UNUSED, ZOMBIE}"
  using assms
  by (auto simp: ipc_recv_msg_def sleep_def proc_wakeup1 proc_upd_proc wake_proc_def split: if_splits)

lemma recv_step:
  assumes inv: "sys_inv s" and run: "running i s" and recv: "ipc_recv_msg i (tab s) = (r, pt)"
  shows "sys_inv (after_recv i r pt s)"
proof -
  have i: "i < NPROC" "pr_state (proc_at (tab s) i) = RUNNING" using run by (simp_all add: running_def)
  have J: "ipc_inv (tab s) (stage s)" and H: "\<And>j. j < NPROC \<Longrightarrow> hist_ok s j" using inv by (simp_all add: sys_inv_def)
  note L = ipc_invD(1) [OF J]
  note K = ipc_recv_msg_inv [OF J i recv]
  have "hist_ok (after_recv i r pt s) j" if j: "j < NPROC" for j
  proof (cases "j = i")
    case True
    then show ?thesis using H [OF i(1)] ipc_recv_msg_mail [OF recv L i(1) i(1)] i
      by (simp add: hist_ok_def)
  next
    case False
    then have "sent (after_recv i r pt s) j = sent s j" "got (after_recv i r pt s) j = got s j" "tab (after_recv i r pt s) = pt"
      by (induction i r pt s rule: after_recv.induct) simp_all
    then show ?thesis using ipc_recv_msg_mail(2-4) [OF recv L j i(1)] i False
      by (intro hist_ok_frame [OF H [OF j]]) auto
  qed
  moreover have "tab (after_recv i r pt s) = pt"
    "stage (after_recv i r pt s) = (stage s)(i := (case r of Return _ \<Rightarrow> User | Asleep \<Rightarrow> Receiving))"
    by (induction i r pt s rule: after_recv.induct) simp_all
  ultimately show ?thesis using K by (simp add: sys_inv_def)
qed

text \<open>Steps that change the table only, and leave mailboxes alone.\<close>

lemma table_step:
  assumes inv: "sys_inv s" and J: "ipc_inv pt (stage s)"
    and same: "\<And>j. j < NPROC \<Longrightarrow> has_msg (proc_at pt j) = has_msg (proc_at (tab s) j)
      \<and> mailbox (proc_at pt j) = mailbox (proc_at (tab s) j)
      \<and> (pr_state (proc_at pt j) \<notin> {UNUSED, ZOMBIE} \<longrightarrow> pr_state (proc_at (tab s) j) \<notin> {UNUSED, ZOMBIE})"
  shows "sys_inv (s\<lparr>tab := pt\<rparr>)"
proof -
  have "hist_ok (s\<lparr>tab := pt\<rparr>) j" if j: "j < NPROC" for j
    by (rule hist_ok_frame [of s j]) (use inv same [OF j] j in \<open>auto simp: sys_inv_def\<close>)
  then show ?thesis using J by (simp add: sys_inv_def)
qed

lemma ipc_step_inv:
  assumes "ipc_step s s'" and inv: "sys_inv s"
  shows "sys_inv s'"
  using assms(1)
proof cases
  have J: "ipc_inv (tab s) (stage s)" and H: "\<And>j. j < NPROC \<Longrightarrow> hist_ok s j" using inv by (simp_all add: sys_inv_def)
  note L = ipc_invD(1) [OF J]
  {
    case (send i pid msg r tk pt)
    have i: "i < NPROC" "pr_state (proc_at (tab s) i) = RUNNING" using send by (simp_all add: running_def)
    from send(4) show ?thesis
    proof (cases rule: ipc_send_msg_cases)
      case fail
      have "(stage s)(i := User) = stage s" using send(3) by auto
      then have "after_send i r tk pt s = s" using fail by simp
      then show ?thesis using inv send(1) by simp
    next
      case (loop t k)
      then have "m_sender k = pr_pid (proc_at (tab s) i)" "t < NPROC" using L by simp_all
      from send_loop_step [OF inv send(2) this(1) loop(3) this(2) loop(8)] show ?thesis using send(1) loop(1) by simp
    qed
  next
    case (send_again i t k r pt)
    then have "stage_ok (tab s) i (Sending t k)" using ipc_invD(3) [OF J, of i] by (simp add: proc_ok_def running_def)
    then show ?thesis using send_loop_step [OF inv send_again(2) _ _ _ send_again(4)] send_again(1) by (simp add: stage_ok_def)
  next
    case (recv i r pt)
    then show ?thesis using recv_step [OF inv] by simp
  next
    case (recv_again i r pt)
    then show ?thesis using recv_step [OF inv] by simp
  next
    case (schedule i)
    show ?thesis unfolding schedule(1)
      by (rule table_step [OF inv schedule_inv [OF J schedule(2,3)]])
         (use schedule L in \<open>simp add: sleep_return_def proc_upd_proc\<close>)
  next
    case (preempt i)
    show ?thesis unfolding preempt(1)
      by (rule table_step [OF inv yield_inv [OF J]]) (use preempt L in \<open>simp_all add: running_def yield_def proc_upd_proc\<close>)
  next
    case (sleeps i c)
    show ?thesis unfolding sleeps(1)
      by (rule table_step [OF inv sleep_inv [OF J]]) (use sleeps L in \<open>simp_all add: running_def sleep_def proc_upd_proc\<close>)
  next
    case (wakes c)
    show ?thesis unfolding wakes(1) wakeup_def
      by (rule table_step [OF inv ipc_inv_quiet [OF J quiet_wakeup1]]) (use L in \<open>simp add: proc_wakeup1 wake_proc_def\<close>)
  next
    case (kills pid)
    show ?thesis unfolding kills(1)
      by (rule table_step [OF inv kill_inv [OF J]])
         (use L in \<open>auto simp: kill_def proc_upd_proc split: option.splits if_splits\<close>)
  next
    case (registers i)
    show ?thesis unfolding registers(1)
      by (rule table_step [OF inv]) (use J in \<open>simp_all add: register_fsserver_def fs_pid_inv\<close>)
  next
    case (forks i n pt)
    note c = claim_slot_SomeD [OF forks(4)]
    have "hist_ok (s\<lparr>tab := pt, sent := (sent s)(n := []), got := (got s)(n := [])\<rparr>) j" if j: "j < NPROC" for j
      using H [OF j] c L j by (auto simp: hist_ok_def proc_upd_proc)
    then show ?thesis using claim_slot_inv [OF J forks(4)] forks(1) by (simp add: sys_inv_def)
  next
    case (starts i n)
    show ?thesis unfolding starts(1)
      by (rule table_step [OF inv starts_inv [OF J starts(4,5)]]) (use starts L in \<open>simp add: proc_upd_proc\<close>)
  next
    case (exits i)
    have i: "i < NPROC" "pr_state (proc_at (tab s) i) = RUNNING" "stage s i = User" using exits by (simp_all add: running_def)
    obtain pt where e: "exit_locked i (tab s) = upd_proc i (\<lambda>p. p\<lparr>pr_state := ZOMBIE\<rparr>) pt" and q: "quiet_tab (exit_awake i (tab s)) pt"
      using exit_locked_split by blast
    have Le: "length (procs (exit_awake i (tab s))) = NPROC" by (rule ipc_invD(1) [OF exit_awake_inv [OF J i(1)]])
    have "hist_ok (s\<lparr>tab := exit_locked i (tab s)\<rparr>) j" if j: "j < NPROC" for j
    proof -
      have "quiet (proc_at (exit_awake i (tab s)) j) (proc_at pt j)" using q j Le by (simp add: quiet_tab_def)
      then show ?thesis using H [OF j] exit_awake_proc [OF i(1) j L] q Le j
        by (auto simp: hist_ok_def e proc_upd_proc quiet_def quiet_tab_def wake_proc_def split: if_splits)
    qed
    then show ?thesis using exit_locked_inv [OF J i] exits(1) by (simp add: sys_inv_def)
  next
    case (reaps i z)
    have z: "z < NPROC" "pr_state (proc_at (tab s) z) = ZOMBIE" using find_zombie_SomeD [OF reaps(4)] L by simp_all
    have "hist_ok (s\<lparr>tab := reap z (tab s)\<rparr>) j" if j: "j < NPROC" for j
      using H [OF j] z L j by (auto simp: hist_ok_def reap_def proc_upd_proc)
    then show ?thesis using reap_inv [OF J z] reaps(1) by (simp add: sys_inv_def)
  }
qed

lemma ipc_reach_inv: "ipc_reach s \<Longrightarrow> sys_inv s"
  unfolding ipc_reach_def by (induction rule: rtranclp_induct) (auto intro: sys_inv_boot ipc_step_inv)

section \<open>Executions\<close>

text \<open>The steps as a function of the action that is taken, for computing executions.\<close>

datatype ipc_action = DoSend nat int ipc_msg | DoSendAgain nat | DoRecv nat | DoSchedule nat | DoFork nat | DoStart nat nat
  | DoExit nat | DoReap nat

definition in_user :: "nat \<Rightarrow> ipcst \<Rightarrow> bool" where
  "in_user i s \<longleftrightarrow> running i s \<and> stage s i = User"

fun ipc_do :: "ipc_action \<Rightarrow> ipcst \<Rightarrow> ipcst option" where
  "ipc_do (DoSend i pid msg) s =
     (if in_user i s then (case ipc_send_msg i pid msg (tab s) of ((r, tk), pt) \<Rightarrow> Some (after_send i r tk pt s)) else None)"
| "ipc_do (DoSendAgain i) s =
     (case stage s i of
        Sending t k \<Rightarrow>
          if running i s then (case ipc_send_loop i t k (tab s) of (r, pt) \<Rightarrow> Some (after_send i r (Some (t, k)) pt s)) else None
      | _ \<Rightarrow> None)"
| "ipc_do (DoRecv i) s =
     (if in_user i s \<or> running i s \<and> stage s i = Receiving
      then (case ipc_recv_msg i (tab s) of (r, pt) \<Rightarrow> Some (after_recv i r pt s)) else None)"
| "ipc_do (DoSchedule i) s =
     (if i < NPROC \<and> pr_state (proc_at (tab s) i) = RUNNABLE
      then Some (s\<lparr>tab := sleep_return i (upd_proc i (\<lambda>p. p\<lparr>pr_state := RUNNING\<rparr>) (tab s))\<rparr>) else None)"
| "ipc_do (DoFork i) s =
     (if in_user i s then
        (case claim_slot (tab s) of
           Some (Some n, pt) \<Rightarrow> Some (s\<lparr>tab := pt, sent := (sent s)(n := []), got := (got s)(n := [])\<rparr>)
         | _ \<Rightarrow> None)
      else None)"
| "ipc_do (DoStart i n) s =
     (if in_user i s \<and> n < NPROC \<and> pr_state (proc_at (tab s) n) = EMBRYO
      then Some (s\<lparr>tab := upd_proc n (\<lambda>p. p\<lparr>pr_parent := Some i, pr_state := RUNNABLE\<rparr>) (tab s)\<rparr>) else None)"
| "ipc_do (DoExit i) s =
     (if in_user i s \<and> i \<noteq> initproc (tab s) then Some (s\<lparr>tab := exit_locked i (tab s)\<rparr>) else None)"
| "ipc_do (DoReap i) s =
     (if in_user i s then (case find_zombie i (tab s) of Some z \<Rightarrow> Some (s\<lparr>tab := reap z (tab s)\<rparr>) | None \<Rightarrow> None) else None)"

lemma ipc_do_step: "ipc_do a s = Some s' \<Longrightarrow> ipc_step s s'"
  by (cases a) (auto simp: in_user_def split: if_splits option.splits prod.splits stage.splits intro: ipc_step.intros)

fun ipc_run :: "ipc_action list \<Rightarrow> ipcst \<Rightarrow> ipcst option" where
  "ipc_run [] s = Some s"
| "ipc_run (a # as) s = do { s \<leftarrow> ipc_do a s; ipc_run as s }"

lemma ipc_run_steps: "ipc_run as s = Some s' \<Longrightarrow> ipc_step\<^sup>*\<^sup>* s s'"
  by (induction as arbitrary: s)
     (auto simp: bind_eq_Some_conv intro: converse_rtranclp_into_rtranclp ipc_do_step)

lemma ipc_run_reach: "ipc_run as ipc_boot = Some s \<Longrightarrow> ipc_reach s"
  by (simp add: ipc_reach_def ipc_run_steps)

text \<open>
  Two children of the first process: the one in slot 1 sends two messages to the one in slot 2,
  and sleeps in the second call because the first message has not been taken out.
\<close>

definition two_messages :: "ipcst option" where
  "two_messages = ipc_run [DoSchedule 0, DoFork 0, DoStart 0 1, DoFork 0, DoStart 0 2, DoSchedule 1, DoSchedule 2,
     DoSend 1 3 (zero_msg\<lparr>m_type := IPC_TYPE_FS_CLOSE, m_fd := 1\<rparr>), DoSend 1 3 (zero_msg\<lparr>m_type := IPC_TYPE_FS_CLOSE, m_fd := 2\<rparr>)]
     ipc_boot"

lemma two_messages_facts:
  "case two_messages of None \<Rightarrow> False
   | Some s \<Rightarrow> stage s 1 = Sending 2 (zero_msg\<lparr>m_sender := 2, m_type := IPC_TYPE_FS_CLOSE, m_fd := 2\<rparr>)
     \<and> pr_state (proc_at (tab s) 1) = SLEEPING \<and> pr_state (proc_at (tab s) 2) = RUNNING \<and> stage s 2 = User
     \<and> initproc (tab s) = 0"
  by code_simp

lemma two_messages_reach:
  obtains s where "ipc_reach s" "stage s 1 = Sending 2 (zero_msg\<lparr>m_sender := 2, m_type := IPC_TYPE_FS_CLOSE, m_fd := 2\<rparr>)"
    "pr_state (proc_at (tab s) 1) = SLEEPING" "pr_state (proc_at (tab s) 2) = RUNNING" "stage s 2 = User" "initproc (tab s) = 0"
proof -
  obtain s where s: "two_messages = Some s" using two_messages_facts by (cases two_messages) simp_all
  then have "ipc_reach s" unfolding two_messages_def by (rule ipc_run_reach)
  moreover note two_messages_facts [unfolded s option.case]
  ultimately show thesis using that by blast
qed

section \<open>What the processes can rely on\<close>



text \<open>
  C18. The sender field of a message is authentic: in every reachable state, every message that
  was put into a mailbox carries the pid of the process that sent it, whatever the sender had
  written there, and has passed the check of its type and length.
\<close>

theorem ipc_sender_authentic:
  assumes "ipc_reach s" "i < NPROC" "(pid, m) \<in> set (sent s i)"
  shows "m_sender m = pid \<and> valid_ipc_msg m"
  using ipc_reach_inv [OF assms(1)] assms(2,3) by (auto simp: sys_inv_def hist_ok_def)

text \<open>An execution with a message whose sender field was forged.\<close>

definition forged_message :: "ipcst option" where
  "forged_message = ipc_run [DoSchedule 0, DoFork 0, DoStart 0 1, DoSchedule 1,
     DoSend 1 1 (zero_msg\<lparr>m_sender := 77, m_type := IPC_TYPE_FS_CLOSE\<rparr>)] ipc_boot"

lemma forged_message_facts:
  "case forged_message of None \<Rightarrow> False
   | Some s \<Rightarrow> (2, zero_msg\<lparr>m_sender := 2, m_type := IPC_TYPE_FS_CLOSE\<rparr>) \<in> set (sent s 0)"
  by code_simp

theorem ipc_sender_authentic_witness:
  "\<exists>s m. ipc_reach s \<and> (2, m) \<in> set (sent s 0) \<and> m_sender m = 2 \<and> valid_ipc_msg m"
proof -
  obtain s where s: "forged_message = Some s" "(2, zero_msg\<lparr>m_sender := 2, m_type := IPC_TYPE_FS_CLOSE\<rparr>) \<in> set (sent s 0)"
    using forged_message_facts by (auto split: option.splits)
  from s(1) have r: "ipc_reach s" unfolding forged_message_def by (rule ipc_run_reach)
  have "m_sender (zero_msg\<lparr>m_sender := 2, m_type := IPC_TYPE_FS_CLOSE\<rparr>) = 2
      \<and> valid_ipc_msg (zero_msg\<lparr>m_sender := 2, m_type := IPC_TYPE_FS_CLOSE\<rparr>)"
    by (rule ipc_sender_authentic [OF r _ s(2)]) simp
  with r s(2) show ?thesis by blast
qed



text \<open>
  C20. Process identifiers are unique: two slots of the table that are in use never have the same
  pid, and a pid in use is positive and below \<^verbatim>\<open>nextpid\<close>.
\<close>

theorem pids_unique:
  assumes "ipc_reach s" "i < NPROC" "pr_state (proc_at (tab s) i) \<noteq> UNUSED"
  shows "0 < pr_pid (proc_at (tab s) i) \<and> pr_pid (proc_at (tab s) i) < nextpid (tab s)
    \<and> (\<forall>j < NPROC. pr_pid (proc_at (tab s) j) = pr_pid (proc_at (tab s) i) \<longrightarrow> j = i)"
proof -
  have J: "ipc_inv (tab s) (stage s)" using ipc_reach_inv [OF assms(1)] by (simp add: sys_inv_def)
  have p: "0 < pr_pid (proc_at (tab s) i) \<and> pr_pid (proc_at (tab s) i) < nextpid (tab s)"
    using ipc_invD(3) [OF J assms(2)] assms(3) by (simp add: proc_ok_def pid_ok_def)
  then show ?thesis using ipc_invD(4) [OF J _ assms(2)] by auto
qed

theorem pids_unique_witness:
  "\<exists>s. ipc_reach s \<and> pr_state (proc_at (tab s) 2) = RUNNING
     \<and> (\<forall>j < NPROC. pr_pid (proc_at (tab s) j) = pr_pid (proc_at (tab s) 2) \<longrightarrow> j = 2)"
proof -
  obtain s where s: "ipc_reach s" "pr_state (proc_at (tab s) 2) = RUNNING" by (rule two_messages_reach)
  then show ?thesis using pids_unique [OF s(1), of 2] by (intro exI [of _ s]) simp
qed

text \<open>What happens to a sleeping sender when the owner of the mailbox empties it, and then runs it.\<close>

lemma scheduled_proc:
  assumes "length (procs pt) = NPROC" "i < NPROC" "j < NPROC"
  shows "proc_at (sleep_return i (upd_proc i (\<lambda>p. p\<lparr>pr_state := RUNNING\<rparr>) pt)) j =
    (if j = i then (proc_at pt j)\<lparr>pr_state := RUNNING, pr_chan := None\<rparr> else proc_at pt j)"
  using assms by (simp add: sleep_return_def proc_upd_proc)

lemma resume_delivers:
  assumes inv: "sys_inv s" and i: "i < NPROC" "pr_state (proc_at (tab s) i) = RUNNABLE" "stage s i = Sending t k"
    and t: "t \<noteq> i" "\<not> has_msg (proc_at (tab s) t)"
  shows "\<exists>s1 s2. ipc_step s s1 \<and> ipc_step s1 s2 \<and> stage s2 i = User \<and> got s2 = got s
    \<and> sent s2 t = sent s t @ [(pr_pid (proc_at (tab s) i), k)]
    \<and> (pr_state (proc_at (tab s) t) = ZOMBIE \<longrightarrow> pr_state (proc_at (tab s2) t) = ZOMBIE)"
proof -
  let ?pt = "sleep_return i (upd_proc i (\<lambda>p. p\<lparr>pr_state := RUNNING\<rparr>) (tab s))"
  let ?s1 = "s\<lparr>tab := ?pt\<rparr>"
  have J: "ipc_inv (tab s) (stage s)" using inv by (simp add: sys_inv_def)
  note L = ipc_invD(1) [OF J]
  have tn: "t < NPROC" using ipc_invD(3) [OF J i(1)] i(3) by (simp add: proc_ok_def stage_ok_def)
  have P: "\<And>j. j < NPROC \<Longrightarrow> proc_at ?pt j = (if j = i then (proc_at (tab s) j)\<lparr>pr_state := RUNNING, pr_chan := None\<rparr> else proc_at (tab s) j)"
    by (rule scheduled_proc [OF L i(1)])
  have 1: "ipc_step s ?s1" by (rule ipc_step.schedule [OF i(1,2)])
  obtain r pt where send: "ipc_send_loop i t k ?pt = (r, pt)" by (cases "ipc_send_loop i t k ?pt")
  have Lp: "length (procs ?pt) = NPROC" using L by (simp add: sleep_return_def)
  have r: "r = Return 0" using ipc_send_loop_mail(1) [OF send Lp i(1) i(1) tn] P [OF tn] t by simp
  have 2: "ipc_step ?s1 (after_send i r (Some (t, k)) pt ?s1)"
    by (rule ipc_step.send_again) (use i P [OF i(1)] send in \<open>simp_all add: running_def\<close>)
  have "pr_state (proc_at (tab s) t) = ZOMBIE \<longrightarrow> pr_state (proc_at pt t) = ZOMBIE"
    using send r P [OF tn] tn Lp t by (auto simp: ipc_send_loop_def proc_wakeup1 proc_upd_proc wake_proc_def split: if_splits)
  then have "stage (after_send i r (Some (t, k)) pt ?s1) i = User" "got (after_send i r (Some (t, k)) pt ?s1) = got s"
    "sent (after_send i r (Some (t, k)) pt ?s1) t = sent s t @ [(pr_pid (proc_at (tab s) i), k)]"
    "pr_state (proc_at (tab s) t) = ZOMBIE \<longrightarrow> pr_state (proc_at (tab (after_send i r (Some (t, k)) pt ?s1)) t) = ZOMBIE"
    using r P [OF i(1)] by (simp_all add: delivered_def)
  then show ?thesis using 1 2 by blast
qed

text \<open>
  C21. A sender that sleeps because the mailbox of a process is full can always finish: when the
  process calls \<^verbatim>\<open>recv\<close>, the sender becomes runnable, and if it is scheduled next, its message is
  delivered and its call returns.
\<close>

theorem sleeping_sender_progress:
  assumes "ipc_reach s" "i < NPROC" "stage s i = Sending t k" "pr_state (proc_at (tab s) i) = SLEEPING"
    and "t \<noteq> i" "running t s" "stage s t = User"
  shows "\<exists>s1 s2 s3. ipc_step s s1 \<and> ipc_step s1 s2 \<and> ipc_step s2 s3 \<and> stage s3 i = User
    \<and> got s3 t = got s t @ [mailbox (proc_at (tab s) t)] \<and> sent s3 t = sent s t @ [(pr_pid (proc_at (tab s) i), k)]"
proof -
  have inv: "sys_inv s" by (rule ipc_reach_inv [OF assms(1)])
  then have J: "ipc_inv (tab s) (stage s)" by (simp add: sys_inv_def)
  note L = ipc_invD(1) [OF J]
  have t: "t < NPROC" using assms(6) by (simp add: running_def)
  have w: "has_msg (proc_at (tab s) t)" "pr_chan (proc_at (tab s) i) = Some (ChanMail t)"
    using ipc_invD(3) [OF J assms(2)] assms(3,4) by (auto simp: proc_ok_def waiting_ok_def)
  obtain r pt where recv: "ipc_recv_msg t (tab s) = (r, pt)" by (cases "ipc_recv_msg t (tab s)")
  have r: "r = Return (Some (mailbox (proc_at (tab s) t)))" using ipc_recv_msg_mail(1) [OF recv L t t] w by simp
  let ?s1 = "after_recv t r pt s"
  have 1: "ipc_step s ?s1" by (rule ipc_step.recv [OF assms(6,7) recv])
  have inv1: "sys_inv ?s1" by (rule ipc_step_inv [OF 1 inv])
  have p: "pr_state (proc_at pt i) = RUNNABLE" "pr_pid (proc_at pt i) = pr_pid (proc_at (tab s) i)"
    using recv w assms(2,4,5) L by (auto simp: ipc_recv_msg_def proc_wakeup1 proc_upd_proc wake_proc_def)
  have e: "tab ?s1 = pt" "stage ?s1 i = Sending t k" "got ?s1 t = got s t @ [mailbox (proc_at (tab s) t)]" "sent ?s1 = sent s"
    using r assms(3,5) by simp_all
  have "\<not> has_msg (proc_at pt t)" using ipc_recv_msg_mail(2) [OF recv L t t] by simp
  then obtain s2 s3 where "ipc_step ?s1 s2" "ipc_step s2 s3" "stage s3 i = User" "got s3 = got ?s1"
    "sent s3 t = sent s t @ [(pr_pid (proc_at (tab s) i), k)]"
    using resume_delivers [OF inv1 assms(2), of t k] p(1) assms(5) unfolding e p(2) by blast
  then show ?thesis using 1 e(3) by metis
qed

theorem sleeping_sender_progress_witness:
  "\<exists>s s1 s2 s3. ipc_reach s \<and> ipc_step s s1 \<and> ipc_step s1 s2 \<and> ipc_step s2 s3 \<and> pr_state (proc_at (tab s) 1) = SLEEPING
    \<and> stage s3 1 = User \<and> got s3 2 = got s 2 @ [mailbox (proc_at (tab s) 2)]"
proof -
  obtain s where s: "ipc_reach s" "stage s 1 = Sending 2 (zero_msg\<lparr>m_sender := 2, m_type := IPC_TYPE_FS_CLOSE, m_fd := 2\<rparr>)"
    "pr_state (proc_at (tab s) 1) = SLEEPING" "pr_state (proc_at (tab s) 2) = RUNNING" "stage s 2 = User"
    by (rule two_messages_reach)
  have "running 2 s" using s(4) by (simp add: running_def)
  from sleeping_sender_progress [OF s(1) _ s(2,3) _ this s(5)] s(1,3) show ?thesis by fastforce
qed

text \<open>
  C37. A message can be delivered to a process that has exited. When the owner of a full mailbox
  exits, a sender that sleeps in \<^verbatim>\<open>ipc_send_msg\<close> is woken, finds the mailbox empty, and leaves its
  loop without looking at the state of the target again: its message goes into the mailbox of
  the zombie, and the call returns 0.
\<close>

theorem send_after_exit:
  assumes "ipc_reach s" "i < NPROC" "stage s i = Sending t k" "pr_state (proc_at (tab s) i) = SLEEPING"
    and "t \<noteq> i" "running t s" "stage s t = User" "t \<noteq> initproc (tab s)"
  shows "\<exists>s1 s2 s3. ipc_step s s1 \<and> ipc_step s1 s2 \<and> ipc_step s2 s3 \<and> pr_state (proc_at (tab s1) t) = ZOMBIE
    \<and> pr_state (proc_at (tab s3) t) = ZOMBIE \<and> stage s3 i = User \<and> sent s3 t = sent s t @ [(pr_pid (proc_at (tab s) i), k)]"
proof -
  have inv: "sys_inv s" by (rule ipc_reach_inv [OF assms(1)])
  then have J: "ipc_inv (tab s) (stage s)" by (simp add: sys_inv_def)
  note L = ipc_invD(1) [OF J]
  have t: "t < NPROC" using assms(6) by (simp add: running_def)
  have w: "pr_chan (proc_at (tab s) i) = Some (ChanMail t)"
    using ipc_invD(3) [OF J assms(2)] assms(3,4) by (auto simp: proc_ok_def waiting_ok_def)
  obtain pt where e: "exit_locked t (tab s) = upd_proc t (\<lambda>p. p\<lparr>pr_state := ZOMBIE\<rparr>) pt" and q: "quiet_tab (exit_awake t (tab s)) pt"
    using exit_locked_split by blast
  have Le: "length (procs (exit_awake t (tab s))) = NPROC" by (rule ipc_invD(1) [OF exit_awake_inv [OF J t]])
  have Lp: "length (procs pt) = NPROC" using q Le by (simp add: quiet_tab_def)
  have Q: "quiet (proc_at (exit_awake t (tab s)) j) (proc_at pt j)" if "j < NPROC" for j
    using q that Le by (simp add: quiet_tab_def)
  let ?s1 = "s\<lparr>tab := exit_locked t (tab s)\<rparr>"
  have 1: "ipc_step s ?s1" by (rule ipc_step.exits [OF assms(6-8)])
  have inv1: "sys_inv ?s1" by (rule ipc_step_inv [OF 1 inv])
  have p: "pr_state (proc_at (tab ?s1) i) = RUNNABLE" "pr_pid (proc_at (tab ?s1) i) = pr_pid (proc_at (tab s) i)"
    using Q [OF assms(2)] exit_awake_proc [OF t assms(2) L] assms(2,4,5) w Lp
    by (auto simp: e proc_upd_proc quiet_def wake_proc_def)
  have z: "pr_state (proc_at (tab ?s1) t) = ZOMBIE" "\<not> has_msg (proc_at (tab ?s1) t)"
    using Q [OF t] exit_awake_proc [OF t t L] t Lp by (auto simp: e proc_upd_proc quiet_def)
  have e1: "stage ?s1 i = Sending t k" "sent ?s1 = sent s" using assms(3) by simp_all
  obtain s2 s3 where "ipc_step ?s1 s2" "ipc_step s2 s3" "stage s3 i = User"
    "sent s3 t = sent s t @ [(pr_pid (proc_at (tab s) i), k)]" "pr_state (proc_at (tab s3) t) = ZOMBIE"
    using resume_delivers [OF inv1 assms(2) p(1) e1(1) assms(5) z(2)] z(1) unfolding e1 p(2) by blast
  then show ?thesis using 1 z(1) by blast
qed

theorem send_after_exit_witness:
  "\<exists>s s1 s2 s3. ipc_reach s \<and> ipc_step s s1 \<and> ipc_step s1 s2 \<and> ipc_step s2 s3
    \<and> pr_state (proc_at (tab s1) 2) = ZOMBIE \<and> stage s3 1 = User \<and> length (sent s3 2) = Suc (length (sent s 2))"
proof -
  obtain s where s: "ipc_reach s" "stage s 1 = Sending 2 (zero_msg\<lparr>m_sender := 2, m_type := IPC_TYPE_FS_CLOSE, m_fd := 2\<rparr>)"
    "pr_state (proc_at (tab s) 1) = SLEEPING" "pr_state (proc_at (tab s) 2) = RUNNING" "stage s 2 = User" "initproc (tab s) = 0"
    by (rule two_messages_reach)
  have r: "running 2 s" "2 \<noteq> initproc (tab s)" using s(4,6) by (simp_all add: running_def)
  from send_after_exit [OF s(1) _ s(2,3) _ r(1) s(5) r(2)] s(1) show ?thesis by fastforce
qed

section \<open>A mailbox is a buffer with one slot\<close>

definition mail_inv :: "nat \<Rightarrow> nat \<Rightarrow> ptable \<Rightarrow> bool" where
  "mail_inv me t pt \<longleftrightarrow> length (procs pt) = NPROC \<and> me < NPROC \<and> t < NPROC"

definition mail_contents :: "nat \<Rightarrow> ptable \<Rightarrow> ipc_msg list" where
  "mail_contents t pt = (if has_msg (proc_at pt t) then [mailbox (proc_at pt t)] else [])"

definition mail_put :: "nat \<Rightarrow> nat \<Rightarrow> ipc_msg \<Rightarrow> ptable \<Rightarrow> ptable option" where
  "mail_put me t k pt = (case ipc_send_loop me t k pt of (Return r, pt') \<Rightarrow> if r = 0 then Some pt' else None | _ \<Rightarrow> None)"

definition mail_get :: "nat \<Rightarrow> ptable \<Rightarrow> (ipc_msg \<times> ptable) option" where
  "mail_get t pt = (case ipc_recv_msg t pt of (Return (Some m), pt') \<Rightarrow> Some (m, pt') | _ \<Rightarrow> None)"

interpretation mail: bounded_fifo "mail_inv me t" "mail_contents t" 1 "mail_put me t" "mail_get t" for me t
proof unfold_locales
  fix pt and k :: ipc_msg
  assume inv: "mail_inv me t pt"
  then have L: "length (procs pt) = NPROC" "me < NPROC" "t < NPROC" by (simp_all add: mail_inv_def)
  show "\<exists>pt'. mail_put me t k pt = Some pt' \<and> mail_inv me t pt' \<and> mail_contents t pt' = mail_contents t pt @ [k]"
    if "length (mail_contents t pt) < 1"
    using that L by (auto simp: mail_contents_def mail_put_def mail_inv_def ipc_send_loop_def proc_wakeup1 proc_upd_proc split: if_splits)
  show "mail_put me t k pt = None" if "1 \<le> length (mail_contents t pt)"
    using that by (auto simp: mail_contents_def mail_put_def ipc_send_loop_def split: if_splits)
  show "\<exists>pt'. mail_get t pt = Some (k, pt') \<and> mail_inv me t pt' \<and> mail_contents t pt' = ks" if "mail_contents t pt = k # ks" for ks
    using that L by (auto simp: mail_contents_def mail_get_def mail_inv_def ipc_recv_msg_def proc_wakeup1 proc_upd_proc split: if_splits)
  show "mail_get t pt = None" if "mail_contents t pt = []"
    using that by (auto simp: mail_contents_def mail_get_def ipc_recv_msg_def split: if_splits)
qed

section \<open>Killing and scheduling\<close>

text \<open>
  C38. \<^verbatim>\<open>kill(0)\<close> succeeds although no process has pid 0: it marks the first free slot of the table as
  killed, and the next process that is created there is born killed.
\<close>

theorem kill_zero_poisons:
  assumes "ipc_reach s" "i < NPROC" "pr_state (proc_at (tab s) i) = UNUSED" "nextpid (tab s) < 2 ^ 31 - 1"
  shows "\<exists>pt n pt'. kill 0 (tab s) = (0, pt) \<and> claim_slot pt = Some (Some n, pt') \<and> pr_killed (proc_at pt' n)"
proof -
  have J: "ipc_inv (tab s) (stage s)" using ipc_reach_inv [OF assms(1)] by (simp add: sys_inv_def)
  note L = ipc_invD(1) [OF J]
  have free: "pr_pid (proc_at (tab s) j) = 0 \<longleftrightarrow> pr_state (proc_at (tab s) j) = UNUSED" if "j < NPROC" for j
    using ipc_invD(3) [OF J that] by (auto simp: proc_ok_def pid_ok_def split: if_splits)
  obtain n where n: "first_idx (\<lambda>p. pr_state p = UNUSED) (procs (tab s)) = Some n"
    using first_idx_ex [of i "procs (tab s)" "\<lambda>p. pr_state p = UNUSED"] assms(2,3) L by auto
  then have n': "n < NPROC" "pr_state (proc_at (tab s) n) = UNUSED" "\<forall>j < n. pr_state (proc_at (tab s) j) \<noteq> UNUSED"
    using L by (auto simp: first_idx_Some_iff)
  have k: "first_idx (\<lambda>p. pr_pid p = 0) (procs (tab s)) = Some n"
    using n' free L by (auto simp: first_idx_Some_iff)
  let ?pt = "upd_proc n (\<lambda>p. p\<lparr>pr_killed := True, pr_state := (if pr_state p = SLEEPING then RUNNABLE else pr_state p)\<rparr>) (tab s)"
  have c: "first_idx (\<lambda>p. pr_state p = UNUSED) (procs ?pt) = Some n"
    using n' L by (auto simp: first_idx_Some_iff proc_upd_proc)
  show ?thesis
    using k c assms(4) n'(1) L by (simp add: kill_def claim_slot_def proc_upd_proc)
qed

theorem kill_zero_poisons_witness:
  "\<exists>pt n pt'. kill 0 boot_table = (0, pt) \<and> claim_slot pt = Some (Some n, pt') \<and> pr_killed (proc_at pt' n)"
proof -
  have "pr_state (proc_at (tab ipc_boot) 1) = UNUSED" "nextpid (tab ipc_boot) < 2 ^ 31 - 1"
    by (simp_all add: ipc_boot_def boot_table_def empty_proc_def)
  from kill_zero_poisons [OF _ _ this] show ?thesis by (simp add: ipc_reach_def ipc_boot_def)
qed

lemma scheduler_pass_runs:
  assumes "p \<in> set ps" "distinct ps" "pr_state (proc_at pt p) = RUNNABLE"
    and "\<And>q t. q \<noteq> p \<Longrightarrow> pr_state (proc_at t p) = RUNNABLE \<Longrightarrow>
      pr_state (proc_at (run q (upd_proc q (\<lambda>x. x\<lparr>pr_state := RUNNING\<rparr>) t)) p) = RUNNABLE"
  shows "p \<in> set (fst (scheduler_pass run ps pt))"
  using assms
proof (induction run ps pt rule: scheduler_pass.induct)
  case (1 run pt)
  then show ?case by simp
next
  case (2 run q qs pt)
  show ?case
  proof (cases "p = q")
    case True
    then show ?thesis using 2(5) by (simp split: prod.split)
  next
    case False
    then show ?thesis using 2 by (auto split: prod.split)
  qed
qed



end
