(* ===== verification/Xv6_Pipe.thy ===== *)
theory Xv6_Pipe
  imports Xv6_File Xv6_Fifo
begin

text \<open>
  Pipes transmit bytes in order: the ring buffer of \<^verbatim>\<open>pipe.c\<close> implements the bounded buffer of
  \<open>Xv6_Fifo\<close>, and the reads and writes of any number of processes, each cut into the sections
  between two sleeps, transfer the bytes that were written.
\<close>

section \<open>The ring buffer\<close>

definition pipe_contents :: "pipe \<Rightarrow> byte list" where
  "pipe_contents q = ring (p_data q) (p_nread q) (p_nwrite q)"

definition pipe_inv :: "pipe \<Rightarrow> bool" where
  "pipe_inv q \<longleftrightarrow> length (p_data q) = PIPESIZE \<and> length (pipe_contents q) \<le> PIPESIZE"

lemma pipe_full_iff: "pipe_inv q \<Longrightarrow> pipe_full q \<longleftrightarrow> length (pipe_contents q) = PIPESIZE"
proof -
  have "p_nwrite q = p_nread q + 512 \<longleftrightarrow> p_nwrite q - p_nread q = 512" by (auto simp: algebra_simps)
  also have "\<dots> \<longleftrightarrow> unat (p_nwrite q - p_nread q) = 512" by (simp add: word_unat_eq_iff)
  finally show ?thesis by (simp add: pipe_full_def pipe_contents_def)
qed

lemma pipe_empty_iff: "pipe_empty q \<longleftrightarrow> pipe_contents q = []"
  by (simp add: pipe_empty_def pipe_contents_def ring_Nil_iff)

definition put_byte :: "byte \<Rightarrow> pipe \<Rightarrow> pipe option" where
  "put_byte b q = (if pipe_full q then None else Some (pipe_put b q))"

definition get_byte :: "pipe \<Rightarrow> (byte \<times> pipe) option" where
  "get_byte q = (if pipe_empty q then None else Some (pipe_get q))"

interpretation pp: bounded_fifo pipe_inv pipe_contents PIPESIZE put_byte get_byte
proof unfold_locales
  fix q b bs
  assume inv: "pipe_inv q"
  then have N: "length (p_data q) = PIPESIZE" by (simp add: pipe_inv_def)
  show "\<exists>t. put_byte b q = Some t \<and> pipe_inv t \<and> pipe_contents t = pipe_contents q @ [b]" if "length (pipe_contents q) < PIPESIZE"
  proof -
    have c: "pipe_contents (pipe_put b q) = pipe_contents q @ [b]"
      using that N ring_put [of "p_data q" "p_nwrite q" "p_nread q" b] by (simp add: pipe_put_def pipe_contents_def)
    have "pipe_inv (pipe_put b q)" unfolding pipe_inv_def c using that N by (simp add: pipe_put_def)
    then show ?thesis using c that pipe_full_iff [OF inv] by (simp add: put_byte_def)
  qed
  show "put_byte b q = None" if "PIPESIZE \<le> length (pipe_contents q)"
    using that inv pipe_full_iff [OF inv] by (simp add: put_byte_def pipe_inv_def)
  show "\<exists>t. get_byte q = Some (b, t) \<and> pipe_inv t \<and> pipe_contents t = bs" if "pipe_contents q = b # bs"
    using that inv N pipe_empty_iff [of q] ring_get [of "p_nread q" "p_nwrite q" "p_data q"]
    by (auto simp: get_byte_def pipe_get_def pipe_inv_def pipe_contents_def pipe_empty_def)
  show "get_byte q = None" if "pipe_contents q = []"
    using that by (simp add: get_byte_def pipe_empty_iff)
qed

section \<open>Reads and writes\<close>

lemma pipes_set_pt [simp]: "pipes (set_pt t s) = pipes s" "cur (set_pt t s) = cur s" "pt (set_pt t s) = t"
  by (simp_all add: set_pt_def)

lemma pipes_upd_pipe [simp]: "pipes (upd_pipe p f s) = (pipes s)(p := f (pipes s p))" "cur (upd_pipe p f s) = cur s"
  by (simp_all add: upd_pipe_def)

text \<open>
  A section of \<^verbatim>\<open>pipewrite\<close> appends a prefix of the bytes. It returns 0 bytes short only when all are
  written; otherwise the pipe is full.
\<close>

lemma pipewrite_run_contents:
  assumes "pipe_inv (pipes s p)" "pipewrite_run p bs s = ((r, rest), t)"
  shows "pipe_inv (pipes t p) \<and> (\<exists>ws. bs = ws @ rest \<and> pipe_contents (pipes t p) = pipe_contents (pipes s p) @ ws)
    \<and> (if r = Return True then rest = [] else rest \<noteq> [] \<and> pipe_full (pipes t p))
    \<and> (\<forall>p'. p' \<noteq> p \<longrightarrow> pipes t p' = pipes s p')"
  using assms
proof (induction p bs s arbitrary: r rest t rule: pipewrite_run.induct)
  case (1 p s)
  then show ?case by auto
next
  case (2 p b bs s)
  show ?case
  proof (cases "pipe_full (pipes s p)")
    case True
    then show ?thesis using 2(2,3) by (auto split: if_splits)
  next
    case False
    have "put_byte b (pipes s p) = Some (pipe_put b (pipes s p))" using False by (simp add: put_byte_def)
    then have p: "pipe_inv (pipe_put b (pipes s p))" "pipe_contents (pipe_put b (pipes s p)) = pipe_contents (pipes s p) @ [b]"
      using pp.put_cases [OF 2(2), of b] by auto
    have run: "pipewrite_run p bs (upd_pipe p (pipe_put b) s) = ((r, rest), t)" using 2(3) False by simp
    from 2(1) [OF False _ run] p obtain ws where ws: "bs = ws @ rest"
      "pipe_contents (pipes t p) = (pipe_contents (pipes s p) @ [b]) @ ws" and o: "pipe_inv (pipes t p)"
      "if r = Return True then rest = [] else rest \<noteq> [] \<and> pipe_full (pipes t p)" "\<forall>p'. p' \<noteq> p \<longrightarrow> pipes t p' = pipes s p'"
      by auto
    from ws have "b # bs = (b # ws) @ rest" "pipe_contents (pipes t p) = pipe_contents (pipes s p) @ b # ws" by simp_all
    with o show ?thesis by blast
  qed
qed

lemma pipe_copy_contents:
  assumes "pipe_inv q" "pipe_copy n q = (bs, q')"
  shows "pipe_inv q' \<and> bs = take n (pipe_contents q) \<and> pipe_contents q' = drop n (pipe_contents q)
    \<and> p_readopen q' = p_readopen q \<and> p_writeopen q' = p_writeopen q"
  using assms
proof (induction n q arbitrary: bs q' rule: pipe_copy.induct)
  case (1 q)
  then show ?case by simp
next
  case (2 n q)
  show ?case
  proof (cases "pipe_empty q")
    case True
    then show ?thesis using 2(2,3) by (auto simp: pipe_empty_iff)
  next
    case False
    obtain b u where g: "pipe_get q = (b, u)" by (cases "pipe_get q")
    then have "get_byte q = Some (b, u)" using False by (simp add: get_byte_def)
    then have c: "pipe_inv u" "pipe_contents q = b # pipe_contents u" using pp.get_cases [OF 2(2)] by auto
    have o: "p_readopen u = p_readopen q" "p_writeopen u = p_writeopen q" using g by (auto simp: pipe_get_def)
    obtain cs where "pipe_copy n u = (cs, q')" "bs = b # cs" using 2(3) False g by (auto split: prod.splits)
    then show ?thesis using 2(1) [OF False g [symmetric] c(1)] c(2) o by auto
  qed
qed

text \<open>
  Sections of reads and writes on one pipe, each by the process that is given with it; the
  bytes that were written into the pipe, and the bytes that were read.
\<close>

fun pipe_ops ::
  "u64 \<Rightarrow> (nat \<times> (byte list + nat)) list \<Rightarrow> 'a filest_scheme \<Rightarrow> (byte list \<times> byte list) \<times> 'a filest_scheme" where
  "pipe_ops p [] s = (([], []), s)"
| "pipe_ops p ((i, Inl bs) # ops) s =
     (case pipewrite_run p bs (s\<lparr>cur := i\<rparr>) of
        ((r, rest), s) \<Rightarrow>
          (case pipe_ops p ops s of ((ins, outs), s) \<Rightarrow> ((take (length bs - length rest) bs @ ins, outs), s)))"
| "pipe_ops p ((i, Inr n) # ops) s =
     (case piperead_run p n (s\<lparr>cur := i\<rparr>) of
        (Return (Some bs), s) \<Rightarrow> (case pipe_ops p ops s of ((ins, outs), s) \<Rightarrow> ((ins, bs @ outs), s))
      | (_, s) \<Rightarrow> pipe_ops p ops s)"

lemma pipe_ops_fifo:
  assumes "pipe_inv (pipes s p)" "pipe_ops p ops s = ((ins, outs), t)"
  shows "pipe_inv (pipes t p) \<and> pipe_contents (pipes s p) @ ins = outs @ pipe_contents (pipes t p)"
  using assms
proof (induction p ops s arbitrary: ins outs t rule: pipe_ops.induct)
  case (1 p s)
  then show ?case by simp
next
  case (2 p i bs ops s)
  obtain r rest u where w: "pipewrite_run p bs (s\<lparr>cur := i\<rparr>) = ((r, rest), u)" by (metis prod.collapse)
  have "pipe_inv (pipes (s\<lparr>cur := i\<rparr>) p)" using 2(2) by simp
  from pipewrite_run_contents [OF this w] obtain ws where c: "pipe_inv (pipes u p)" "bs = ws @ rest"
    "pipe_contents (pipes u p) = pipe_contents (pipes s p) @ ws" by auto
  obtain ins' where o: "pipe_ops p ops u = ((ins', outs), t)" "ins = ws @ ins'"
    using 2(3) w c(2) by (auto split: prod.splits)
  from 2(1) [OF w [symmetric] refl c(1) o(1)] show ?case using c(3) o(2) by simp
next
  case (3 p i n ops s)
  let ?s = "s\<lparr>cur := i\<rparr>"
  show ?case
  proof (cases "pipe_empty (pipes s p) \<and> p_writeopen (pipes s p)")
    case True
    define u where "u = (if pr_killed (cur_proc ?s) then ?s else set_pt (sleep (cur ?s) (ChanPipeR p) (pt ?s)) ?s)"
    then have r: "piperead_run p n ?s = (if pr_killed (cur_proc ?s) then Return None else Asleep, u)" and u: "pipes u = pipes s"
      using True by (simp_all add: piperead_run_def)
    have "pipe_ops p ops u = ((ins, outs), t)" using 3(5) r by (simp split: if_splits)
    then show ?thesis using 3(1,3) [of _ u, OF r [symmetric]] 3(4) u by (cases "pr_killed (cur_proc ?s)") simp_all
  next
    case False
    obtain bs q where g: "pipe_copy n (pipes s p) = (bs, q)" by (cases "pipe_copy n (pipes s p)")
    let ?u = "set_pt (wakeup (ChanPipeW p) (pt ?s)) (upd_pipe p (\<lambda>_. q) ?s)"
    have r: "piperead_run p n ?s = (Return (Some bs), ?u)" using False g by (simp add: piperead_run_def)
    have c: "pipe_inv q" "pipe_contents (pipes s p) = bs @ pipe_contents q" using pipe_copy_contents [OF 3(4) g] by simp_all
    obtain outs' where o: "pipe_ops p ops ?u = ((ins, outs'), t)" "outs = bs @ outs'"
      using 3(5) r by (auto split: prod.splits)
    from 3(2) [OF r [symmetric] refl refl, of ins outs' t] c o show ?thesis by simp
  qed
qed

text \<open>
  C15. A pipe is a first-in first-out byte stream: for all reads and writes on it by any processes,
  in any order and with any interleaving of their sections, the bytes that were in the pipe
  followed by the bytes written are the bytes read followed by what is left in the pipe. The
  pipe never holds more than 512 bytes, also when the counters wrap around.
\<close>

theorem pipe_fifo:
  assumes "pipe_inv (pipes s p)" "pipe_ops p ops s = ((ins, outs), t)"
  shows "pipe_contents (pipes s p) @ ins = outs @ pipe_contents (pipes t p) \<and> length (pipe_contents (pipes t p)) \<le> PIPESIZE"
  using pipe_ops_fifo [OF assms] by (simp add: pipe_inv_def)

text \<open>A pipe whose counters are about to wrap around.\<close>

definition old_pipe :: pipe where
  "old_pipe = zero_pipe\<lparr>p_nread := -2, p_nwrite := -2, p_readopen := True, p_writeopen := True\<rparr>"

definition old_pipe_state :: filest where
  "old_pipe_state = file_boot\<lparr>pipes := (\<lambda>_. old_pipe)\<rparr>"

lemma old_pipe_state_ok:
  "pipe_inv (pipes old_pipe_state p)" "pipe_contents (pipes old_pipe_state p) = []"
  "cur old_pipe_state < length (procs (pt old_pipe_state))"
  by (simp_all add: old_pipe_state_def pipe_inv_def pipe_contents_def old_pipe_def zero_pipe_def ring_def)

theorem pipe_fifo_witness:
  "\<exists>ins outs t. pipe_ops 0 [(0, Inl [1, 2, 3]), (1, Inr 2), (0, Inl [4])] old_pipe_state = ((ins, outs), t)
     \<and> ins = outs @ pipe_contents (pipes t 0)"
proof -
  obtain ins outs t where r: "pipe_ops 0 [(0, Inl [1, 2, 3]), (1, Inr 2), (0, Inl [4])] old_pipe_state = ((ins, outs), t)"
    by (metis prod.collapse)
  from pipe_fifo [OF old_pipe_state_ok(1) r] have "ins = outs @ pipe_contents (pipes t 0)"
    by (simp add: old_pipe_state_ok)
  with r show ?thesis by blast
qed

lemma pipewrite_run_asleep:
  assumes "pipewrite_run p bs s = ((Asleep, rest), t)" "cur s < length (procs (pt s))"
  shows "pr_state (cur_proc t) = SLEEPING \<and> pr_chan (cur_proc t) = Some (ChanPipeW p) \<and> p_readopen (pipes t p)"
  using assms
proof (induction p bs s arbitrary: rest t rule: pipewrite_run.induct)
  case (1 p s)
  then show ?case by simp
next
  case (2 p b bs s)
  show ?case
  proof (cases "pipe_full (pipes s p)")
    case True
    then show ?thesis using 2(2,3)
      by (auto simp: set_pt_def sleep_def upd_proc_def wakeup_def wakeup1_def split: if_splits)
  next
    case False
    then show ?thesis using 2(1) [OF False, of rest t] 2(2,3) by (simp add: upd_pipe_def)
  qed
qed

text \<open>
  C33. What a write to a pipe returns: if it returns the number of bytes, all of them are in the pipe
  behind what was there; if it returns -1, the pipe is full and its reader is gone or the writer
  has been killed; a writer that goes to sleep leaves a full pipe with an open read end. In each
  case the bytes it has handed over are a prefix, in order, and no other pipe changes.
\<close>

theorem pipewrite_correct:
  assumes "pipe_inv (pipes s p)" "cur s < length (procs (pt s))" "pipewrite_run p bs s = ((r, rest), t)"
  shows "\<exists>ws. bs = ws @ rest \<and> pipe_contents (pipes t p) = pipe_contents (pipes s p) @ ws
    \<and> (\<forall>p'. p' \<noteq> p \<longrightarrow> pipes t p' = pipes s p')
    \<and> (case r of
         Return True \<Rightarrow> rest = []
       | Return False \<Rightarrow> pipe_full (pipes t p) \<and> (\<not> p_readopen (pipes t p) \<or> pr_killed (cur_proc t))
       | Asleep \<Rightarrow> pipe_full (pipes t p) \<and> p_readopen (pipes t p) \<and> pr_state (cur_proc t) = SLEEPING
           \<and> pr_chan (cur_proc t) = Some (ChanPipeW p))"
proof -
  have gone: "r = Return False \<Longrightarrow> \<not> p_readopen (pipes t p) \<or> pr_killed (cur_proc t)"
    using assms(3)
  proof (induction p bs s rule: pipewrite_run.induct)
    case (2 p b bs s)
    then show ?case by (simp split: if_splits)
  qed simp
  show ?thesis
    using pipewrite_run_contents [OF assms(1,3)] gone pipewrite_run_asleep [of p bs s rest t] assms(2,3)
    by (cases r) (auto split: bool.split)
qed

theorem pipewrite_correct_witness:
  "\<exists>r rest t ws. pipewrite_run 0 [7, 8] old_pipe_state = ((r, rest), t) \<and> [7, 8] = ws @ rest
     \<and> pipe_contents (pipes t 0) = ws"
proof -
  obtain r rest t where run: "pipewrite_run 0 [7, 8] old_pipe_state = ((r, rest), t)" by (metis prod.collapse)
  from pipewrite_correct [OF old_pipe_state_ok(1,3) run] obtain ws where "[7, 8] = ws @ rest" "pipe_contents (pipes t 0) = ws"
    by (auto simp: old_pipe_state_ok)
  with run show ?thesis by blast
qed

end
