(* ===== verification/Xv6_FsSpec.thy ===== *)
theory Xv6_FsSpec
  imports Xv6_Disk
begin

text \<open>
  What the blocks of a disk mean: which blocks are allocated, which blocks a file has, and
  the bytes of a file. All definitions are functions of the contents \<open>v\<close> of the blocks and of the
  thirteen block numbers \<open>A\<close> of an inode, so that they apply to the kernel's view of the disk and to
  the file server's view alike. The lemmas say how the meaning changes when a block is
  allocated, hooked into a file, or overwritten.
\<close>

section \<open>Layout and allocation\<close>

text \<open>The blocks behind the bitmap hold data; the bitmap itself lies behind the inodes.\<close>

definition sb_ok :: "superblock \<Rightarrow> bool" where
  "sb_ok sb \<longleftrightarrow> unat (sb_bmapstart sb) + unat (sb_size sb) div BPB + 1 \<le> unat (sb_size sb)
     \<and> unat (sb_inodestart sb) + unat (sb_ninodes sb) div IPB < unat (sb_bmapstart sb)"

definition data_block :: "superblock \<Rightarrow> u32 \<Rightarrow> bool" where
  "data_block sb b \<longleftrightarrow> unat (sb_bmapstart sb) + unat (sb_size sb) div BPB + 1 \<le> unat b \<and> unat b < unat (sb_size sb)"

definition bitmap_block :: "superblock \<Rightarrow> u32 \<Rightarrow> bool" where
  "bitmap_block sb b \<longleftrightarrow> unat (sb_bmapstart sb) \<le> unat b \<and> unat b \<le> unat (sb_bmapstart sb) + unat (sb_size sb) div BPB"

definition allocated :: "superblock \<Rightarrow> (u32 \<Rightarrow> block) \<Rightarrow> u32 \<Rightarrow> bool" where
  "allocated sb v b \<longleftrightarrow> \<not> bm_free (unat b mod BPB) (v (BBLOCK b sb))"

text \<open>Everything that is not a data block is marked as allocated.\<close>

definition meta_allocated :: "superblock \<Rightarrow> (u32 \<Rightarrow> block) \<Rightarrow> bool" where
  "meta_allocated sb v \<longleftrightarrow> (\<forall>b. unat b < unat (sb_size sb) \<longrightarrow> \<not> data_block sb b \<longrightarrow> allocated sb v b)"

lemma unat_BBLOCK:
  assumes "sb_ok sb" "unat b < unat (sb_size sb)"
  shows "unat (BBLOCK b sb) = unat b div BPB + unat (sb_bmapstart sb)"
proof -
  have "unat b div BPB \<le> unat (sb_size sb) div BPB" using assms(2) by (intro div_le_mono) simp
  then have "unat b div BPB + unat (sb_bmapstart sb) < unat (sb_size sb)" using assms(1) by (simp add: sb_ok_def)
  then have "unat b div BPB + unat (sb_bmapstart sb) < 2 ^ 32" using unat_less_u32 [of "sb_size sb"] by simp
  then show ?thesis by (simp add: BBLOCK_def unat_div unat_plus_if')
qed

lemma bitmap_BBLOCK:
  assumes "sb_ok sb" "unat b < unat (sb_size sb)"
  shows "bitmap_block sb (BBLOCK b sb)"
  using unat_BBLOCK [OF assms] assms(2) by (simp add: bitmap_block_def div_le_mono)

lemma bitmap_not_data: "bitmap_block sb b \<Longrightarrow> \<not> data_block sb b"
  by (simp add: bitmap_block_def data_block_def)

lemma data_not_BBLOCK: "sb_ok sb \<Longrightarrow> unat b < unat (sb_size sb) \<Longrightarrow> data_block sb c \<Longrightarrow> c \<noteq> BBLOCK b sb"
  using bitmap_BBLOCK bitmap_not_data by blast

lemma data_block_less: "data_block sb b \<Longrightarrow> unat b < unat (sb_size sb)"
  by (simp add: data_block_def)

lemma data_block_nonzero: "data_block sb b \<Longrightarrow> b \<noteq> 0"
  by (auto simp: data_block_def)

lemma same_bit:
  assumes "sb_ok sb" "unat b < unat (sb_size sb)" "unat c < unat (sb_size sb)"
    "BBLOCK b sb = BBLOCK c sb" "unat b mod BPB = unat c mod BPB"
  shows "b = c"
proof -
  have "unat b div BPB = unat c div BPB"
    using unat_BBLOCK [OF assms(1,2)] unat_BBLOCK [OF assms(1,3)] assms(4) by simp
  then have "unat b = unat c" using assms(5) by (metis div_mult_mod_eq)
  then show ?thesis by (simp add: unsigned_word_eqI)
qed

text \<open>Marking a block in the bitmap.\<close>

lemma allocated_set:
  assumes "sb_ok sb" "unat b < unat (sb_size sb)" "unat c < unat (sb_size sb)"
    and len: "length (v (BBLOCK b sb)) = BSIZE"
  shows "allocated sb (v(BBLOCK b sb := bm_set (unat b mod BPB) (v (BBLOCK b sb)))) c \<longleftrightarrow> allocated sb v c \<or> c = b"
proof (cases "BBLOCK c sb = BBLOCK b sb")
  case True
  have "unat b mod BPB div 8 < length (v (BBLOCK b sb))" using len by (simp add: div_less_iff_less_mult)
  then show ?thesis
    using True same_bit [OF assms(1,3,2)] by (auto simp: allocated_def bm_free_set)
next
  case False
  then show ?thesis by (auto simp: allocated_def)
qed

text \<open>Data blocks do not matter for what is allocated.\<close>

lemma allocated_data:
  assumes "sb_ok sb" "data_block sb b" "unat c < unat (sb_size sb)"
  shows "allocated sb (v(b := x)) c = allocated sb v c"
  using data_not_BBLOCK [OF assms(1,3,2)] by (simp add: allocated_def)

section \<open>The blocks of a file\<close>

text \<open>
  A file has \<open>MAXFILE\<close> slots for blocks of data and one for the indirect block; an empty slot
  is 0.
\<close>

definition slot :: "(u32 \<Rightarrow> block) \<Rightarrow> u32 list \<Rightarrow> nat \<Rightarrow> u32" where
  "slot v A k = (if k < NDIRECT then A ! k
     else if k < MAXFILE then if A ! NDIRECT = 0 then 0 else get_addr (k - NDIRECT) (v (A ! NDIRECT))
     else A ! NDIRECT)"

definition slots :: "(u32 \<Rightarrow> block) \<Rightarrow> u32 list \<Rightarrow> u32 set" where
  "slots v A = {slot v A k | k. k \<le> MAXFILE \<and> slot v A k \<noteq> 0}"

definition file_ok :: "superblock \<Rightarrow> (u32 \<Rightarrow> block) \<Rightarrow> u32 list \<Rightarrow> bool" where
  "file_ok sb v A \<longleftrightarrow> length A = NDIRECT + 1
     \<and> (\<forall>k \<le> MAXFILE. slot v A k \<noteq> 0 \<longrightarrow> data_block sb (slot v A k) \<and> allocated sb v (slot v A k))
     \<and> (\<forall>j \<le> MAXFILE. \<forall>k \<le> MAXFILE. slot v A j = slot v A k \<longrightarrow> slot v A j \<noteq> 0 \<longrightarrow> j = k)"

text \<open>The bytes of a file; where it has no block it reads as zero.\<close>

definition file_byte :: "(u32 \<Rightarrow> block) \<Rightarrow> u32 list \<Rightarrow> nat \<Rightarrow> byte" where
  "file_byte v A x = (if slot v A (x div BSIZE) = 0 then 0 else v (slot v A (x div BSIZE)) ! (x mod BSIZE))"

lemma file_okD:
  assumes "file_ok sb v A"
  shows "length A = NDIRECT + 1"
    "k \<le> MAXFILE \<Longrightarrow> slot v A k \<noteq> 0 \<Longrightarrow> data_block sb (slot v A k)"
    "k \<le> MAXFILE \<Longrightarrow> slot v A k \<noteq> 0 \<Longrightarrow> allocated sb v (slot v A k)"
    "j \<le> MAXFILE \<Longrightarrow> k \<le> MAXFILE \<Longrightarrow> slot v A j = slot v A k \<Longrightarrow> slot v A j \<noteq> 0 \<Longrightarrow> j = k"
  using assms by (auto simp: file_ok_def)

lemma slot_simps:
  "k < NDIRECT \<Longrightarrow> slot v A k = A ! k" "slot v A MAXFILE = A ! NDIRECT"
  "k < NINDIRECT \<Longrightarrow> A ! NDIRECT \<noteq> 0 \<Longrightarrow> slot v A (NDIRECT + k) = get_addr k (v (A ! NDIRECT))"
  "k < NINDIRECT \<Longrightarrow> A ! NDIRECT = 0 \<Longrightarrow> slot v A (NDIRECT + k) = 0"
  by (simp_all add: slot_def)

text \<open>Slots only depend on the indirect block.\<close>

lemma slot_cong: "(A ! NDIRECT \<noteq> 0 \<Longrightarrow> v (A ! NDIRECT) = w (A ! NDIRECT)) \<Longrightarrow> slot v A k = slot w A k"
  by (simp add: slot_def)

section \<open>How a file may change\<close>

text \<open>
  From the contents \<open>v\<close> and the file \<open>A\<close> to \<open>w\<close> and \<open>B\<close>: the file stays well-formed, only blocks
  that were free are added to it, what was allocated stays so, and all data blocks of other files
  and everything outside the bitmap and the data area keep their contents.
\<close>

definition evolves :: "superblock \<Rightarrow> (u32 \<Rightarrow> block) \<Rightarrow> u32 list \<Rightarrow> (u32 \<Rightarrow> block) \<Rightarrow> u32 list \<Rightarrow> bool" where
  "evolves sb v A w B \<longleftrightarrow> file_ok sb w B \<and> meta_allocated sb w
     \<and> (\<forall>c \<in> slots w B. c \<in> slots v A \<or> \<not> allocated sb v c)
     \<and> (\<forall>c. unat c < unat (sb_size sb) \<longrightarrow> allocated sb v c \<longrightarrow> allocated sb w c)
     \<and> (\<forall>c. data_block sb c \<longrightarrow> allocated sb v c \<longrightarrow> c \<notin> slots v A \<longrightarrow> w c = v c)
     \<and> (\<forall>c. \<not> data_block sb c \<longrightarrow> \<not> bitmap_block sb c \<longrightarrow> w c = v c)"

lemma slots_data: "file_ok sb v A \<Longrightarrow> c \<in> slots v A \<Longrightarrow> data_block sb c \<and> allocated sb v c"
  by (auto simp: slots_def file_ok_def)

lemma evolves_refl: "file_ok sb v A \<Longrightarrow> meta_allocated sb v \<Longrightarrow> evolves sb v A v A"
  by (simp add: evolves_def)

lemma evolves_trans:
  assumes 1: "evolves sb v A w B" and 2: "evolves sb w B x C" and ok: "file_ok sb v A"
  shows "evolves sb v A x C"
proof -
  have d: "data_block sb c" if "c \<in> slots x C" for c using 2 that slots_data by (auto simp: evolves_def)
  have n: "c \<in> slots v A \<or> \<not> allocated sb v c" if "c \<in> slots x C" for c
    using 1 2 that data_block_less [OF d [OF that]] unfolding evolves_def by blast
  have k: "x c = v c" if "data_block sb c" "allocated sb v c" "c \<notin> slots v A" for c
  proof -
    have "w c = v c" "allocated sb w c" "c \<notin> slots w B" using 1 that data_block_less by (auto simp: evolves_def)
    then show ?thesis using 2 that(1) by (simp add: evolves_def)
  qed
  show ?thesis using 1 2 n k by (simp add: evolves_def)
qed

section \<open>Allocating a block and hooking it into a file\<close>

definition alloc_block :: "superblock \<Rightarrow> (u32 \<Rightarrow> block) \<Rightarrow> u32 \<Rightarrow> u32 \<Rightarrow> block" where
  "alloc_block sb v b = v(BBLOCK b sb := bm_set (unat b mod BPB) (v (BBLOCK b sb)), b := zero_block)"

lemma alloc_block_allocated:
  assumes "sb_ok sb" "data_block sb b" "length (v (BBLOCK b sb)) = BSIZE" "unat c < unat (sb_size sb)"
  shows "allocated sb (alloc_block sb v b) c \<longleftrightarrow> allocated sb v c \<or> c = b"
  using allocated_set [where v = v, OF assms(1) data_block_less [OF assms(2)] assms(4,3)] allocated_data [OF assms(1,2,4)]
  by (simp add: alloc_block_def)

lemma alloc_block_other:
  assumes "sb_ok sb" "data_block sb b"
  shows "data_block sb c \<Longrightarrow> c \<noteq> b \<Longrightarrow> alloc_block sb v b c = v c"
    "\<not> data_block sb c \<Longrightarrow> \<not> bitmap_block sb c \<Longrightarrow> alloc_block sb v b c = v c"
  using data_not_BBLOCK [OF assms(1) data_block_less [OF assms(2)]]
    bitmap_BBLOCK [OF assms(1) data_block_less [OF assms(2)]] assms(2)
  by (auto simp: alloc_block_def)

text \<open>
  A block \<open>b\<close> that was free and is now allocated and zero has become slot \<open>k\<close> of the file, which
  was empty; apart from that only the indirect block may have changed. The bytes of the file are
  still the same.
\<close>

lemma hook:
  assumes ok: "file_ok sb v A" and meta: "meta_allocated sb v"
    and b: "data_block sb b" "\<not> allocated sb v b"
    and B: "length B = NDIRECT + 1" and k: "k \<le> MAXFILE" "slot v A k = 0"
    and slot: "\<And>j. j \<le> MAXFILE \<Longrightarrow> slot w B j = (if j = k then b else slot v A j)"
    and al: "\<And>c. unat c < unat (sb_size sb) \<Longrightarrow> allocated sb w c \<longleftrightarrow> allocated sb v c \<or> c = b"
    and data: "\<And>c. data_block sb c \<Longrightarrow> c \<noteq> b \<Longrightarrow> c \<noteq> A ! NDIRECT \<Longrightarrow> w c = v c"
    and rest: "\<And>c. \<not> data_block sb c \<Longrightarrow> \<not> bitmap_block sb c \<Longrightarrow> w c = v c"
    and zero: "w b = zero_block"
  shows "evolves sb v A w B" "x < MAXFILE * BSIZE \<Longrightarrow> file_byte w B x = file_byte v A x"
proof -
  note D = file_okD [OF ok]
  have nb: "slot v A j \<noteq> b" if "j \<le> MAXFILE" for j
    using D(3) [OF that] b(2) data_block_nonzero [OF b(1)] by metis
  have bl: "unat b < unat (sb_size sb)" by (rule data_block_less [OF b(1)])
  have "file_ok sb w B"
  proof -
    have "data_block sb (slot w B j) \<and> allocated sb w (slot w B j)" if "j \<le> MAXFILE" "slot w B j \<noteq> 0" for j
      using that slot [OF that(1)] D(2,3) [OF that(1)] b(1) al [OF data_block_less] al [OF bl] by (auto split: if_splits)
    moreover have "i = j" if "i \<le> MAXFILE" "j \<le> MAXFILE" "slot w B i = slot w B j" "slot w B i \<noteq> 0" for i j
      using that slot [OF that(1)] slot [OF that(2)] nb D(4) [OF that(1,2)] by (auto split: if_splits)
    ultimately show ?thesis using B by (simp add: file_ok_def)
  qed
  moreover have "meta_allocated sb w" using meta al by (simp add: meta_allocated_def)
  moreover have "c \<in> slots v A \<or> \<not> allocated sb v c" if "c \<in> slots w B" for c
    using that slot b(2) by (auto simp: slots_def split: if_splits)
  moreover have "w c = v c" if "data_block sb c" "allocated sb v c" "c \<notin> slots v A" for c
  proof (rule data [OF that(1)])
    show "c \<noteq> b" using that(2) b(2) by auto
    show "c \<noteq> A ! NDIRECT"
      using that(3) data_block_nonzero [OF that(1)] slot_simps(2) [of v A] by (auto simp: slots_def intro!: exI [of _ MAXFILE])
  qed
  ultimately show "evolves sb v A w B" using al rest by (simp add: evolves_def)
  show "file_byte w B x = file_byte v A x" if x: "x < MAXFILE * BSIZE"
  proof -
    have j: "x div BSIZE < MAXFILE" using x by (simp add: div_less_iff_less_mult)
    have "w (slot v A (x div BSIZE)) = v (slot v A (x div BSIZE))" if "slot v A (x div BSIZE) \<noteq> 0"
    proof (rule data)
      show "data_block sb (slot v A (x div BSIZE))" using D(2) [of "x div BSIZE"] j that by simp
      show "slot v A (x div BSIZE) \<noteq> b" using nb j by simp
      show "slot v A (x div BSIZE) \<noteq> A ! NDIRECT"
        using D(4) [of "x div BSIZE" MAXFILE] j that slot_simps(2) [of v A] by auto
    qed
    then show ?thesis
      using slot [of "x div BSIZE"] j k zero data_block_nonzero [OF b(1)] by (auto simp: file_byte_def)
  qed
qed

lemma get_addr_zero: "k < NINDIRECT \<Longrightarrow> get_addr k zero_block = 0"
  by (simp add: get_addr_def get32_def)

text \<open>The three ways in which \<^verbatim>\<open>bmap\<close> hooks a new block.\<close>

lemma hook_alloc:
  assumes sb: "sb_ok sb" and ok: "file_ok sb v A" "meta_allocated sb v" and b: "data_block sb b" "\<not> allocated sb v b"
    and len: "length (v (BBLOCK b sb)) = BSIZE" and k: "k \<le> MAXFILE" "slot v A k = 0" and B: "length B = NDIRECT + 1"
    and slot: "\<And>j. j \<le> MAXFILE \<Longrightarrow> slot (alloc_block sb v b) B j = (if j = k then b else slot v A j)"
  shows "evolves sb v A (alloc_block sb v b) B" "x < MAXFILE * BSIZE \<Longrightarrow> file_byte (alloc_block sb v b) B x = file_byte v A x"
proof -
  let ?w = "alloc_block sb v b"
  have z: "?w b = zero_block" by (simp add: alloc_block_def)
  note al = alloc_block_allocated [where v = v, OF sb b(1) len] and o = alloc_block_other [OF sb b(1), of _ v]
  show "evolves sb v A ?w B" by (rule hook(1) [OF ok b B k slot al o(1,2) z])
  show "file_byte ?w B x = file_byte v A x" if "x < MAXFILE * BSIZE"
    by (rule hook(2) [OF ok b B k slot al o(1,2) z that])
qed

lemma alloc_keeps_indirect:
  assumes "sb_ok sb" "file_ok sb v A" "data_block sb b" "\<not> allocated sb v b" "A ! NDIRECT \<noteq> 0"
  shows "alloc_block sb v b (A ! NDIRECT) = v (A ! NDIRECT)" "A ! NDIRECT \<noteq> b" "data_block sb (A ! NDIRECT)"
proof -
  show d: "data_block sb (A ! NDIRECT)" "A ! NDIRECT \<noteq> b"
    using file_okD(2,3) [OF assms(2), of MAXFILE] assms(4,5) slot_simps(2) [of v A] by auto
  then show "alloc_block sb v b (A ! NDIRECT) = v (A ! NDIRECT)" by (rule alloc_block_other(1) [OF assms(1,3)])
qed

lemma hook_direct:
  assumes "sb_ok sb" "file_ok sb v A" "meta_allocated sb v" "data_block sb b" "\<not> allocated sb v b"
    "length (v (BBLOCK b sb)) = BSIZE" "k < NDIRECT" "A ! k = 0"
  shows "evolves sb v A (alloc_block sb v b) (A[k := b])"
    "x < MAXFILE * BSIZE \<Longrightarrow> file_byte (alloc_block sb v b) (A[k := b]) x = file_byte v A x"
    "slot (alloc_block sb v b) (A[k := b]) k = b" "slot (alloc_block sb v b) (A[k := b]) j = (if j = k then b else slot v A j)"
proof -
  note D = file_okD [OF assms(2)]
  have slot: "slot (alloc_block sb v b) (A[k := b]) j = (if j = k then b else slot v A j)" for j
    using alloc_keeps_indirect(1) [OF assms(1,2,4,5)] D(1) assms(7) by (auto simp: slot_def nth_list_update)
  have k: "k \<le> MAXFILE" "slot v A k = 0" "length (A[k := b]) = NDIRECT + 1" using assms(7,8) D(1) by (simp_all add: slot_def)
  show "evolves sb v A (alloc_block sb v b) (A[k := b])" by (rule hook_alloc(1) [OF assms(1-6) k slot])
  show "file_byte (alloc_block sb v b) (A[k := b]) x = file_byte v A x" if "x < MAXFILE * BSIZE"
    by (rule hook_alloc(2) [OF assms(1-6) k slot that])
  show "slot (alloc_block sb v b) (A[k := b]) k = b" "slot (alloc_block sb v b) (A[k := b]) j = (if j = k then b else slot v A j)"
    by (simp_all add: slot)
qed

lemma hook_indirect_block:
  assumes "sb_ok sb" "file_ok sb v A" "meta_allocated sb v" "data_block sb b" "\<not> allocated sb v b"
    "length (v (BBLOCK b sb)) = BSIZE" "A ! NDIRECT = 0"
  shows "evolves sb v A (alloc_block sb v b) (A[NDIRECT := b])"
    "x < MAXFILE * BSIZE \<Longrightarrow> file_byte (alloc_block sb v b) (A[NDIRECT := b]) x = file_byte v A x"
    "A[NDIRECT := b] ! NDIRECT = b"
    "j \<le> MAXFILE \<Longrightarrow> slot (alloc_block sb v b) (A[NDIRECT := b]) j = (if j = MAXFILE then b else slot v A j)"
proof -
  note D = file_okD [OF assms(2)]
  have z: "get_addr j (alloc_block sb v b b) = 0" if "j < NINDIRECT" for j
    using get_addr_zero [OF that] by (simp add: alloc_block_def)
  have slot: "slot (alloc_block sb v b) (A[NDIRECT := b]) j = (if j = MAXFILE then b else slot v A j)" if "j \<le> MAXFILE" for j
    using z D(1) assms(7) that by (auto simp: slot_def nth_list_update)
  have k: "(MAXFILE :: nat) \<le> MAXFILE" "slot v A MAXFILE = 0" "length (A[NDIRECT := b]) = NDIRECT + 1"
    using assms(7) D(1) by (simp_all add: slot_def)
  show "evolves sb v A (alloc_block sb v b) (A[NDIRECT := b])" by (rule hook_alloc(1) [OF assms(1-6) k slot])
  show "file_byte (alloc_block sb v b) (A[NDIRECT := b]) x = file_byte v A x" if "x < MAXFILE * BSIZE"
    by (rule hook_alloc(2) [OF assms(1-6) k slot that])
  show "A[NDIRECT := b] ! NDIRECT = b" using D(1) by simp
  show "slot (alloc_block sb v b) (A[NDIRECT := b]) j = (if j = MAXFILE then b else slot v A j)" if "j \<le> MAXFILE" by (rule slot [OF that])
qed

lemma hook_indirect:
  assumes sb: "sb_ok sb" and ok: "file_ok sb v A" "meta_allocated sb v" and b: "data_block sb b" "\<not> allocated sb v b"
    and len: "length (v (BBLOCK b sb)) = BSIZE" "length (v (A ! NDIRECT)) = BSIZE"
    and k: "k < NINDIRECT" "A ! NDIRECT \<noteq> 0" "get_addr k (v (A ! NDIRECT)) = 0"
  defines "w \<equiv> (alloc_block sb v b)(A ! NDIRECT := put_addr k b (v (A ! NDIRECT)))"
  shows "evolves sb v A w A" "x < MAXFILE * BSIZE \<Longrightarrow> file_byte w A x = file_byte v A x" "slot w A (NDIRECT + k) = b"
    "j \<le> MAXFILE \<Longrightarrow> slot w A j = (if j = NDIRECT + k then b else slot v A j)"
proof -
  note I = alloc_keeps_indirect [OF sb ok(1) b k(2)] and D = file_okD [OF ok(1)]
  have slot: "slot w A j = (if j = NDIRECT + k then b else slot v A j)" if "j \<le> MAXFILE" for j
    using k that get_put_addr_same [OF k(1) len(2)] get_put_addr_other [of "j - NDIRECT", OF _ k(1) _ len(2)]
    by (auto simp: slot_def w_def)
  have k': "NDIRECT + k \<le> MAXFILE" "slot v A (NDIRECT + k) = 0" using k by (simp_all add: slot_def)
  have al: "allocated sb w c \<longleftrightarrow> allocated sb v c \<or> c = b" if "unat c < unat (sb_size sb)" for c
    using alloc_block_allocated [where v = v, OF sb b(1) len(1) that] allocated_data [OF sb I(3) that] by (simp add: w_def)
  have data: "w c = v c" if "data_block sb c" "c \<noteq> b" "c \<noteq> A ! NDIRECT" for c
    using alloc_block_other(1) [OF sb b(1) that(1,2)] that(3) by (simp add: w_def)
  have rest: "w c = v c" if "\<not> data_block sb c" "\<not> bitmap_block sb c" for c
    using alloc_block_other(2) [OF sb b(1) that] that I(3) by (auto simp: w_def)
  have z: "w b = zero_block" using I(2) by (simp add: w_def alloc_block_def)
  show "evolves sb v A w A" by (rule hook(1) [OF ok b D(1) k' slot al data rest z])
  show "file_byte w A x = file_byte v A x" if "x < MAXFILE * BSIZE" by (rule hook(2) [OF ok b D(1) k' slot al data rest z that])
  show "slot w A (NDIRECT + k) = b" using slot [OF k'(1)] by simp
  show "slot w A j = (if j = NDIRECT + k then b else slot v A j)" if "j \<le> MAXFILE" by (rule slot [OF that])
qed

section \<open>Overwriting a block of data\<close>

lemma overwrite:
  assumes sb: "sb_ok sb" and ok: "file_ok sb v A" "meta_allocated sb v" and k: "k < MAXFILE" "slot v A k \<noteq> 0"
    and len: "length y = BSIZE"
  defines "w \<equiv> v(slot v A k := y)"
  shows "evolves sb v A w A"
    "x < MAXFILE * BSIZE \<Longrightarrow> file_byte w A x = (if x div BSIZE = k then y ! (x mod BSIZE) else file_byte v A x)"
    "slot w A j = slot v A j"
proof -
  note D = file_okD [OF ok(1)]
  have d: "data_block sb (slot v A k)" using D(2) [of k] k by simp
  have "slot v A k \<noteq> A ! NDIRECT" using D(4) [of k MAXFILE] k slot_simps(2) [of v A] by auto
  then have slot: "slot w A j = slot v A j" for j by (intro slot_cong) (simp add: w_def)
  then show "slot w A j = slot v A j" .
  have al: "allocated sb w c = allocated sb v c" if "unat c < unat (sb_size sb)" for c
    unfolding w_def by (rule allocated_data [OF sb d that])
  have "file_ok sb w A" using ok(1) al data_block_less unfolding file_ok_def slot by blast
  moreover have "slot v A k \<in> slots v A" using k by (auto simp: slots_def)
  moreover have "slots w A = slots v A" by (simp add: slots_def slot)
  moreover have "meta_allocated sb w" using ok(2) al by (simp add: meta_allocated_def)
  ultimately show "evolves sb v A w A" using al d by (auto simp: evolves_def w_def)
  show "file_byte w A x = (if x div BSIZE = k then y ! (x mod BSIZE) else file_byte v A x)" if "x < MAXFILE * BSIZE"
  proof -
    have j: "x div BSIZE < MAXFILE" using that by (simp add: div_less_iff_less_mult)
    show ?thesis
    proof (cases "x div BSIZE = k")
      case True
      then show ?thesis using k(2) by (simp add: file_byte_def slot) (simp add: w_def)
    next
      case False
      then have "slot v A (x div BSIZE) \<noteq> slot v A k" using D(4) [of k "x div BSIZE"] k j by auto
      then show ?thesis using False by (simp add: file_byte_def slot) (simp add: w_def)
    qed
  qed
qed

section \<open>Files in pieces of blocks\<close>

lemma chunk_div:
  assumes "j < BSIZE - off mod BSIZE"
  shows "(off + j) div BSIZE = off div BSIZE" "(off + j) mod BSIZE = off mod BSIZE + j"
proof -
  let ?r = "off mod BSIZE + j"
  have r: "?r < BSIZE" using assms by simp
  have "off + j = ?r + off div BSIZE * BSIZE" by (simp add: div_mult_mod_eq)
  moreover have "(?r + off div BSIZE * BSIZE) div BSIZE = off div BSIZE" "(?r + off div BSIZE * BSIZE) mod BSIZE = ?r"
    using r by (simp_all only: div_mult_self1 mod_mult_self1) simp_all
  ultimately show "(off + j) div BSIZE = off div BSIZE" "(off + j) mod BSIZE = off mod BSIZE + j" by (simp_all only:)
qed

lemma block_end:
  assumes "off div BSIZE < MAXFILE"
  shows "off + min n (BSIZE - off mod BSIZE) \<le> MAXFILE * BSIZE"
proof -
  have "off div BSIZE * BSIZE + off mod BSIZE = off" by (rule div_mult_mod_eq)
  moreover have "off mod BSIZE < BSIZE" by simp
  ultimately show ?thesis using assms by linarith
qed

lemma file_bytes_chunk:
  assumes "slot v A (off div BSIZE) \<noteq> 0" "length (v (slot v A (off div BSIZE))) = BSIZE" "m \<le> BSIZE - off mod BSIZE"
  shows "map (file_byte v A) [off..<off + m] = cut (off mod BSIZE) m (v (slot v A (off div BSIZE)))"
proof (rule nth_equalityI)
  have l: "off mod BSIZE + m \<le> BSIZE" using assms(3) by (simp add: le_diff_conv2 add.commute)
  then show "length (map (file_byte v A) [off..<off + m]) = length (cut (off mod BSIZE) m (v (slot v A (off div BSIZE))))"
    using assms(2) by simp
  fix j
  assume "j < length (map (file_byte v A) [off..<off + m])"
  then have j: "j < m" by simp
  then show "map (file_byte v A) [off..<off + m] ! j = cut (off mod BSIZE) m (v (slot v A (off div BSIZE))) ! j"
    using chunk_div [of j off] assms l by (simp add: file_byte_def nth_cut)
qed

text \<open>Writing a piece of a block.\<close>

lemma file_byte_blit:
  assumes "slot v A (off div BSIZE) \<noteq> 0" "length (v (slot v A (off div BSIZE))) = BSIZE"
    "length bs \<le> BSIZE - off mod BSIZE" "x div BSIZE = off div BSIZE"
  shows "blit (off mod BSIZE) bs (v (slot v A (off div BSIZE))) ! (x mod BSIZE) =
    (if off \<le> x \<and> x < off + length bs then bs ! (x - off) else file_byte v A x)"
proof -
  have l: "off mod BSIZE + length bs \<le> BSIZE" using assms(3) by (simp add: le_diff_conv2 add.commute)
  have x: "x = off div BSIZE * BSIZE + x mod BSIZE" using assms(4) by (metis div_mult_mod_eq)
  have o: "off = off div BSIZE * BSIZE + off mod BSIZE" by (metis div_mult_mod_eq)
  have i: "off \<le> x \<longleftrightarrow> off mod BSIZE \<le> x mod BSIZE" "x < off + length bs \<longleftrightarrow> x mod BSIZE < off mod BSIZE + length bs"
    "x - off = x mod BSIZE - off mod BSIZE"
    using x o by linarith+
  show ?thesis
    using assms(1,2,4) l nth_blit [of "off mod BSIZE" bs "v (slot v A (off div BSIZE))" "x mod BSIZE"] i
    by (simp add: file_byte_def)
qed

section \<open>Blocks of inodes\<close>

lemma unat_IBLOCK:
  assumes "sb_ok sb" "unat inum < unat (sb_ninodes sb)"
  shows "unat (IBLOCK inum sb) = unat inum div IPB + unat (sb_inodestart sb)"
    "unat (IBLOCK inum sb) < unat (sb_bmapstart sb)"
proof -
  have "unat inum div IPB \<le> unat (sb_ninodes sb) div IPB" using assms(2) by (intro div_le_mono) simp
  then have l: "unat inum div IPB + unat (sb_inodestart sb) < unat (sb_bmapstart sb)" using assms(1) by (simp add: sb_ok_def)
  then have "unat inum div IPB + unat (sb_inodestart sb) < 2 ^ 32" using unat_less_u32 [of "sb_bmapstart sb"] by simp
  then show "unat (IBLOCK inum sb) = unat inum div IPB + unat (sb_inodestart sb)" by (simp add: IBLOCK_def unat_div unat_plus_if')
  then show "unat (IBLOCK inum sb) < unat (sb_bmapstart sb)" using l by simp
qed

lemma IBLOCK_not_data:
  assumes "sb_ok sb" "unat inum < unat (sb_ninodes sb)"
  shows "\<not> data_block sb (IBLOCK inum sb)" "\<not> bitmap_block sb (IBLOCK inum sb)"
  using unat_IBLOCK(2) [OF assms] by (simp_all add: data_block_def bitmap_block_def)

text \<open>A block outside the bitmap and the data area does not matter for any file.\<close>

lemma other_block:
  assumes sb: "sb_ok sb" and ok: "file_ok sb v A" and c: "\<not> data_block sb c" "\<not> bitmap_block sb c"
  shows "file_ok sb (v(c := y)) A" "slot (v(c := y)) A k = slot v A k"
    "unat b < unat (sb_size sb) \<Longrightarrow> allocated sb (v(c := y)) b = allocated sb v b"
    "x < MAXFILE * BSIZE \<Longrightarrow> file_byte (v(c := y)) A x = file_byte v A x"
proof -
  note D = file_okD [OF ok]
  have "c \<noteq> A ! NDIRECT" if "A ! NDIRECT \<noteq> 0" using D(2) [of MAXFILE] slot_simps(2) [of v A] that c(1) by auto
  then have slot: "slot (v(c := y)) A k = slot v A k" for k by (intro slot_cong) auto
  then show "slot (v(c := y)) A k = slot v A k" .
  show al: "allocated sb (v(c := y)) b = allocated sb v b" if "unat b < unat (sb_size sb)" for b
    using bitmap_BBLOCK [OF sb that] c(2) by (auto simp: allocated_def)
  show "file_ok sb (v(c := y)) A" using ok al data_block_less unfolding file_ok_def slot by blast
  show "file_byte (v(c := y)) A x = file_byte v A x" if "x < MAXFILE * BSIZE"
  proof -
    have "x div BSIZE < MAXFILE" using that by (simp add: div_less_iff_less_mult)
    then have "slot v A (x div BSIZE) \<noteq> 0 \<Longrightarrow> slot v A (x div BSIZE) \<noteq> c" using D(2) [of "x div BSIZE"] c(1) by auto
    then show ?thesis by (auto simp: file_byte_def slot)
  qed
qed

text \<open>A file whose blocks are not among the changed ones keeps its bytes.\<close>

lemma evolves_other:
  assumes E: "evolves sb v A w B" and ok: "file_ok sb v C" and disj: "slots v C \<inter> slots v A = {}"
  shows "file_ok sb w C" "x < MAXFILE * BSIZE \<Longrightarrow> file_byte w C x = file_byte v C x" "slot w C k = slot v C k"
proof -
  note D = file_okD [OF ok]
  have same: "w c = v c" if "c \<in> slots v C" for c
    using E slots_data [OF ok that] that disj by (auto simp: evolves_def)
  have "w (C ! NDIRECT) = v (C ! NDIRECT)" if "C ! NDIRECT \<noteq> 0"
    using that slot_simps(2) [of v C] by (intro same) (auto simp: slots_def intro!: exI [of _ MAXFILE])
  then have slot: "slot w C k = slot v C k" for k by (intro slot_cong) auto
  then show "slot w C k = slot v C k" .
  have al: "allocated sb w c" if "unat c < unat (sb_size sb)" "allocated sb v c" for c using E that by (simp add: evolves_def)
  show "file_ok sb w C" using ok al data_block_less unfolding file_ok_def slot by blast
  show "file_byte w C x = file_byte v C x" if "x < MAXFILE * BSIZE"
  proof -
    have "x div BSIZE < MAXFILE" using that by (simp add: div_less_iff_less_mult)
    then have "slot v C (x div BSIZE) \<noteq> 0 \<Longrightarrow> slot v C (x div BSIZE) \<in> slots v C" by (auto simp: slots_def)
    then show ?thesis using same by (auto simp: file_byte_def slot)
  qed
qed

end
