(* ===== verification/Xv6_ServerFd.thy ===== *)
theory Xv6_ServerFd
  imports Xv6_Server Xv6_FsSpec "HOL-Library.Multiset"
begin

text \<open>
  The table of remote file descriptors of the file server: what a request can do to it, the
  reference counts of the inodes behind the descriptors, and the replies.
\<close>

section \<open>What file operations leave alone\<close>

text \<open>The buffer cache operations do not touch what lies beyond the cache.\<close>

lemma bread_more: "bread dev b s = Some (i, t) \<Longrightarrow> bio.more t = bio.more s"
  by (auto simp: bread_def bget_def iderw_def acquiresleep_buf_def Let_def bind_eq_Some_conv split: option.splits if_splits)

lemma bwrite_more: "bwrite i s = Some t \<Longrightarrow> bio.more t = bio.more s"
  by (auto simp: bwrite_def iderw_def Let_def split: if_splits)

lemma brelse_more: "brelse i s = Some t \<Longrightarrow> bio.more t = bio.more s"
  by (auto simp: brelse_def Let_def split: if_splits)

lemma more_srv:
  assumes "bio.more t = bio.more (s :: 'a srvst_scheme)"
  shows "my_pid t = my_pid s" "fsserver_pid t = fsserver_pid s" "ubufs t = ubufs s" "ulist t = ulist s"
    "uinodes t = uinodes s" "usb t = usb s" "fd_table t = fd_table s" "fd_inodes t = fd_inodes s" "outbox t = outbox s"
  using assms by (cases s; cases t; simp)+

definition refs :: "'a srvst_scheme \<Rightarrow> int list" where
  "refs s = map ui_ref (uinodes s)"

definition ids :: "'a srvst_scheme \<Rightarrow> (u32 \<times> u32) list" where
  "ids s = map (\<lambda>ip. (ui_dev ip, ui_inum ip)) (uinodes s)"

definition same_fds :: "'a srvst_scheme \<Rightarrow> 'a srvst_scheme \<Rightarrow> bool" where
  "same_fds s t \<longleftrightarrow> fd_table t = fd_table s \<and> fd_inodes t = fd_inodes s \<and> outbox t = outbox s"

definition keep :: "'a srvst_scheme \<Rightarrow> 'a srvst_scheme \<Rightarrow> bool" where
  "keep s t \<longleftrightarrow> same_fds s t \<and> refs t = refs s \<and> ids t = ids s"

lemma same_fds_refl [simp]: "same_fds s s"
  by (simp add: same_fds_def)

lemma same_fds_trans: "same_fds s t \<Longrightarrow> same_fds t u \<Longrightarrow> same_fds s u"
  by (simp add: same_fds_def)

lemma keep_refl [simp]: "keep s s"
  by (simp add: keep_def)

lemma keep_trans: "keep s t \<Longrightarrow> keep t u \<Longrightarrow> keep s u"
  by (auto simp: keep_def intro: same_fds_trans)

lemma keep_more:
  assumes "bio.more t = bio.more s"
  shows "keep s t"
  using more_srv [OF assms] by (simp add: keep_def same_fds_def refs_def ids_def)

lemma keep_upd_ubuf [simp]:
  "keep s (upd_ubuf i f t) = keep s t" "keep (upd_ubuf i f s) t = keep s t"
  by (simp_all add: keep_def same_fds_def refs_def ids_def upd_ubuf_def)

lemma keep_set_udata [simp]: "keep s (set_udata i d t) = keep s t" "keep (set_udata i d s) t = keep s t"
  by (simp_all add: set_udata_def)

lemma keep_ubrelse [simp]: "keep s (ubrelse i t) = keep s t" "keep (ubrelse i s) t = keep s t"
  by (simp_all add: ubrelse_def)

lemma keep_usb [simp]: "keep s (t\<lparr>usb := x\<rparr>) = keep s t"
  by (simp add: keep_def same_fds_def refs_def ids_def)

lemma map_update_same:
  assumes "g y = g (xs ! i)"
  shows "map g (xs[i := y]) = map g xs"
  using assms by (metis list_update_id map_update)

lemma keep_upd_uinode_iff:
  assumes "\<And>p. ui_ref (f p) = ui_ref p" "\<And>p. ui_dev (f p) = ui_dev p" "\<And>p. ui_inum (f p) = ui_inum p"
  shows "keep s0 (upd_uinode i f s) = keep s0 s"
proof -
  have "refs (upd_uinode i f s) = refs s" "ids (upd_uinode i f s) = ids s"
    unfolding refs_def ids_def upd_uinode_def by (simp_all add: map_update_same assms)
  then show ?thesis by (simp add: keep_def same_fds_def upd_uinode_def)
qed

text \<open>Each operation keeps, from any earlier state on, what had been kept before it.\<close>

lemma disk_read_more: "disk_read b s = Some (d, t) \<Longrightarrow> bio.more t = bio.more s"
  by (auto simp: disk_read_def bind_eq_Some_conv Let_def split: if_splits prod.splits dest!: bread_more brelse_more)

lemma disk_write_more: "disk_write b d s = Some t \<Longrightarrow> bio.more t = bio.more s"
  by (auto simp: disk_write_def set_data_def bind_eq_Some_conv Let_def split: if_splits prod.splits
      dest!: bread_more bwrite_more brelse_more)

lemma disk_read_keep: "keep s0 s \<Longrightarrow> post (disk_read b s) (\<lambda>(d, t). keep s0 t)"
  by (auto intro!: postI dest!: disk_read_more keep_more dest: keep_trans)

lemma disk_write_keep: "keep s0 s \<Longrightarrow> post (disk_write b d s) (keep s0)"
  by (auto intro!: postI dest!: disk_write_more keep_more dest: keep_trans)

lemma ubuf_get_keep: "keep s0 s \<Longrightarrow> ubuf_get dev b s = (r, t) \<Longrightarrow> keep s0 t"
  by (auto simp: ubuf_get_def split: option.splits)

lemma ubread_keep: "keep s0 s \<Longrightarrow> post (ubread dev b s) (\<lambda>(r, t). keep s0 t)"
  unfolding ubread_def
  by (intro post_rules) (auto dest: ubuf_get_keep intro!: post_bind [OF disk_read_keep])

lemma ubwrite_keep: "keep s0 s \<Longrightarrow> post (ubwrite i s) (keep s0)"
  by (simp add: ubwrite_def disk_write_keep)

lemma of_dinode_u_key [simp]:
  "ui_ref (of_dinode_u d p) = ui_ref p" "ui_dev (of_dinode_u d p) = ui_dev p" "ui_inum (of_dinode_u d p) = ui_inum p"
  by (simp_all add: of_dinode_u_def)

lemma keep_uinode [simp]:
  "keep s0 (upd_uinode i (\<lambda>ip. ip\<lparr>ui_addrs := f1 ip\<rparr>) s) = keep s0 s"
  "keep s0 (upd_uinode i (\<lambda>ip. ip\<lparr>ui_size := f2 ip\<rparr>) s) = keep s0 s"
  "keep s0 (upd_uinode i (\<lambda>ip. ip\<lparr>ui_nlink := f3 ip\<rparr>) s) = keep s0 s"
  "keep s0 (upd_uinode i (\<lambda>ip. ip\<lparr>ui_valid := f4 ip\<rparr>) s) = keep s0 s"
  "keep s0 (upd_uinode i (of_dinode_u d) s) = keep s0 s"
  by (simp_all add: keep_upd_uinode_iff)

lemma uilock_keep: "keep s0 s \<Longrightarrow> post (uilock i s) (keep s0)"
  unfolding uilock_def
  by (intro post_rules post_bind [OF ubread_keep] conjI; (clarsimp split: option.split)?) (auto simp: Let_def)

lemma uiupdate_keep: "keep s0 s \<Longrightarrow> post (uiupdate i s) (keep s0)"
  unfolding uiupdate_def
  by (intro post_rules post_bind [OF ubread_keep]) (auto simp: Let_def intro!: post_bind [OF ubwrite_keep] post_rules)

lemma srv_readsb_keep: "keep s0 s \<Longrightarrow> post (srv_readsb s) (keep s0)"
  unfolding srv_readsb_def
  by (intro post_rules post_bind [OF ubread_keep]) (auto intro!: post_rules)

lemma srv_balloc_scan_keep: "keep s0 s \<Longrightarrow> post (srv_balloc_scan bs s) (\<lambda>(r, t). keep s0 t)"
proof (induction bs arbitrary: s)
  case (Cons b bs)
  then show ?case
    by (auto simp: Let_def intro!: post_rules post_bind [OF ubread_keep] post_bind [OF ubwrite_keep])
qed simp

lemma srv_balloc_keep: "keep s0 s \<Longrightarrow> post (srv_balloc s) (\<lambda>(r, t). keep s0 t)"
  by (simp add: srv_balloc_def srv_balloc_scan_keep)

lemma srv_bmap_keep: "keep s0 s \<Longrightarrow> post (srv_bmap i bn s) (\<lambda>(r, t). keep s0 t)"
  unfolding srv_bmap_def
  by (auto simp: Let_def intro!: post_rules post_bind [OF srv_balloc_keep] post_bind [OF ubread_keep] post_bind [OF ubwrite_keep])

lemma uwritei_loop_keep: "keep s0 s \<Longrightarrow> post (uwritei_loop i src off n s) (\<lambda>(r, t). keep s0 t)"
proof (induction n arbitrary: src off s rule: less_induct)
  case (less n)
  show ?case
    unfolding uwritei_loop.simps [of i src off n s] using less
    by (auto simp: Let_def intro!: post_rules post_bind [OF srv_bmap_keep] post_bind [OF ubread_keep] post_bind [OF ubwrite_keep])
qed

lemma uwritei_keep: "keep s0 s \<Longrightarrow> post (uwritei i src off n s) (\<lambda>(r, t). keep s0 t)"
  unfolding uwritei_def
  by (auto intro!: post_rules post_bind [OF uwritei_loop_keep] post_bind [OF uiupdate_keep])

lemma ureadi_loop_keep: "keep s0 s \<Longrightarrow> post (ureadi_loop i room off n s) (\<lambda>(r, t). keep s0 t)"
proof (induction n arbitrary: room off s rule: less_induct)
  case (less n)
  have loop: "post (ureadi_loop i room' off' m t) (\<lambda>(r, t). keep s0 t)" if "keep s0 t" "m < n" for room' off' m t
    using less that by simp
  show ?case
    unfolding ureadi_loop.simps [of i room off n s] using less.prems
    by (auto simp: Let_def intro!: post_rules post_bind [OF srv_bmap_keep] post_bind [OF ubread_keep] post_bind [OF loop])
qed

lemma ureadi_keep: "keep s0 s \<Longrightarrow> post (ureadi i room off n s) (\<lambda>(r, t). keep s0 t)"
  unfolding ureadi_def Let_def
  by (auto intro!: post_rules post_bind [OF ureadi_loop_keep])

section \<open>References to inodes\<close>

text \<open>No two referenced entries of the inode cache stand for the same inode.\<close>

definition uniq :: "'a srvst_scheme \<Rightarrow> bool" where
  "uniq s \<longleftrightarrow> (\<forall>i < length (uinodes s). \<forall>j < length (uinodes s).
     0 < ui_ref (uinode_at s i) \<longrightarrow> 0 < ui_ref (uinode_at s j) \<longrightarrow> ui_dev (uinode_at s i) = ui_dev (uinode_at s j) \<longrightarrow>
     ui_inum (uinode_at s i) = ui_inum (uinode_at s j) \<longrightarrow> i = j)"

lemma uniqI:
  assumes "\<And>i j. i < length (uinodes s) \<Longrightarrow> j < length (uinodes s) \<Longrightarrow> 0 < ui_ref (uinode_at s i) \<Longrightarrow>
    0 < ui_ref (uinode_at s j) \<Longrightarrow> ui_dev (uinode_at s i) = ui_dev (uinode_at s j) \<Longrightarrow>
    ui_inum (uinode_at s i) = ui_inum (uinode_at s j) \<Longrightarrow> i = j"
  shows "uniq s"
  using assms by (simp add: uniq_def)

lemma uniqD:
  assumes "uniq s" "i < length (uinodes s)" "j < length (uinodes s)" "0 < ui_ref (uinode_at s i)"
    "0 < ui_ref (uinode_at s j)" "ui_dev (uinode_at s i) = ui_dev (uinode_at s j)"
    "ui_inum (uinode_at s i) = ui_inum (uinode_at s j)"
  shows "i = j"
  using assms by (simp add: uniq_def)

text \<open>
  Since \<open>s0\<close> the references of the multiset \<open>M\<close> have been taken, and nothing else has happened
  to the tables. Entries of the inode cache that are referenced stand for the same inode.
\<close>

definition holds_refs :: "'a srvst_scheme \<Rightarrow> nat multiset \<Rightarrow> 'a srvst_scheme \<Rightarrow> bool" where
  "holds_refs s0 M s \<longleftrightarrow> same_fds s0 s \<and> length (uinodes s) = length (uinodes s0)
     \<and> (\<forall>i < length (uinodes s0). ui_ref (uinode_at s i) = ui_ref (uinode_at s0 i) + int (count M i))
     \<and> (\<forall>i < length (uinodes s0). 0 < ui_ref (uinode_at s0 i) \<longrightarrow>
          ui_dev (uinode_at s i) = ui_dev (uinode_at s0 i) \<and> ui_inum (uinode_at s i) = ui_inum (uinode_at s0 i))
     \<and> (\<forall>i \<in># M. i < length (uinodes s0))
     \<and> (\<forall>i < length (uinodes s0). 0 \<le> ui_ref (uinode_at s0 i)) \<and> uniq s"

lemma holding_refl: "uniq s \<Longrightarrow> (\<And>i. i < length (uinodes s) \<Longrightarrow> 0 \<le> ui_ref (uinode_at s i)) \<Longrightarrow> holds_refs s {#} s"
  by (simp add: holds_refs_def)

lemma holdingD:
  assumes "holds_refs s0 M s"
  shows "uniq s" "length (uinodes s) = length (uinodes s0)" "i \<in># M \<Longrightarrow> i < length (uinodes s0)"
    "i < length (uinodes s0) \<Longrightarrow> ui_ref (uinode_at s i) = ui_ref (uinode_at s0 i) + int (count M i)"
  using assms by (simp_all add: holds_refs_def)

lemma uniq_tables [simp]:
  "uniq (s\<lparr>fd_table := x\<rparr>) = uniq s" "uniq (s\<lparr>fd_inodes := y\<rparr>) = uniq s" "uniq (s\<lparr>outbox := z\<rparr>) = uniq s"
  by (simp_all add: uniq_def)

lemma keep_nth:
  assumes "keep s t"
  shows "length (uinodes t) = length (uinodes s)" "i < length (uinodes s) \<Longrightarrow> ui_ref (uinode_at t i) = ui_ref (uinode_at s i)"
    "i < length (uinodes s) \<Longrightarrow> ui_dev (uinode_at t i) = ui_dev (uinode_at s i) \<and> ui_inum (uinode_at t i) = ui_inum (uinode_at s i)"
proof -
  have r: "map ui_ref (uinodes t) = map ui_ref (uinodes s)"
    and d: "map (\<lambda>ip. (ui_dev ip, ui_inum ip)) (uinodes t) = map (\<lambda>ip. (ui_dev ip, ui_inum ip)) (uinodes s)"
    using assms by (simp_all add: keep_def refs_def ids_def)
  show l: "length (uinodes t) = length (uinodes s)" using r by (rule map_eq_imp_length_eq)
  show "ui_ref (uinode_at t i) = ui_ref (uinode_at s i)" if "i < length (uinodes s)"
    using r l that by (metis nth_map)
  show "ui_dev (uinode_at t i) = ui_dev (uinode_at s i) \<and> ui_inum (uinode_at t i) = ui_inum (uinode_at s i)"
    if "i < length (uinodes s)"
    using arg_cong [OF d, of "\<lambda>xs. xs ! i"] l that by simp
qed

lemma uniq_keep: "keep s t \<Longrightarrow> uniq s \<Longrightarrow> uniq t"
  using keep_nth [of s t] by (auto intro!: uniqI dest: uniqD)

lemma holding_keep: "holds_refs s0 M s \<Longrightarrow> keep s t \<Longrightarrow> holds_refs s0 M t"
  using keep_nth [of s t] uniq_keep [of s t] by (auto simp: holds_refs_def keep_def intro: same_fds_trans)

lemma holding_post1:
  assumes "post (f s) (keep s)" "holds_refs s0 M s"
  shows "post (f s) (holds_refs s0 M)"
  using assms(1) by (rule post_weaken) (rule holding_keep [OF assms(2)])

lemma holding_post2:
  assumes "post (f s) (\<lambda>(r, t). keep s t)" "holds_refs s0 M s"
  shows "post (f s) (\<lambda>(r, t). holds_refs s0 M t)"
  using assms(1) by (rule post_weaken) (auto intro: holding_keep [OF assms(2)])

lemmas uilock_holding = holding_post1 [where f = "uilock i" for i, OF uilock_keep [OF keep_refl]]
lemmas uiupdate_holding = holding_post1 [where f = "uiupdate i" for i, OF uiupdate_keep [OF keep_refl]]
lemmas ubwrite_holding = holding_post1 [where f = "ubwrite i" for i, OF ubwrite_keep [OF keep_refl]]
lemmas ubread_holding = holding_post2 [where f = "ubread dev b" for dev b, OF ubread_keep [OF keep_refl]]
lemmas ureadi_holding = holding_post2 [where f = "ureadi i room off n" for i room off n, OF ureadi_keep [OF keep_refl]]
lemmas uwritei_holding = holding_post2 [where f = "uwritei i src off n" for i src off n, OF uwritei_keep [OF keep_refl]]

lemma holding_simps [simp]:
  "holds_refs s0 M (ubrelse i s) = holds_refs s0 M s" "holds_refs s0 M (set_udata i d s) = holds_refs s0 M s"
  by (simp_all add: holds_refs_def uniq_def same_fds_def ubrelse_def set_udata_def upd_ubuf_def)

lemma keep_sym: "keep s t \<Longrightarrow> keep t s"
  by (simp add: keep_def same_fds_def)

lemma holding_nlink [simp]: "holds_refs s0 M (upd_uinode i (\<lambda>ip. ip\<lparr>ui_nlink := f ip\<rparr>) s) = holds_refs s0 M s"
  by (intro iffI; erule holding_keep) (auto intro: keep_sym)

lemma uiget_holding:
  assumes "holds_refs s0 M s" "uiget dev inum s = (r, t)"
  shows "holds_refs s0 (case r of None \<Rightarrow> M | Some i \<Rightarrow> add_mset i M) t"
proof (cases r)
  case None
  then show ?thesis using assms by (auto simp: uiget_def split: option.splits)
next
  case (Some i)
  have U: "uniq s" using assms(1) by (simp add: holds_refs_def)
  consider (hit) "first_idx (\<lambda>ip. ui_ref ip > 0 \<and> ui_dev ip = dev \<and> ui_inum ip = inum) (uinodes s) = Some i"
      "t = upd_uinode i (\<lambda>ip. ip\<lparr>ui_ref := ui_ref ip + 1\<rparr>) s"
    | (miss) "first_idx (\<lambda>ip. ui_ref ip > 0 \<and> ui_dev ip = dev \<and> ui_inum ip = inum) (uinodes s) = None"
      "first_idx (\<lambda>ip. ui_ref ip = 0) (uinodes s) = Some i"
      "t = upd_uinode i (\<lambda>ip. ip\<lparr>ui_dev := dev, ui_inum := inum, ui_ref := 1, ui_valid := False\<rparr>) s"
    using assms(2) Some by (auto simp: uiget_def split: option.splits)
  then show ?thesis
  proof cases
    case hit
    have i: "i < length (uinodes s)" "0 < ui_ref (uinode_at s i)" using first_idx_SomeD [OF hit(1)] by auto
    then have "uniq t" using hit(2) U
      by (intro uniqI) (auto simp: upd_uinode_def nth_list_update dest: uniqD split: if_splits)
    then show ?thesis using assms(1) Some i hit(2)
      by (auto simp: holds_refs_def same_fds_def upd_uinode_def nth_list_update)
  next
    case miss
    have i: "i < length (uinodes s)" "ui_ref (uinode_at s i) = 0" using first_idx_SomeD [OF miss(2)] by auto
    then have z: "ui_ref (uinode_at s0 i) = 0" "count M i = 0"
      using assms(1) by (auto simp: holds_refs_def)
    have "uniq t" using miss(3) i U miss(1) [unfolded first_idx_None_iff]
      by (intro uniqI) (auto simp: upd_uinode_def nth_list_update dest: uniqD split: if_splits)
    then show ?thesis using assms(1) Some i z miss(3)
      by (auto simp: holds_refs_def same_fds_def upd_uinode_def nth_list_update)
  qed
qed

lemma uiput_holding:
  assumes "holds_refs s0 (add_mset i M) s"
  shows "holds_refs s0 M (uiput i s)"
proof -
  have i: "i < length (uinodes s)" using assms by (simp add: holds_refs_def)
  have u: "uinode_at (uiput i s) j = (if j = i then (if ui_ref (uinode_at s i) = 1
       then (uinode_at s i)\<lparr>ui_ref := 0, ui_valid := False\<rparr> else (uinode_at s i)\<lparr>ui_ref := ui_ref (uinode_at s i) - 1\<rparr>)
      else uinode_at s j)" for j
    using i by (auto simp: uiput_def upd_uinode_def Let_def nth_list_update)
  have v: "same_fds s0 (uiput i s) = same_fds s0 s" "length (uinodes (uiput i s)) = length (uinodes s)"
    by (simp_all add: uiput_def upd_uinode_def Let_def same_fds_def)
  have "uniq s" using assms by (simp add: holds_refs_def)
  then have "uniq (uiput i s)" using i by (auto intro!: uniqI simp: u v dest: uniqD split: if_splits)
  then show ?thesis using assms unfolding holds_refs_def u v by (auto split: if_splits)
qed

text \<open>The reference that comes with a result.\<close>

definition with_ref :: "nat option \<Rightarrow> nat multiset \<Rightarrow> nat multiset" where
  "with_ref r M = (case r of None \<Rightarrow> M | Some i \<Rightarrow> add_mset i M)"

lemma with_ref_simps [simp]: "with_ref None M = M" "with_ref (Some i) M = add_mset i M"
  by (simp_all add: with_ref_def)

lemma uiget_with_ref: "holds_refs s0 M s \<Longrightarrow> uiget dev inum s = (r, t) \<Longrightarrow> holds_refs s0 (with_ref r M) t"
  by (simp add: uiget_holding with_ref_def)

lemma post_uiget:
  assumes "holds_refs s0 M s" "\<And>r t. holds_refs s0 (with_ref r M) t \<Longrightarrow> post (f r t) Q"
  shows "post (case uiget dev inum s of (r, t) \<Rightarrow> f r t) Q"
  using uiget_with_ref [OF assms(1)] assms(2) by (cases "uiget dev inum s") simp

lemma post_any: "(\<And>x. post (f x) Q) \<Longrightarrow> post (m \<bind> f) Q"
  by (rule post_bind [where P = "\<lambda>_. True"]) (auto simp: post_def)

lemma srv_dirlookup_scan_holding:
  "holds_refs s0 M s \<Longrightarrow> post (srv_dirlookup_scan offs dp name s) (\<lambda>(r, t). holds_refs s0 (with_ref (map_option fst r) M) t)"
proof (induction offs arbitrary: s)
  case (Cons off offs)
  then show ?case
    by (auto simp: Let_def intro!: post_if post_option post_uiget post_bind [OF ureadi_holding] post_any [where m = "unamecmp _ _"])
qed simp

lemma srv_dirlookup_holding:
  "holds_refs s0 M s \<Longrightarrow> post (srv_dirlookup dp name s) (\<lambda>(r, t). holds_refs s0 (with_ref (map_option fst r) M) t)"
  by (simp add: srv_dirlookup_def srv_dirlookup_scan_holding)

lemma srv_dirlink_slot_holding:
  "holds_refs s0 M s \<Longrightarrow> post (srv_dirlink_slot offs e dp s) (\<lambda>(r, t). holds_refs s0 M t)"
  by (induction offs arbitrary: s) (auto simp: Let_def panic_def intro!: post_rules post_bind [OF ureadi_holding])

lemma srv_dirlink_holding:
  assumes "holds_refs s0 M s"
  shows "post (srv_dirlink dp name inum s) (\<lambda>(r, t). holds_refs s0 M t)"
  unfolding srv_dirlink_def Let_def
  using assms
  by (auto simp: panic_def intro!: post_rules post_bind [OF srv_dirlookup_holding] post_bind [OF srv_dirlink_slot_holding]
      post_bind [OF uwritei_holding] post_any [where m = "srv_strncpy _ _ _"] uiput_holding)

lemma uiput_holding2: "holds_refs s0 (add_mset a (add_mset i M)) s \<Longrightarrow> holds_refs s0 (add_mset a M) (uiput i s)"
  by (simp add: uiput_holding add_mset_commute)

lemma srv_namei_loop_holding:
  "holds_refs s0 (with_ref ip M) s \<Longrightarrow> post (srv_namei_loop p name ip s) (\<lambda>(r, t). holds_refs s0 (with_ref r M) t)"
proof (induction "length p" arbitrary: p name ip s rule: less_induct)
  case less
  have loop: "post (srv_namei_loop q name' (Some i) t) (\<lambda>(r, t). holds_refs s0 (with_ref r M) t)"
    if "length q < length p" "holds_refs s0 (add_mset i M) t" for q name' i t
    using less.hyps [of q "Some i" t name'] that by simp
  show ?case
    unfolding srv_namei_loop.simps [of p name ip s]
    using less.prems
    by (auto simp: Let_def split: list.split
        intro!: post_rules post_bind [OF uilock_holding] post_bind [OF srv_dirlookup_holding] loop uiput_holding uiput_holding2)
qed

lemma srv_namei_holding:
  "holds_refs s0 M s \<Longrightarrow> post (srv_namei path s) (\<lambda>(r, t). holds_refs s0 (with_ref r M) t)"
  unfolding srv_namei_def by (auto intro!: post_uiget srv_namei_loop_holding)

lemma srv_ialloc_scan_holding:
  "holds_refs s0 M s \<Longrightarrow> post (srv_ialloc_scan type is s) (\<lambda>(r, t). holds_refs s0 (with_ref r M) t)"
proof (induction "is" arbitrary: s)
  case (Cons inum "is")
  then show ?case
    by (auto simp: Let_def intro!: post_rules post_bind [OF ubread_holding] post_bind [OF ubwrite_holding]
        dest: uiget_with_ref [OF holding_simps(1) [THEN iffD2]])
qed simp

lemma srv_ialloc_holding:
  "holds_refs s0 M s \<Longrightarrow> post (srv_ialloc type s) (\<lambda>(r, t). holds_refs s0 (with_ref r M) t)"
  by (simp add: srv_ialloc_def srv_ialloc_scan_holding)

section \<open>Requests\<close>

text \<open>A failed request: only the reply has been added, and no reference is left.\<close>

definition refused :: "ipc_msg \<Rightarrow> int \<Rightarrow> 'a srvst_scheme \<Rightarrow> 'a srvst_scheme \<Rightarrow> bool" where
  "refused req fd s t \<longleftrightarrow> (\<exists>u. holds_refs s {#} u \<and> t = reply_error req fd u)"

lemma refusedI: "holds_refs s {#} u \<Longrightarrow> refused req fd s (reply_error req fd u)"
  by (auto simp: refused_def)

lemma srv_create_holding:
  assumes "holds_refs s0 {#} s"
  shows "post (srv_create req s) (\<lambda>(r, t). case r of None \<Rightarrow> refused req (-1) s0 t | Some i \<Rightarrow> holds_refs s0 {#i#} t)"
  unfolding srv_create_def Let_def
  using assms
  by (auto intro!: post_if post_option post_uiget post_bind [OF uilock_holding] post_bind [OF srv_ialloc_holding]
      post_bind [OF uiupdate_holding] post_bind [OF srv_dirlink_holding] refusedI uiput_holding uiput_holding2)
    (simp add: add_mset_commute)

text \<open>A successful \<^verbatim>\<open>open\<close>: the lowest free entry has got the reference.\<close>

definition opened :: "ipc_msg \<Rightarrow> 'a srvst_scheme \<Rightarrow> 'a srvst_scheme \<Rightarrow> bool" where
  "opened req s t \<longleftrightarrow> (\<exists>u ip fd. holds_refs s {#ip#} u \<and> first_idx (\<lambda>e. \<not> fe_used e) (fd_table s) = Some fd
     \<and> t = send_reply (m_sender req) (m_request_id req) (int fd) (int fd) 0 None
         (u\<lparr>fd_table := (fd_table s)[fd := \<lparr>fe_used = True, fe_owner = m_sender req, fe_fd = int fd, fe_off = 0,
               fe_readable = (\<not> O_WRONLY (m_flags req)), fe_writable = (O_WRONLY (m_flags req) \<or> O_RDWR (m_flags req))\<rparr>],
            fd_inodes := (fd_inodes s)[fd := Some ip]\<rparr>))"

lemma holding_tables: "holds_refs s M u \<Longrightarrow> fd_table u = fd_table s \<and> fd_inodes u = fd_inodes s \<and> outbox u = outbox s"
  by (simp add: holds_refs_def same_fds_def)

lemma openedI:
  assumes "holds_refs s {#ip#} u" "first_idx (\<lambda>e. \<not> fe_used e) (fd_table s) = Some fd"
  shows "opened req s (send_reply (m_sender req) (m_request_id req) (int fd) (int fd) 0 None
         (u\<lparr>fd_table := (fd_table s)[fd := \<lparr>fe_used = True, fe_owner = m_sender req, fe_fd = int fd, fe_off = 0,
               fe_readable = (\<not> O_WRONLY (m_flags req)), fe_writable = (O_WRONLY (m_flags req) \<or> O_RDWR (m_flags req))\<rparr>],
            fd_inodes := (fd_inodes s)[fd := Some ip]\<rparr>))"
  using assms unfolding opened_def by blast

lemma post_alloc:
  assumes "holds_refs s0 {#ip#} u"
  shows "post (case alloc_remote_fd (m_sender req) (m_flags req) u of (fd, v) \<Rightarrow>
      if fd < 0 then Some (reply_error req (-1) (uiput ip v))
      else Some (send_reply (m_sender req) (m_request_id req) fd fd 0 None (v\<lparr>fd_inodes := (fd_inodes v)[nat fd := Some ip]\<rparr>)))
    (\<lambda>t. refused req (-1) s0 t \<or> opened req s0 t)"
  using assms holding_tables [OF assms]
  by (auto simp: alloc_remote_fd_def split: option.splits intro!: refusedI uiput_holding openedI)

lemma serve_open_post:
  assumes "holds_refs s0 {#} s"
  shows "post (serve_open req s) (\<lambda>t. refused req (-1) s0 t \<or> opened req s0 t)"
  unfolding serve_open_def
  using assms
  by (auto intro!: post_option post_bind_if post_bind_option post_bind [OF srv_namei_holding] post_bind [OF srv_create_holding]
      post_bind [OF uilock_holding] post_alloc refusedI)

text \<open>File contents end at \<open>MAXFILE\<close> blocks, for reading and for writing.\<close>

lemma srv_bmap_range: "post (srv_bmap i bn s) (\<lambda>(a, t). a \<noteq> 0 \<longrightarrow> bn < MAXFILE)"
proof (cases "bn < MAXFILE")
  case True
  then show ?thesis by (auto simp: post_def)
next
  case False
  then have "\<not> bn < NDIRECT" "\<not> bn - NDIRECT < NINDIRECT" by auto
  then show ?thesis by (simp add: srv_bmap_def)
qed

lemma uwritei_loop_range: "post (uwritei_loop i src off n (s :: 'a srvst_scheme)) (\<lambda>(ok, t). ok \<and> 0 < n \<longrightarrow> off + n \<le> MAXFILE * BSIZE)"
proof (induction n arbitrary: src off s rule: less_induct)
  case (less n)
  have loop: "post (uwritei_loop i src' (off + m) (n - m) t) (\<lambda>(ok, t). ok \<longrightarrow> off + n \<le> 71680)"
    if "off div BSIZE < MAXFILE" "m = min n (BSIZE - off mod BSIZE)" "0 < n" for src' m and t :: "'a srvst_scheme"
  proof (rule post_weaken [OF less])
    show "n - m < n" using that by simp
  qed (use block_end [OF that(1), of n] that in auto)
  show ?case
    unfolding uwritei_loop.simps [of i src off n s]
    by (auto simp: Let_def intro!: post_rules post_bind [OF srv_bmap_range] loop post_any [where m = "ubread _ _ _"] post_any [where m = "ubwrite _ _"])
qed

lemma ureadi_loop_range:
  "post (ureadi_loop i room off n (s :: 'a srvst_scheme)) (\<lambda>((ok, bs), t). ok \<and> 0 < n \<longrightarrow> off + n \<le> MAXFILE * BSIZE)"
proof (induction n arbitrary: room off s rule: less_induct)
  case (less n)
  have loop: "post (ureadi_loop i room' (off + m) (n - m) t) (\<lambda>((ok, bs), t). ok \<longrightarrow> off + n \<le> 71680)"
    if "off div BSIZE < MAXFILE" "m = min n (BSIZE - off mod BSIZE)" "0 < n" for room' m and t :: "'a srvst_scheme"
  proof (rule post_weaken [OF less])
    show "n - m < n" using that by simp
  qed (use block_end [OF that(1), of n] that in auto)
  show ?case
    unfolding ureadi_loop.simps [of i room off n s]
    by (auto simp: Let_def intro!: post_rules post_bind [OF srv_bmap_range] post_bind [OF loop] post_any [where m = "ubread _ _ _"])
qed

lemma post_conj: "post m P \<Longrightarrow> post m Q \<Longrightarrow> post m (\<lambda>x. P x \<and> Q x)"
  by (simp add: post_def)

lemma sint_small: "unat (w :: u32) < 2 ^ 31 \<Longrightarrow> sint w = int (unat w)"
  using sint_of_nat_small [of "unat w"] by simp

lemma uwritei_range:
  "post (uwritei i src off n s) (\<lambda>(r, t). r = -1 \<or> r = int (unat n) \<and> (n = 0 \<or> unat off + unat n \<le> MAXFILE * BSIZE))"
  unfolding uwritei_def
  by (auto intro!: post_rules post_bind [OF uwritei_loop_range] post_any [where m = "uiupdate _ _"] simp: sint_small unat_gt_0)

lemma read_length_le:
  assumes "off < sz"
  shows "unat (if off + n > sz then sz - off else n :: u32) \<le> unat n"
proof (cases "off + n > sz")
  case True
  then have "unat (off + n) = unat off + unat n"
    using assms unat_plus_if' [of off n] unat_less_u32 [of n] by (auto simp: word_less_nat_alt split: if_splits)
  moreover have "unat (sz - off) = unat sz - unat off" using assms by (simp add: unat_sub less_imp_le)
  ultimately show ?thesis using True by (simp add: word_less_nat_alt)
qed simp

lemma ureadi_range:
  "post (ureadi i room off n (s :: 'a srvst_scheme)) (\<lambda>((r, bs), t). r = -1 \<or> (\<exists>m \<le> unat n. r = int m \<and> (m = 0 \<or> unat off + m \<le> MAXFILE * BSIZE)))"
proof (cases "off < ui_size (uinode_at s i)")
  case True
  define k where "k = (if off + n > ui_size (uinode_at s i) then ui_size (uinode_at s i) - off else n)"
  have k: "\<exists>m \<le> unat n. sint k = int m \<and> (m = 0 \<or> unat off + m \<le> 71680)" if "k = 0 \<or> unat off + unat k \<le> 71680"
    using read_length_le [OF True, of n, folded k_def] that by (intro exI [of _ "unat k"]) (auto simp: sint_small)
  have eq: "ureadi i room off n s = do {
      ((ok, bs), s) \<leftarrow> ureadi_loop i room (unat off) (unat k) s;
      Some ((if ok then sint k else -1, bs), s) }"
    using True unfolding ureadi_def Let_def k_def [symmetric] by (simp add: linorder_not_le [symmetric])
  have fin: "post (Some ((if ok then sint k else -1, bs), t))
      (\<lambda>((r, bs), t). r = -1 \<or> (\<exists>m \<le> unat n. r = int m \<and> (m = 0 \<or> unat off + m \<le> MAXFILE * BSIZE)))"
    if "ok \<and> 0 < unat k \<longrightarrow> unat off + unat k \<le> MAXFILE * BSIZE" for ok and bs :: "byte list" and t :: "'a srvst_scheme"
    using that k by (cases ok) (auto simp: unat_gt_0)
  show ?thesis unfolding eq
    by (rule post_bind [OF ureadi_loop_range], clarify, rule fin) simp
next
  case False
  then show ?thesis by (simp add: ureadi_def linorder_not_less)
qed

text \<open>A successful \<^verbatim>\<open>read\<close> or \<^verbatim>\<open>write\<close>: the offset of the entry has advanced by the result.\<close>

definition moved :: "ipc_msg \<Rightarrow> nat \<Rightarrow> int \<Rightarrow> 'a srvst_scheme \<Rightarrow> 'a srvst_scheme \<Rightarrow> bool" where
  "moved req e n s t \<longleftrightarrow> (\<exists>u k d. holds_refs s {#} u \<and>
     t = send_reply (m_sender req) (m_request_id req) n (m_fd req) k d (advance e n u))"

lemma movedI: "holds_refs s {#} u \<Longrightarrow> moved req e n s (send_reply (m_sender req) (m_request_id req) n (m_fd req) k d (advance e n u))"
  unfolding moved_def by blast

lemma moved0I: "holds_refs s {#} u \<Longrightarrow> moved req e 0 s (send_reply (m_sender req) (m_request_id req) 0 (m_fd req) k d u)"
  using movedI [of s u req e 0 k d] by (simp add: advance_def)

definition in_file :: "int \<Rightarrow> int \<Rightarrow> bool" where
  "in_file off n \<longleftrightarrow> 0 \<le> n \<and> (n = 0 \<or> off + n \<le> int (MAXFILE * BSIZE))"

lemma nat_of_word_int: "0 \<le> i \<Longrightarrow> i < 2 ^ 32 \<Longrightarrow> unat (word_of_int i :: u32) = nat i"
  by (simp add: unat_eq_nat_uint uint_word_of_int)

lemma lookup_remote_fdD:
  assumes "lookup_remote_fd owner fd s = Some e"
  shows "fd = int e" "e < MAX_REMOTE_FDS" "fe_used (ent_at s e)" "fe_owner (ent_at s e) = owner"
  using assms by (auto simp: lookup_remote_fd_def split: if_splits)

lemma lookup_holding: "holds_refs s0 M s \<Longrightarrow> lookup_remote_fd owner fd s = lookup_remote_fd owner fd s0"
  by (simp add: lookup_remote_fd_def holding_tables)

lemma serve_write_post:
  assumes s: "holds_refs s0 {#} s" and n: "0 \<le> m_nbytes req" "m_nbytes req \<le> int IPC_DATA_SIZE"
    and off: "\<And>e. lookup_remote_fd (m_sender req) (m_fd req) s0 = Some e \<Longrightarrow> 0 \<le> fe_off (ent_at s0 e) \<and> fe_off (ent_at s0 e) < 2 ^ 31"
  shows "post (serve_write req s) (\<lambda>t. refused req (m_fd req) s0 t \<or> (\<exists>e.
      lookup_remote_fd (m_sender req) (m_fd req) s0 = Some e \<and> fe_writable (ent_at s0 e)
      \<and> in_file (fe_off (ent_at s0 e)) (m_nbytes req) \<and> moved req e (m_nbytes req) s0 t))"
proof -
  let ?w = "word_of_int (m_nbytes req) :: u32"
  have w: "unat ?w = nat (m_nbytes req)" using n by (simp add: nat_of_word_int)
  then have w0: "m_nbytes req = 0" if "?w = 0" using n that by simp
  have "post (uwritei ip (m_data req) (word_of_int (fe_off (ent_at s0 e))) ?w u)
      (\<lambda>(r, t). holds_refs s0 {#} t \<and> (r = -1 \<or> r = m_nbytes req \<and> in_file (fe_off (ent_at s0 e)) (m_nbytes req)))"
    if "holds_refs s0 {#} u" "lookup_remote_fd (m_sender req) (m_fd req) s0 = Some e" for e ip u
    by (rule post_weaken [OF post_conj [OF uwritei_holding [OF that(1)] uwritei_range]])
      (use off [OF that(2)] n w w0 in \<open>auto simp: in_file_def nat_of_word_int\<close>)
  note W = post_bind [OF this]
  show ?thesis
    unfolding serve_write_def Let_def lookup_holding [OF s] using n s holding_tables [OF s]
    by (auto intro!: post_rules W refusedI movedI)
qed

lemma serve_read_post:
  assumes s: "holds_refs s0 {#} s" and n: "0 \<le> m_nbytes req" "m_nbytes req \<le> int IPC_DATA_SIZE"
    and off: "\<And>e. lookup_remote_fd (m_sender req) (m_fd req) s0 = Some e \<Longrightarrow> 0 \<le> fe_off (ent_at s0 e) \<and> fe_off (ent_at s0 e) < 2 ^ 31"
  shows "post (serve_read req s) (\<lambda>t. refused req (m_fd req) s0 t \<or> (\<exists>e n.
      lookup_remote_fd (m_sender req) (m_fd req) s0 = Some e \<and> fe_readable (ent_at s0 e)
      \<and> n \<le> m_nbytes req \<and> in_file (fe_off (ent_at s0 e)) n \<and> moved req e n s0 t))"
proof -
  have R: "post (ureadi ip IPC_DATA_SIZE (word_of_int (fe_off (ent_at s0 e))) k u)
      (\<lambda>((r, bs), t). holds_refs s0 {#} t \<and> (r = -1 \<or> r \<le> m_nbytes req \<and> in_file (fe_off (ent_at s0 e)) r))"
    if "holds_refs s0 {#} u" "lookup_remote_fd (m_sender req) (m_fd req) s0 = Some e" "k \<le> word_of_int (m_nbytes req)" for k e ip u
  proof -
    have "unat k \<le> nat (m_nbytes req)" using that(3) n by (simp add: word_le_nat_alt nat_of_word_int)
    then show ?thesis
      by (intro post_weaken [OF post_conj [OF ureadi_holding [OF that(1)] ureadi_range]])
        (use off [OF that(2)] n in \<open>auto simp: in_file_def nat_of_word_int\<close>)
  qed
  have M: "\<exists>n \<le> m_nbytes req. in_file off n \<and> moved req e n s0 (send_reply (m_sender req) (m_request_id req) n' (m_fd req) k d (advance e n' u))"
    if "holds_refs s0 {#} u" "n' \<le> m_nbytes req" "in_file off n'" for u n' k d e off
    using that by (blast intro: movedI)
  have Z: "\<exists>n \<le> m_nbytes req. in_file off n \<and> moved req e n s0 (send_reply (m_sender req) (m_request_id req) 0 (m_fd req) 0 None u)"
    if "holds_refs s0 {#} u" for u e off
    using that n by (intro exI [of _ 0]) (simp add: in_file_def moved0I)
  show ?thesis
    unfolding serve_read_def Let_def lookup_holding [OF s] using n s holding_tables [OF s]
    by (auto intro!: post_rules post_bind [OF R] refusedI M Z)
qed

section \<open>The table of remote file descriptors as a service\<close>

text \<open>
  What clients see: a partial function from descriptors to open files. A file is known by its
  device and inode number.
\<close>

record remote_fd =
  r_owner :: int
  r_file :: "u32 \<times> u32"
  r_off :: int
  r_readable :: bool
  r_writable :: bool

definition remote_fds :: "'a srvst_scheme \<Rightarrow> nat \<Rightarrow> remote_fd option" where
  "remote_fds s e =
     (if e < MAX_REMOTE_FDS \<and> fe_used (ent_at s e) then
        Some \<lparr>r_owner = fe_owner (ent_at s e),
          r_file = (case fd_inodes s ! e of
              Some i \<Rightarrow> (ui_dev (uinode_at s i), ui_inum (uinode_at s i)) | None \<Rightarrow> (0, 0)),
          r_off = fe_off (ent_at s e), r_readable = fe_readable (ent_at s e), r_writable = fe_writable (ent_at s e)\<rparr>
      else None)"

text \<open>
  One request on this table, with the result that is sent back: \<open>None\<close> when the request is not
  answered. A request is refused with the result -1 and then changes nothing.
\<close>

inductive fd_service :: "ipc_msg \<Rightarrow> (nat \<Rightarrow> remote_fd option) \<Rightarrow> int option \<Rightarrow> (nat \<Rightarrow> remote_fd option) \<Rightarrow> bool"
  for req where
  Open: "m_type req = IPC_TYPE_FS_OPEN \<Longrightarrow> T e = None \<Longrightarrow> e < MAX_REMOTE_FDS \<Longrightarrow> (\<And>i. i < e \<Longrightarrow> T i \<noteq> None) \<Longrightarrow>
    fd_service req T (Some (int e)) (T(e \<mapsto> \<lparr>r_owner = m_sender req, r_file = f, r_off = 0,
      r_readable = (\<not> O_WRONLY (m_flags req)), r_writable = (O_WRONLY (m_flags req) \<or> O_RDWR (m_flags req))\<rparr>))"
| Read: "m_type req = IPC_TYPE_FS_READ \<Longrightarrow> m_fd req = int e \<Longrightarrow> T e = Some r \<Longrightarrow> r_owner r = m_sender req \<Longrightarrow>
    r_readable r \<Longrightarrow> n \<le> m_nbytes req \<Longrightarrow> in_file (r_off r) n \<Longrightarrow>
    fd_service req T (Some n) (T(e \<mapsto> r\<lparr>r_off := r_off r + n\<rparr>))"
| Write: "m_type req = IPC_TYPE_FS_WRITE \<Longrightarrow> m_fd req = int e \<Longrightarrow> T e = Some r \<Longrightarrow> r_owner r = m_sender req \<Longrightarrow>
    r_writable r \<Longrightarrow> in_file (r_off r) (m_nbytes req) \<Longrightarrow>
    fd_service req T (Some (m_nbytes req)) (T(e \<mapsto> r\<lparr>r_off := r_off r + m_nbytes req\<rparr>))"
| Close: "m_type req = IPC_TYPE_FS_CLOSE \<Longrightarrow> m_fd req = int e \<Longrightarrow> T e = Some r \<Longrightarrow> r_owner r = m_sender req \<Longrightarrow>
    fd_service req T (Some 0) (T(e := None))"
| Exit: "m_type req = IPC_TYPE_FS_CLIENT_EXIT \<Longrightarrow>
    fd_service req T None (\<lambda>e. case T e of Some r \<Rightarrow> if r_owner r = m_sender req then None else T e | None \<Rightarrow> None)"
| Shutdown: "m_type req = IPC_TYPE_FS_SHUTDOWN \<Longrightarrow>
    fd_service req T (Some 0) (\<lambda>e. case T e of Some r \<Rightarrow> if r_owner r = m_sender req then None else T e | None \<Rightarrow> None)"
| Refuse: "m_type req \<notin> {IPC_TYPE_FS_CLIENT_EXIT, IPC_TYPE_FS_SHUTDOWN} \<Longrightarrow>
    (\<And>e r. m_type req = IPC_TYPE_FS_CLOSE \<Longrightarrow> m_fd req = int e \<Longrightarrow> T e = Some r \<Longrightarrow> r_owner r \<noteq> m_sender req) \<Longrightarrow>
    fd_service req T (Some (-1)) T"

text \<open>
  The invariant of the server between requests: an entry of the table is in use exactly when it
  has an inode, its offset lies in a file of maximal size, and the reference count of an inode
  is the number of entries that have it.
\<close>

definition srv_inv :: "'a srvst_scheme \<Rightarrow> bool" where
  "srv_inv s \<longleftrightarrow> length (fd_table s) = MAX_REMOTE_FDS \<and> length (fd_inodes s) = MAX_REMOTE_FDS \<and> uniq s
     \<and> (\<forall>e < MAX_REMOTE_FDS. fe_used (ent_at s e) \<longleftrightarrow> fd_inodes s ! e \<noteq> None)
     \<and> (\<forall>e < MAX_REMOTE_FDS. fe_used (ent_at s e) \<longrightarrow> 0 \<le> fe_off (ent_at s e) \<and> fe_off (ent_at s e) \<le> int (MAXFILE * BSIZE))
     \<and> (\<forall>e < MAX_REMOTE_FDS. \<forall>i. fd_inodes s ! e = Some i \<longrightarrow> i < length (uinodes s))
     \<and> (\<forall>i < length (uinodes s). ui_ref (uinode_at s i) = int (count (mset (fd_inodes s)) (Some i)))"

lemma srv_invD:
  assumes "srv_inv s"
  shows "length (fd_table s) = MAX_REMOTE_FDS" "length (fd_inodes s) = MAX_REMOTE_FDS" "uniq s"
    "e < MAX_REMOTE_FDS \<Longrightarrow> fe_used (ent_at s e) = (fd_inodes s ! e \<noteq> None)"
    "e < MAX_REMOTE_FDS \<Longrightarrow> fe_used (ent_at s e) \<Longrightarrow> 0 \<le> fe_off (ent_at s e) \<and> fe_off (ent_at s e) \<le> int (MAXFILE * BSIZE)"
    "e < MAX_REMOTE_FDS \<Longrightarrow> fd_inodes s ! e = Some i \<Longrightarrow> i < length (uinodes s)"
    "i < length (uinodes s) \<Longrightarrow> ui_ref (uinode_at s i) = int (count (mset (fd_inodes s)) (Some i))"
  using assms by (simp_all add: srv_inv_def)

lemma srv_invI:
  assumes "length (fd_table s) = MAX_REMOTE_FDS" "length (fd_inodes s) = MAX_REMOTE_FDS" "uniq s"
    "\<And>e. e < MAX_REMOTE_FDS \<Longrightarrow> fe_used (ent_at s e) = (fd_inodes s ! e \<noteq> None)"
    "\<And>e. e < MAX_REMOTE_FDS \<Longrightarrow> fe_used (ent_at s e) \<Longrightarrow> 0 \<le> fe_off (ent_at s e) \<and> fe_off (ent_at s e) \<le> int (MAXFILE * BSIZE)"
    "\<And>e i. e < MAX_REMOTE_FDS \<Longrightarrow> fd_inodes s ! e = Some i \<Longrightarrow> i < length (uinodes s)"
    "\<And>i. i < length (uinodes s) \<Longrightarrow> ui_ref (uinode_at s i) = int (count (mset (fd_inodes s)) (Some i))"
  shows "srv_inv s"
  using assms by (simp add: srv_inv_def)

lemma srv_inv_holding: "srv_inv s \<Longrightarrow> holds_refs s {#} s"
  by (intro holding_refl) (auto simp: srv_inv_def)

text \<open>An inode that an entry has is referenced.\<close>

lemma fd_inode_ref:
  assumes "srv_inv s" "e < MAX_REMOTE_FDS" "fd_inodes s ! e = Some i"
  shows "i < length (uinodes s)" "0 < ui_ref (uinode_at s i)"
proof -
  show i: "i < length (uinodes s)" by (rule srv_invD(6) [OF assms])
  have "Some i \<in> set (fd_inodes s)" using assms srv_invD(2) [OF assms(1)] by (metis nth_mem)
  then show "0 < ui_ref (uinode_at s i)" using srv_invD(7) [OF assms(1) i] by simp
qed

text \<open>
  A change of the server's state that keeps the references up to the change of the table: what
  is needed for the invariant and for the view of the clients.
\<close>

lemma holding_view:
  assumes inv: "srv_inv s" and u: "holds_refs s M u" and e: "e < MAX_REMOTE_FDS" "fd_inodes s ! e = Some i"
  shows "ui_dev (uinode_at u i) = ui_dev (uinode_at s i)" "ui_inum (uinode_at u i) = ui_inum (uinode_at s i)"
  using fd_inode_ref [OF inv e] u by (auto simp: holds_refs_def)

lemma holding_remote_fds:
  assumes "srv_inv s" "holds_refs s M u"
  shows "remote_fds u = remote_fds s"
proof
  fix e
  show "remote_fds u e = remote_fds s e"
    using holding_tables [OF assms(2)] holding_view [OF assms, of e] by (auto simp: remote_fds_def split: option.split)
qed

lemma holding_srv_inv:
  assumes "srv_inv s" "holds_refs s {#} u"
  shows "srv_inv u"
  using srv_invD [OF assms(1)] holding_tables [OF assms(2)] assms(2) by (intro srv_invI) (auto simp: holds_refs_def)

text \<open>Sending a reply changes neither.\<close>

definition replied :: "ipc_msg \<Rightarrow> int option \<Rightarrow> 'a srvst_scheme \<Rightarrow> 'a srvst_scheme \<Rightarrow> bool" where
  "replied req r s t \<longleftrightarrow> (case r of
     None \<Rightarrow> outbox t = outbox s
   | Some n \<Rightarrow> \<exists>m. outbox t = outbox s @ [(m_sender req, m)] \<and> m_type m = IPC_TYPE_FS_REPLY
       \<and> m_request_id m = m_request_id req \<and> m_result m = n)"

lemma srv_inv_outbox [simp]: "srv_inv (s\<lparr>outbox := x\<rparr>) = srv_inv s"
  by (simp add: srv_inv_def uniq_def)

lemma remote_fds_outbox [simp]: "remote_fds (s\<lparr>outbox := x\<rparr>) = remote_fds s"
  by (auto simp: remote_fds_def fun_eq_iff split: option.split)

lemma send_reply_simps [simp]:
  "srv_inv (send_reply c rid n fd k d s) = srv_inv s" "remote_fds (send_reply c rid n fd k d s) = remote_fds s"
  by (simp_all add: send_reply_def Let_def)

lemma send_reply_replied:
  "outbox u = outbox s \<Longrightarrow> replied req (Some n) s (send_reply (m_sender req) (m_request_id req) n fd k d u)"
  by (auto simp: replied_def send_reply_def Let_def zero_msg_def split: option.split)

lemma refused_refines:
  assumes "srv_inv s" "refused req fd s t"
  shows "srv_inv t" "remote_fds t = remote_fds s" "replied req (Some (-1)) s t"
proof -
  obtain u where u: "holds_refs s {#} u" "t = reply_error req fd u" using assms(2) by (auto simp: refused_def)
  show "srv_inv t" using holding_srv_inv [OF assms(1) u(1)] u(2) by (simp add: reply_error_def)
  show "remote_fds t = remote_fds s" using holding_remote_fds [OF assms(1) u(1)] u(2) by (simp add: reply_error_def)
  show "replied req (Some (-1)) s t"
    unfolding u(2) reply_error_def using holding_tables [OF u(1)] by (intro send_reply_replied) simp
qed

lemma opened_refines:
  assumes inv: "srv_inv s" and t: "opened req s t"
  shows "srv_inv t" "\<exists>e f. e < MAX_REMOTE_FDS \<and> remote_fds s e = None \<and> (\<forall>i < e. remote_fds s i \<noteq> None)
    \<and> remote_fds t = (remote_fds s)(e \<mapsto> \<lparr>r_owner = m_sender req, r_file = f, r_off = 0,
        r_readable = (\<not> O_WRONLY (m_flags req)), r_writable = (O_WRONLY (m_flags req) \<or> O_RDWR (m_flags req))\<rparr>)
    \<and> replied req (Some (int e)) s t"
proof -
  obtain u ip e where u: "holds_refs s {#ip#} u" and e: "first_idx (\<lambda>e. \<not> fe_used e) (fd_table s) = Some e"
    and t': "t = send_reply (m_sender req) (m_request_id req) (int e) (int e) 0 None
         (u\<lparr>fd_table := (fd_table s)[e := \<lparr>fe_used = True, fe_owner = m_sender req, fe_fd = int e, fe_off = 0,
               fe_readable = (\<not> O_WRONLY (m_flags req)), fe_writable = (O_WRONLY (m_flags req) \<or> O_RDWR (m_flags req))\<rparr>],
            fd_inodes := (fd_inodes s)[e := Some ip]\<rparr>)" (is "_ = send_reply _ _ _ _ _ _ ?v")
    using t unfolding opened_def by blast
  note I = srv_invD [OF inv] and T = holding_tables [OF u]
  have e': "e < MAX_REMOTE_FDS" "\<not> fe_used (ent_at s e)" "\<And>i. i < e \<Longrightarrow> fe_used (ent_at s i)"
    using first_idx_SomeD [OF e] I(1) by auto
  then have n: "fd_inodes s ! e = None" using I(4) by simp
  have ip: "ip < length (uinodes s)" using holdingD(3) [OF u, of ip] by simp
  have "srv_inv ?v"
  proof (rule srv_invI)
    show "length (fd_table ?v) = MAX_REMOTE_FDS" "length (fd_inodes ?v) = MAX_REMOTE_FDS" using I(1,2) by simp_all
    show "uniq ?v" using holdingD(1) [OF u] by simp
    show "fe_used (ent_at ?v i) = (fd_inodes ?v ! i \<noteq> None)" if "i < MAX_REMOTE_FDS" for i
      using I(4) [OF that] that I(1,2) by (cases "i = e") simp_all
    show "0 \<le> fe_off (ent_at ?v i) \<and> fe_off (ent_at ?v i) \<le> int (MAXFILE * BSIZE)"
      if "i < MAX_REMOTE_FDS" "fe_used (ent_at ?v i)" for i
      using I(5) [OF that(1)] that I(1) by (cases "i = e") simp_all
    show "j < length (uinodes ?v)" if "i < MAX_REMOTE_FDS" "fd_inodes ?v ! i = Some j" for i j
      using I(6) [OF that(1), of j] that ip I(2) by (cases "i = e") (simp_all add: holdingD(2) [OF u])
    show "ui_ref (uinode_at ?v j) = int (count (mset (fd_inodes ?v)) (Some j))" if "j < length (uinodes ?v)" for j
      using I(7) [of j] that holdingD(4) [OF u, of j] e'(1) n I(2) by (simp add: mset_update holdingD(2) [OF u])
  qed
  then show "srv_inv t" by (simp add: t')
  have "remote_fds ?v = (remote_fds s)(e \<mapsto> \<lparr>r_owner = m_sender req, r_file = (ui_dev (uinode_at u ip), ui_inum (uinode_at u ip)), r_off = 0,
        r_readable = (\<not> O_WRONLY (m_flags req)), r_writable = (O_WRONLY (m_flags req) \<or> O_RDWR (m_flags req))\<rparr>)"
  proof
    fix i
    show "remote_fds ?v i = ((remote_fds s)(e \<mapsto> \<lparr>r_owner = m_sender req, r_file = (ui_dev (uinode_at u ip), ui_inum (uinode_at u ip)), r_off = 0,
        r_readable = (\<not> O_WRONLY (m_flags req)), r_writable = (O_WRONLY (m_flags req) \<or> O_RDWR (m_flags req))\<rparr>)) i"
      using I(1,2) e'(1) holding_view [OF inv u, of i] by (auto simp: remote_fds_def split: option.split)
  qed
  moreover have "remote_fds s e = None" "\<forall>i < e. remote_fds s i \<noteq> None" using e' by (simp_all add: remote_fds_def)
  moreover have "replied req (Some (int e)) s t"
    unfolding t' using T by (intro send_reply_replied) simp
  ultimately show "\<exists>e f. e < MAX_REMOTE_FDS \<and> remote_fds s e = None \<and> (\<forall>i < e. remote_fds s i \<noteq> None)
    \<and> remote_fds t = (remote_fds s)(e \<mapsto> \<lparr>r_owner = m_sender req, r_file = f, r_off = 0,
        r_readable = (\<not> O_WRONLY (m_flags req)), r_writable = (O_WRONLY (m_flags req) \<or> O_RDWR (m_flags req))\<rparr>)
    \<and> replied req (Some (int e)) s t"
    using e'(1) by (auto simp: t')
qed

lemma moved_refines:
  assumes inv: "srv_inv s" and t: "moved req e n s t" and e: "e < MAX_REMOTE_FDS" "remote_fds s e = Some r"
    and n: "in_file (fe_off (ent_at s e)) n"
  shows "srv_inv t" "remote_fds t = (remote_fds s)(e \<mapsto> r\<lparr>r_off := r_off r + n\<rparr>)" "replied req (Some n) s t"
proof -
  obtain u k d where u: "holds_refs s {#} u" and t': "t = send_reply (m_sender req) (m_request_id req) n (m_fd req) k d (advance e n u)"
    using t by (auto simp: moved_def)
  have iu: "srv_inv u" by (rule holding_srv_inv [OF inv u])
  note I = srv_invD [OF iu] and T = holding_tables [OF u]
  have ent: "ent_at (advance e n u) i = (if i = e then (ent_at u e)\<lparr>fe_off := fe_off (ent_at u e) + n\<rparr> else ent_at u i)" for i
    using I(1) e(1) by (simp add: advance_def)
  have "srv_inv (advance e n u)"
  proof (rule srv_invI)
    show "0 \<le> fe_off (ent_at (advance e n u) i) \<and> fe_off (ent_at (advance e n u) i) \<le> int (MAXFILE * BSIZE)"
      if "i < MAX_REMOTE_FDS" "fe_used (ent_at (advance e n u) i)" for i
      using I(5) [OF that(1)] that n T by (auto simp: ent in_file_def split: if_splits)
    show "fe_used (ent_at (advance e n u) i) = (fd_inodes (advance e n u) ! i \<noteq> None)" if "i < MAX_REMOTE_FDS" for i
      using I(4) [OF that] by (cases "i = e") (simp_all add: ent, simp_all add: advance_def)
  qed (use I(1,2,3,6,7) in \<open>simp_all add: advance_def\<close>)
  then show "srv_inv t" by (simp add: t')
  have "remote_fds (advance e n u) = (remote_fds u)(e \<mapsto> r\<lparr>r_off := r_off r + n\<rparr>)"
  proof
    fix i
    have f: "fd_inodes (advance e n u) = fd_inodes u" "uinodes (advance e n u) = uinodes u" by (simp_all add: advance_def)
    have "remote_fds u e = Some r" using e(2) holding_remote_fds [OF inv u] by simp
    then show "remote_fds (advance e n u) i = ((remote_fds u)(e \<mapsto> r\<lparr>r_off := r_off r + n\<rparr>)) i"
      by (cases "i = e") (auto simp: remote_fds_def ent f split: if_splits option.split)
  qed
  then show "remote_fds t = (remote_fds s)(e \<mapsto> r\<lparr>r_off := r_off r + n\<rparr>)"
    using holding_remote_fds [OF inv u] by (simp add: t')
  show "replied req (Some n) s t" unfolding t' using T by (intro send_reply_replied) (simp add: advance_def)
qed

text \<open>Closing one entry, in either order of the two assignments.\<close>

definition close_entry :: "nat \<Rightarrow> 'a srvst_scheme \<Rightarrow> 'a srvst_scheme" where
  "close_entry e s = put_fd_inode e (s\<lparr>fd_table := (fd_table s)[e := (fd_table s ! e)\<lparr>fe_used := False\<rparr>]\<rparr>)"

lemma uiput_tables [simp]:
  "fd_table (uiput i s) = fd_table s" "fd_inodes (uiput i s) = fd_inodes s" "outbox (uiput i s) = outbox s"
  "length (uinodes (uiput i s)) = length (uinodes s)"
  by (simp_all add: uiput_def upd_uinode_def Let_def)

lemma uiput_update: "uiput i (s\<lparr>fd_table := x\<rparr>) = (uiput i s)\<lparr>fd_table := x\<rparr>"
  by (simp add: uiput_def upd_uinode_def Let_def)

lemma uinode_uiput:
  "i < length (uinodes s) \<Longrightarrow> ui_ref (uinode_at (uiput i s) j) = ui_ref (uinode_at s j) - (if j = i then 1 else 0)"
  "ui_dev (uinode_at (uiput i s) j) = ui_dev (uinode_at s j)" "ui_inum (uinode_at (uiput i s) j) = ui_inum (uinode_at s j)"
  by (cases "i < length (uinodes s)"; cases "j = i"; auto simp: uiput_def upd_uinode_def Let_def list_update_beyond not_less)+

lemma uniq_uiput: "i < length (uinodes s) \<Longrightarrow> uniq s \<Longrightarrow> uniq (uiput i s)"
  by (rule uniqI) (auto simp: uinode_uiput dest: uniqD split: if_splits)

lemma close_entry_refines:
  assumes inv: "srv_inv s" and e: "e < MAX_REMOTE_FDS" "fe_used (ent_at s e)"
  shows "srv_inv (close_entry e s)" "remote_fds (close_entry e s) = (remote_fds s)(e := None)"
    "outbox (close_entry e s) = outbox s"
    "(let s = put_fd_inode e s in s\<lparr>fd_table := (fd_table s)[e := (fd_table s ! e)\<lparr>fe_used := False\<rparr>]\<rparr>) = close_entry e s"
proof -
  note I = srv_invD [OF inv]
  obtain ip where ip: "fd_inodes s ! e = Some ip" using I(4) [OF e(1)] e(2) by auto
  note r = fd_inode_ref [OF inv e(1) ip]
  let ?t = "(uiput ip s)\<lparr>fd_table := (fd_table s)[e := (fd_table s ! e)\<lparr>fe_used := False\<rparr>], fd_inodes := (fd_inodes s)[e := None]\<rparr>"
  have t: "close_entry e s = ?t" using ip by (simp add: close_entry_def put_fd_inode_def uiput_update)
  have "srv_inv ?t"
  proof (rule srv_invI)
    show "length (fd_table ?t) = MAX_REMOTE_FDS" "length (fd_inodes ?t) = MAX_REMOTE_FDS" using I(1,2) by simp_all
    show "uniq ?t" using uniq_uiput [OF r(1) I(3)] by simp
    show "fe_used (ent_at ?t i) = (fd_inodes ?t ! i \<noteq> None)" if "i < MAX_REMOTE_FDS" for i
      using I(4) [OF that] that I(1,2) by (cases "i = e") simp_all
    show "0 \<le> fe_off (ent_at ?t i) \<and> fe_off (ent_at ?t i) \<le> int (MAXFILE * BSIZE)"
      if "i < MAX_REMOTE_FDS" "fe_used (ent_at ?t i)" for i
      using I(5) [OF that(1)] that I(1) by (cases "i = e") simp_all
    show "j < length (uinodes ?t)" if "i < MAX_REMOTE_FDS" "fd_inodes ?t ! i = Some j" for i j
      using I(6) [OF that(1), of j] that I(2) by (cases "i = e") simp_all
    show "ui_ref (uinode_at ?t j) = int (count (mset (fd_inodes ?t)) (Some j))" if "j < length (uinodes ?t)" for j
      using I(7) [of j] that ip e(1) I(2) r by (cases "j = ip") (simp_all add: mset_update uinode_uiput(1) [OF r(1)])
  qed
  then show "srv_inv (close_entry e s)" by (simp add: t)
  have "remote_fds ?t i = ((remote_fds s)(e := None)) i" for i
    using I(1,2) e(1) by (cases "i = e") (auto simp: remote_fds_def uinode_uiput split: option.split)
  then show "remote_fds (close_entry e s) = (remote_fds s)(e := None)" by (simp add: t fun_eq_iff)
  show "outbox (close_entry e s) = outbox s" by (simp add: t)
  show "(let s = put_fd_inode e s in s\<lparr>fd_table := (fd_table s)[e := (fd_table s ! e)\<lparr>fe_used := False\<rparr>]\<rparr>) = close_entry e s"
    using ip by (simp add: t put_fd_inode_def)
qed

lemma close_all_scan_refines:
  assumes "srv_inv s" "\<forall>e \<in> set es. e < MAX_REMOTE_FDS"
  shows "srv_inv (close_all_scan es owner s) \<and> outbox (close_all_scan es owner s) = outbox s
    \<and> remote_fds (close_all_scan es owner s) = (\<lambda>e. case remote_fds s e of
        Some r \<Rightarrow> if r_owner r = owner \<and> e \<in> set es then None else Some r | None \<Rightarrow> None)"
  using assms
proof (induction es arbitrary: s)
  case Nil
  then show ?case by (auto simp: fun_eq_iff split: option.split)
next
  case (Cons e es)
  show ?case
  proof (cases "fe_used (ent_at s e) \<and> fe_owner (ent_at s e) = owner")
    case True
    have e: "e < MAX_REMOTE_FDS" using Cons.prems by simp
    note C = close_entry_refines [OF Cons.prems(1) e conjunct1 [OF True]]
    have "close_all_scan (e # es) owner s = close_all_scan es owner (close_entry e s)" using True by (simp add: close_entry_def)
    moreover have "\<exists>r. remote_fds s e = Some r \<and> r_owner r = owner" using True e by (simp add: remote_fds_def)
    ultimately show ?thesis using Cons.IH [OF C(1)] Cons.prems(2) C(2,3) by (auto simp: fun_eq_iff split: option.split)
  next
    case False
    moreover have "\<nexists>r. remote_fds s e = Some r \<and> r_owner r = owner" using False by (auto simp: remote_fds_def)
    moreover have "close_all_scan (e # es) owner s = close_all_scan es owner s" using False by auto
    ultimately show ?thesis using Cons.IH [OF Cons.prems(1)] Cons.prems(2) by (auto simp: fun_eq_iff split: option.split)
  qed
qed

lemma close_all_refines:
  assumes "srv_inv s"
  shows "srv_inv (close_all_for_owner owner s)" "outbox (close_all_for_owner owner s) = outbox s"
    "remote_fds (close_all_for_owner owner s) = (\<lambda>e. case remote_fds s e of
        Some r \<Rightarrow> if r_owner r = owner then None else remote_fds s e | None \<Rightarrow> None)"
proof -
  have A: "srv_inv (close_all_for_owner owner s) \<and> outbox (close_all_for_owner owner s) = outbox s
    \<and> remote_fds (close_all_for_owner owner s) = (\<lambda>e. case remote_fds s e of
        Some r \<Rightarrow> if r_owner r = owner \<and> e \<in> set [0..<MAX_REMOTE_FDS] then None else Some r | None \<Rightarrow> None)"
    unfolding close_all_for_owner_def by (rule close_all_scan_refines [OF assms]) auto
  show "srv_inv (close_all_for_owner owner s)" "outbox (close_all_for_owner owner s) = outbox s" using A by simp_all
  have "e < MAX_REMOTE_FDS" if "remote_fds s e = Some r" for e r using that by (simp add: remote_fds_def split: if_splits)
  then show "remote_fds (close_all_for_owner owner s) = (\<lambda>e. case remote_fds s e of
        Some r \<Rightarrow> if r_owner r = owner then None else remote_fds s e | None \<Rightarrow> None)"
    unfolding conjunct2 [OF conjunct2 [OF A]] by (intro ext) (auto split: option.split)
qed

lemma lookup_remote_fd_iff:
  "lookup_remote_fd owner fd s = Some e \<longleftrightarrow> fd = int e \<and> (\<exists>r. remote_fds s e = Some r \<and> r_owner r = owner)"
proof
  assume l: "lookup_remote_fd owner fd s = Some e"
  show "fd = int e \<and> (\<exists>r. remote_fds s e = Some r \<and> r_owner r = owner)"
    using lookup_remote_fdD [OF l] by (simp add: remote_fds_def)
next
  assume "fd = int e \<and> (\<exists>r. remote_fds s e = Some r \<and> r_owner r = owner)"
  then have "fd = int e" "e < MAX_REMOTE_FDS" "fe_used (ent_at s e)" "fe_owner (ent_at s e) = owner"
    by (auto simp: remote_fds_def split: if_splits)
  then show "lookup_remote_fd owner fd s = Some e" by (simp add: lookup_remote_fd_def)
qed

lemma serve_close_refines:
  assumes inv: "srv_inv s" and ty: "m_type req = IPC_TYPE_FS_CLOSE"
  shows "srv_inv (serve_close req s) \<and> (\<exists>r. fd_service req (remote_fds s) r (remote_fds (serve_close req s))
    \<and> replied req r s (serve_close req s))"
proof (cases "lookup_remote_fd (m_sender req) (m_fd req) s")
  case None
  have r: "refused req (m_fd req) s (serve_close req s)"
    using None by (simp add: serve_close_def refusedI srv_inv_holding [OF inv])
  have "fd_service req (remote_fds s) (Some (-1)) (remote_fds s)"
    using None ty lookup_remote_fd_iff [of "m_sender req" "m_fd req" s] by (intro Refuse) auto
  then show ?thesis using refused_refines [OF inv r] by auto
next
  case (Some e)
  note L = lookup_remote_fdD [OF Some]
  note C = close_entry_refines [OF inv L(2,3)]
  have t: "serve_close req s = send_reply (m_sender req) (m_request_id req) 0 (m_fd req) 0 None (close_entry e s)"
    using Some C(4) by (simp add: serve_close_def Let_def)
  obtain r where "remote_fds s e = Some r" "r_owner r = m_sender req" using Some by (auto simp: lookup_remote_fd_iff)
  then have "fd_service req (remote_fds s) (Some 0) ((remote_fds s)(e := None))" using ty L(1) by (intro Close)
  moreover have "replied req (Some 0) s (serve_close req s)" unfolding t by (rule send_reply_replied [OF C(3)])
  ultimately show ?thesis using C(1,2) by (auto simp: t)
qed

lemma serve_refusedI:
  assumes "srv_inv s" "refused req fd s t" "m_type req \<notin> {IPC_TYPE_FS_CLIENT_EXIT, IPC_TYPE_FS_SHUTDOWN, IPC_TYPE_FS_CLOSE}"
  shows "srv_inv t \<and> (\<exists>r. fd_service req (remote_fds s) r (remote_fds t) \<and> replied req r s t)"
  using refused_refines [OF assms(1,2)] assms(3) by (auto intro!: exI [of _ "Some (-1)"] Refuse)

lemma serve_movedI:
  assumes inv: "srv_inv s" and t: "moved req e n s t" and l: "lookup_remote_fd (m_sender req) (m_fd req) s = Some e"
    and n: "n \<le> m_nbytes req" "in_file (fe_off (ent_at s e)) n"
    and ty: "m_type req = IPC_TYPE_FS_READ \<and> fe_readable (ent_at s e) \<or> m_type req = IPC_TYPE_FS_WRITE \<and> fe_writable (ent_at s e) \<and> n = m_nbytes req"
  shows "srv_inv t \<and> (\<exists>r. fd_service req (remote_fds s) r (remote_fds t) \<and> replied req r s t)"
proof -
  note L = lookup_remote_fdD [OF l]
  obtain r where r: "remote_fds s e = Some r" "r_owner r = m_sender req" using l by (auto simp: lookup_remote_fd_iff)
  have f: "r_off r = fe_off (ent_at s e)" "r_readable r = fe_readable (ent_at s e)" "r_writable r = fe_writable (ent_at s e)"
    using r(1) by (auto simp: remote_fds_def split: if_splits)
  note M = moved_refines [OF inv t L(2) r(1) n(2)]
  have "fd_service req (remote_fds s) (Some n) ((remote_fds s)(e \<mapsto> r\<lparr>r_off := r_off r + n\<rparr>))"
    using ty
  proof
    assume "m_type req = IPC_TYPE_FS_READ \<and> fe_readable (ent_at s e)"
    then show ?thesis using r f L(1) n by (intro Read) simp_all
  next
    assume w: "m_type req = IPC_TYPE_FS_WRITE \<and> fe_writable (ent_at s e) \<and> n = m_nbytes req"
    show ?thesis using w r f L(1) n Write [of req e "remote_fds s" r] by simp
  qed
  then show ?thesis using M by auto
qed

lemma serve_refines_service:
  assumes inv: "srv_inv s" and valid: "valid_ipc_msg req" and run: "serve req s = Some (go, t)"
  shows "srv_inv t \<and> (\<exists>r. fd_service req (remote_fds s) r (remote_fds t) \<and> replied req r s t)"
proof -
  note h = srv_inv_holding [OF inv] and C = close_all_refines [OF inv, of "m_sender req"]
  have n: "0 \<le> m_nbytes req" "m_nbytes req \<le> int IPC_DATA_SIZE" using valid by (simp_all add: valid_ipc_msg_def)
  have off: "0 \<le> fe_off (ent_at s e) \<and> fe_off (ent_at s e) < 2 ^ 31"
    if "lookup_remote_fd (m_sender req) (m_fd req) s = Some e" for e
    using srv_invD(5) [OF inv lookup_remote_fdD(2,3) [OF that]] by simp
  consider "m_type req = IPC_TYPE_FS_SHUTDOWN" | "m_type req = IPC_TYPE_FS_CLIENT_EXIT" | "m_type req = IPC_TYPE_FS_OPEN"
    | "m_type req = IPC_TYPE_FS_READ" | "m_type req = IPC_TYPE_FS_WRITE" | "m_type req = IPC_TYPE_FS_CLOSE"
    | "m_type req = IPC_TYPE_FS_REPLY"
    using valid by (auto simp: valid_ipc_msg_def)
  then show ?thesis
  proof cases
    case 1
    then have t: "t = send_reply (m_sender req) (m_request_id req) 0 (-1) 0 None (close_all_for_owner (m_sender req) s)"
      using run by (simp add: serve_def)
    have "fd_service req (remote_fds s) (Some 0) (remote_fds t)" using Shutdown [OF 1, of "remote_fds s"] C(3) by (simp add: t)
    moreover have "replied req (Some 0) s t" unfolding t by (rule send_reply_replied [OF C(2)])
    ultimately show ?thesis using C(1) by (auto simp: t)
  next
    case 2
    then have t: "t = close_all_for_owner (m_sender req) s" using run by (simp add: serve_def)
    have "fd_service req (remote_fds s) None (remote_fds t)" using Exit [OF 2, of "remote_fds s"] C(3) by (simp add: t)
    then show ?thesis using C(1,2) by (auto simp: t replied_def intro!: exI [of _ None])
  next
    case 3
    then have "serve_open req s = Some t" using run by (auto simp: serve_def bind_eq_Some_conv)
    then consider "refused req (-1) s t" | (ok) "opened req s t" using postD [OF serve_open_post [OF h]] by blast
    then show ?thesis
    proof cases
      case ok
      obtain e f where e: "e < MAX_REMOTE_FDS" "remote_fds s e = None" "\<forall>i < e. remote_fds s i \<noteq> None"
          "remote_fds t = (remote_fds s)(e \<mapsto> \<lparr>r_owner = m_sender req, r_file = f, r_off = 0,
             r_readable = (\<not> O_WRONLY (m_flags req)), r_writable = (O_WRONLY (m_flags req) \<or> O_RDWR (m_flags req))\<rparr>)"
          "replied req (Some (int e)) s t"
        using opened_refines(2) [OF inv ok] by blast
      have "fd_service req (remote_fds s) (Some (int e)) (remote_fds t)"
        unfolding e(4) by (rule Open) (use 3 e in auto)
      then show ?thesis using opened_refines(1) [OF inv ok] e(5) by blast
    qed (use serve_refusedI [OF inv] 3 in simp)
  next
    case 4
    then have "serve_read req s = Some t" using run by (auto simp: serve_def bind_eq_Some_conv)
    from postD [OF serve_read_post [OF h n off] this] show ?thesis
      using serve_refusedI [OF inv] serve_movedI [OF inv] 4 by auto
  next
    case 5
    then have "serve_write req s = Some t" using run by (auto simp: serve_def bind_eq_Some_conv)
    from postD [OF serve_write_post [OF h n off] this] show ?thesis
      using serve_refusedI [OF inv] serve_movedI [OF inv] 5 by auto
  next
    case 6
    then have "t = serve_close req s" using run by (auto simp: serve_def bind_eq_Some_conv)
    then show ?thesis using serve_close_refines [OF inv 6] by simp
  next
    case 7
    then have "refused req (m_fd req) s t" using run h by (auto simp: serve_def bind_eq_Some_conv intro: refusedI)
    then show ?thesis using serve_refusedI [OF inv] 7 by simp
  qed
qed

section \<open>Refinement, reference counts and isolation\<close>

text \<open>A server with one open file, of process 5, and the same request to close it from its owner and from process 7.\<close>

definition one_open :: srvst where
  "one_open = bio.extend (bio_boot (\<lambda>_. zero_block) 1000)
     \<lparr>my_pid = 2, fsserver_pid = 2,
      ubufs = replicate UNBUF \<lparr>ub_valid = False, ub_dev = 0, ub_blockno = 0, ub_refcnt = 0, ub_data = zero_block\<rparr>,
      ulist = [0..<UNBUF],
      uinodes = \<lparr>ui_dev = 1, ui_inum = 9, ui_ref = 1, ui_type = T_FILE, ui_major = 0, ui_minor = 0, ui_nlink = 1,
          ui_size = 0, ui_addrs = replicate 13 0, ui_valid = True\<rparr>
        # replicate 31 \<lparr>ui_dev = 0, ui_inum = 0, ui_ref = 0, ui_type = 0, ui_major = 0, ui_minor = 0, ui_nlink = 0,
          ui_size = 0, ui_addrs = replicate 13 0, ui_valid = False\<rparr>,
      usb = mkfs_sb,
      fd_table = \<lparr>fe_used = True, fe_owner = 5, fe_fd = 0, fe_off = 10, fe_readable = True, fe_writable = True\<rparr>
        # replicate 63 \<lparr>fe_used = False, fe_owner = 0, fe_fd = 0, fe_off = 0, fe_readable = False, fe_writable = False\<rparr>,
      fd_inodes = Some 0 # replicate 63 None, outbox = []\<rparr>"

definition close_by :: "int \<Rightarrow> ipc_msg" where
  "close_by pid = zero_msg\<lparr>m_sender := pid, m_request_id := 3, m_type := IPC_TYPE_FS_CLOSE, m_fd := 0\<rparr>"

lemma one_open_fields [simp]:
  "fd_table one_open ! e = (if e = 0 then \<lparr>fe_used = True, fe_owner = 5, fe_fd = 0, fe_off = 10, fe_readable = True, fe_writable = True\<rparr>
     else replicate 63 \<lparr>fe_used = False, fe_owner = 0, fe_fd = 0, fe_off = 0, fe_readable = False, fe_writable = False\<rparr> ! (e - 1))"
  "fd_inodes one_open = Some 0 # replicate 63 None" "length (fd_table one_open) = MAX_REMOTE_FDS"
  "length (uinodes one_open) = UNINODE" "outbox one_open = []"
  "ui_ref (uinode_at one_open 0) = 1" "i < UNINODE \<Longrightarrow> ui_ref (uinode_at one_open i) = (if i = 0 then 1 else 0)"
  by (simp_all add: one_open_def bio.defs nth_Cons')

lemma one_open_inv: "srv_inv one_open"
  by (rule srv_invI) (auto simp: nth_Cons' split: if_splits intro!: uniqI)

lemma close_by_valid: "valid_ipc_msg (close_by pid)"
  by (simp add: close_by_def zero_msg_def valid_ipc_msg_def)

lemma serve_close_by: "serve (close_by pid) s = Some (True, serve_close (close_by pid) s)"
  by (simp add: serve_def close_by_def)

text \<open>
  C2. The server's handling of a request refines the abstract service: from a state that
  satisfies the invariant, a valid request leads to such a state again; the table of descriptors
  that clients see changes as the service allows, with the lowest free descriptor for an \<^verbatim>\<open>open\<close>,
  the offset advanced by exactly the result of a \<^verbatim>\<open>read\<close> or \<^verbatim>\<open>write\<close>, and all descriptors of a
  process that exits closed; and the sender gets one reply, with its request number and that result.
\<close>

theorem serve_refines:
  assumes "srv_inv s" "valid_ipc_msg req" "serve req s = Some (go, t)"
  shows "srv_inv t \<and> (\<exists>r. fd_service req (remote_fds s) r (remote_fds t) \<and> replied req r s t)"
  by (rule serve_refines_service [OF assms])

theorem serve_refines_witness:
  "\<exists>t r. serve (close_by 5) one_open = Some (True, t) \<and> fd_service (close_by 5) (remote_fds one_open) r (remote_fds t)
     \<and> replied (close_by 5) r one_open t"
  using serve_refines [OF one_open_inv close_by_valid serve_close_by] serve_close_by by blast

text \<open>Sequences of requests.\<close>

lemma srv_run_inv:
  "srv_inv s \<Longrightarrow> \<forall>req \<in> set reqs. valid_ipc_msg req \<Longrightarrow> srv_run reqs s = Some t \<Longrightarrow> srv_inv t"
proof (induction reqs arbitrary: s)
  case (Cons req reqs)
  then obtain go u where u: "serve req s = Some (go, u)" by (auto simp: bind_eq_Some_conv)
  have "srv_inv u" using serve_refines_service [OF _ _ u] Cons.prems by simp
  then show ?case using Cons u by (auto split: if_splits)
qed simp

lemma srv_start_inv:
  assumes "srv_start s = Some t" "length (uinodes s) = UNINODE"
    "fd_inodes s = replicate MAX_REMOTE_FDS None" "length (fd_table s) = MAX_REMOTE_FDS" "\<forall>x \<in> set (fd_table s). \<not> fe_used x"
  shows "srv_inv t"
proof -
  let ?u = "uinode_init (ubuf_init s)"
  have f: "fd_table ?u = fd_table s" "fd_inodes ?u = fd_inodes s" "uinodes ?u = map (\<lambda>ip. ip\<lparr>ui_ref := 0\<rparr>) (uinodes s)"
    by (simp_all add: uinode_init_def ubuf_init_def)
  have u: "srv_inv ?u"
    by (rule srv_invI) (use assms f in \<open>auto intro!: uniqI\<close>)
  have "keep ?u t" using postD [OF srv_readsb_keep [OF keep_refl]] assms(1) by (simp add: srv_start_def)
  then show ?thesis by (rule holding_srv_inv [OF u holding_keep [OF srv_inv_holding [OF u]]])
qed

text \<open>
  C7. Reference counts are exact and offsets in range for ever: after the start of the server and
  any sequence of requests that have passed the kernel's check, an inode's reference count is the
  number of open descriptors that have it, so none is leaked and none freed too early; no two
  referenced entries stand for the same inode; and every offset is between 0 and the largest
  file size, so that it never overflows.
\<close>

theorem srv_refcounts:
  assumes "length (uinodes s) = UNINODE" "fd_inodes s = replicate MAX_REMOTE_FDS None"
    "length (fd_table s) = MAX_REMOTE_FDS" "\<forall>x \<in> set (fd_table s). \<not> fe_used x"
    and "srv_start s = Some s1" "\<forall>req \<in> set reqs. valid_ipc_msg req" "srv_run reqs s1 = Some t"
  shows "(\<forall>i < length (uinodes t). ui_ref (uinode_at t i) = int (length (filter (\<lambda>x. x = Some i) (fd_inodes t)))) \<and> uniq t
    \<and> (\<forall>e < MAX_REMOTE_FDS. fe_used (ent_at t e) \<longrightarrow> 0 \<le> fe_off (ent_at t e) \<and> fe_off (ent_at t e) \<le> int (MAXFILE * BSIZE))"
proof -
  have inv: "srv_inv t" using srv_run_inv [OF srv_start_inv [OF assms(5,1-4)] assms(6,7)] .
  have "count (mset xs) x = length (filter (\<lambda>y. y = x) xs)" for xs and x :: "nat option"
    by (induction xs) auto
  then show ?thesis using srv_invD(3,5,7) [OF inv] by simp
qed

definition fresh_server :: srvst where
  "fresh_server = one_open\<lparr>uinodes := map (\<lambda>ip. ip\<lparr>ui_ref := 0\<rparr>) (uinodes one_open),
     fd_table := map (\<lambda>e. e\<lparr>fe_used := False\<rparr>) (fd_table one_open), fd_inodes := replicate MAX_REMOTE_FDS None\<rparr>"

lemma fresh_server_starts: "\<exists>s t. srv_start fresh_server = Some s \<and> srv_run [close_by 7] s = Some t"
proof -
  have "srv_start fresh_server \<noteq> None" by code_simp
  then show ?thesis by (auto simp: serve_close_by)
qed

theorem srv_refcounts_witness:
  "\<exists>s t. srv_start fresh_server = Some s \<and> srv_run [close_by 7] s = Some t
     \<and> (\<forall>i < length (uinodes t). ui_ref (uinode_at t i) = int (length (filter (\<lambda>x. x = Some i) (fd_inodes t))))"
proof -
  obtain s t where r: "srv_start fresh_server = Some s" "srv_run [close_by 7] s = Some t" using fresh_server_starts by blast
  show ?thesis using srv_refcounts [OF _ _ _ _ r(1) _ r(2)] r close_by_valid by (auto simp: fresh_server_def in_set_conv_nth)
qed

lemma fd_service_other:
  assumes "fd_service req T r T'" "T e = Some x" "r_owner x \<noteq> m_sender req"
  shows "T' e = Some x"
  using assms by cases auto

text \<open>
  C16. A client cannot touch the descriptors of another: during any sequence of valid requests
  from other processes, an open descriptor keeps its owner, file, offset and access rights.
\<close>

theorem fd_isolation:
  assumes "srv_inv s" "\<forall>req \<in> set reqs. valid_ipc_msg req \<and> m_sender req \<noteq> r_owner x"
    "remote_fds s e = Some x" "srv_run reqs s = Some t"
  shows "remote_fds t e = Some x"
  using assms
proof (induction reqs arbitrary: s)
  case (Cons req reqs)
  then obtain go u where u: "serve req s = Some (go, u)" by (auto simp: bind_eq_Some_conv)
  have v: "srv_inv u" and r: "\<exists>r. fd_service req (remote_fds s) r (remote_fds u)"
    using serve_refines_service [OF _ _ u] Cons.prems by auto
  have "remote_fds u e = Some x" using r fd_service_other Cons.prems(2,3) by fastforce
  then show ?case using Cons v u by (auto split: if_splits)
qed simp

theorem fd_isolation_witness:
  "\<exists>t x. srv_run [close_by 7] one_open = Some t \<and> r_owner x = 5 \<and> remote_fds one_open 0 = Some x \<and> remote_fds t 0 = Some x"
proof -
  obtain t where t: "srv_run [close_by 7] one_open = Some t" by (simp add: serve_close_by)
  obtain x where x: "remote_fds one_open 0 = Some x" "r_owner x = 5" by (simp add: remote_fds_def)
  have "\<forall>req \<in> set [close_by 7]. valid_ipc_msg req \<and> m_sender req \<noteq> r_owner x"
    using x(2) close_by_valid by (simp add: close_by_def)
  then show ?thesis using fd_isolation [OF one_open_inv _ x(1) t] t x by blast
qed

end
