(* ===== verification/Xv6_FsFile.thy ===== *)
theory Xv6_FsFile
  imports Xv6_Fs Xv6_FsSpec
begin

text \<open>
  The block allocator and the file contents of the kernel file system, against the meaning of
  the blocks: \<^verbatim>\<open>balloc\<close>, \<^verbatim>\<open>bfree\<close>, \<^verbatim>\<open>bmap\<close>, \<^verbatim>\<open>readi\<close>, \<^verbatim>\<open>writei\<close> and \<^verbatim>\<open>iupdate\<close> of \<^verbatim>\<open>fs.c\<close>.
\<close>

section \<open>Frames\<close>

text \<open>Logged updates change the buffer cache and the list of logged blocks, and nothing else.\<close>

definition log_frame :: "'a fsst_scheme \<Rightarrow> 'a fsst_scheme \<Rightarrow> bool" where
  "log_frame s t \<longleftrightarrow> bio.more t = bio.more (s\<lparr>lh := lh t\<rparr>) \<and> (\<forall>h b. holds_buf s h b \<longrightarrow> holds_buf t h b)"

lemma log_frame_fields:
  assumes "bio.more t = bio.more (s\<lparr>lh := l\<rparr>)"
  shows "icache t = icache s" "sb t = sb s" "p_cwd t = p_cwd s"
  using assms by (cases s; cases t; simp)+

lemma more_fs:
  assumes "bio.more t = bio.more (s :: 'a fsst_scheme)"
  shows "icache t = icache s" "sb t = sb s" "lh t = lh s"
  using assms by (cases s; cases t; simp)+

lemma log_frameD:
  assumes "log_frame s t"
  shows "icache t = icache s" "sb t = sb s" "holds_buf s h b \<Longrightarrow> holds_buf t h b"
  using assms log_frame_fields [of t "lh t" s] by (auto simp: log_frame_def)

lemma more_lh_trans:
  assumes "bio.more t = bio.more (s\<lparr>lh := l\<rparr>)" "bio.more u = bio.more (t\<lparr>lh := k\<rparr>)"
  shows "bio.more u = bio.more (s\<lparr>lh := k\<rparr>)"
  using assms by (cases s; cases t; cases u; simp)

lemma log_frame_trans: "log_frame s t \<Longrightarrow> log_frame t u \<Longrightarrow> log_frame s u"
  by (auto simp: log_frame_def intro: more_lh_trans)

lemma log_frame_same: "bio.more t = bio.more s \<Longrightarrow> (\<And>h b. holds_buf s h b \<Longrightarrow> holds_buf t h b) \<Longrightarrow> log_frame s t"
  by (cases s; cases t; simp add: log_frame_def)

lemma logged_update_frame:
  assumes "bio_inv s" "bread 1 b s = Some (i, s1)" "length x = BSIZE" "log_write i (set_data i x s1) = Some s2" "brelse i s2 = Some t"
  shows "bio_inv t" "bview t = (bview s)(b := x)" "log_frame s t" "b_data (buf_at s1 i) = bview s b"
  using logged_update [OF assms] bread_read(13) [OF assms(1,2)] by (simp_all add: log_frame_def)

lemma peek_frame:
  assumes "bio_inv s" "bread 1 b s = Some (i, s1)" "brelse i s1 = Some t"
  shows "bio_inv t" "bview t = bview s" "log_frame s t" "b_data (buf_at s1 i) = bview s b"
proof -
  note 1 = bread_read [OF assms(1,2)]
  have c: "bdirty s1 b \<or> bview s1 b = memdisk s1 b" using 1 by auto
  note 2 = brelse_release [OF 1(1,2) c assms(3)]
  show "bio_inv t" "bview t = bview s" "b_data (buf_at s1 i) = bview s b" using 1 2 by simp_all
  show "log_frame s t" using 1 2 by (intro log_frame_same) auto
qed

section \<open>The block allocator\<close>

lemma bzero_post:
  assumes "bio_inv s" "bzero 1 b s = Some t"
  shows "bio_inv t" "bview t = (bview s)(b := zero_block)" "log_frame s t"
proof -
  obtain i s1 s2 where r: "bread 1 b s = Some (i, s1)" "log_write i (set_data i zero_block s1) = Some s2" "brelse i s2 = Some t"
    using assms(2) by (auto simp: bzero_def bind_eq_Some_conv Let_def)
  show "bio_inv t" "bview t = (bview s)(b := zero_block)" "log_frame s t"
    using logged_update_frame [OF assms(1) r(1) _ r(2,3)] by simp_all
qed

lemma unat_of_nat_u32: "n < 2 ^ 32 \<Longrightarrow> unat (of_nat n :: u32) = n"
  by (simp add: unat_of_nat take_bit_nat_eq_self)

lemma find_free_bitD:
  assumes "find_free_bit sz b blk = Some bi"
  shows "bm_free bi blk" "bi < BPB" "b + bi < sz"
  using assms unfolding find_free_bit_def by (auto simp: find_Some_iff)

lemma balloc_scan_post:
  assumes "bio_inv s" "sb_ok (sb s)" "meta_allocated (sb s) (bview s)" "\<forall>k \<in> set bs. BPB dvd k"
    and "balloc_scan 1 bs s = Some (b, t)"
  shows "data_block (sb s) b \<and> \<not> allocated (sb s) (bview s) b \<and> bio_inv t
    \<and> bview t = alloc_block (sb s) (bview s) b \<and> log_frame s t"
  using assms
proof (induction bs arbitrary: s)
  case (Cons k bs)
  obtain i s1 where rd: "bread 1 (BBLOCK (of_nat k) (sb s)) s = Some (i, s1)"
    using Cons.prems(5) by (auto simp: bind_eq_Some_conv)
  have d1: "b_data (buf_at s1 i) = bview s (BBLOCK (of_nat k) (sb s))" "bio.more s1 = bio.more s"
    using bread_read [OF Cons.prems(1) rd] by simp_all
  then have sb1: "sb s1 = sb s" using more_fs(2) by blast
  show ?case
  proof (cases "find_free_bit (unat (sb_size (sb s))) k (bview s (BBLOCK (of_nat k) (sb s)))")
    case None
    then obtain s2 where s2: "brelse i s1 = Some s2" "balloc_scan 1 bs s2 = Some (b, t)"
      using Cons.prems(5) rd d1 sb1 by (auto simp: bind_eq_Some_conv)
    note P = peek_frame [OF Cons.prems(1) rd s2(1)]
    have "data_block (sb s2) b \<and> \<not> allocated (sb s2) (bview s2) b \<and> bio_inv t
      \<and> bview t = alloc_block (sb s2) (bview s2) b \<and> log_frame s2 t"
      by (rule Cons.IH) (use P log_frameD [OF P(3)] Cons.prems s2 in auto)
    then show ?thesis using P log_frameD(2) [OF P(3)] log_frame_trans by auto
  next
    case (Some bi)
    note F = find_free_bitD [OF Some]
    let ?v = "bview s" and ?b = "of_nat (k + bi) :: u32"
    have kb: "unat ?b = k + bi" using F(3) unat_less_u32 [of "sb_size (sb s)"] by (intro unat_of_nat_u32) simp
    have kk: "unat (of_nat k :: u32) = k" using F(3) unat_less_u32 [of "sb_size (sb s)"] by (intro unat_of_nat_u32) simp
    obtain m where m: "k = BPB * m" using Cons.prems(4) by (auto elim: dvdE)
    have BB: "BBLOCK (of_nat k) (sb s) = BBLOCK ?b (sb s)"
    proof -
      have "unat (of_nat k div (4096 :: u32)) = unat (?b div 4096)" using kb kk m F(2) by (simp add: unat_div)
      then show ?thesis by (simp add: BBLOCK_def unsigned_word_eqI)
    qed
    have bit: "unat ?b mod BPB = bi" using kb m F(2) by simp
    obtain s2 s3 s4 where r: "log_write i (set_data i (bm_set bi (bview s (BBLOCK ?b (sb s)))) s1) = Some s2"
        "brelse i s2 = Some s3" "bzero 1 ?b s3 = Some s4" "b = ?b" "t = s4"
      using Cons.prems(5) rd d1 sb1 Some BB by (auto simp: bind_eq_Some_conv Let_def)
    have len: "length (bm_set bi (bview s (BBLOCK ?b (sb s)))) = BSIZE" using length_bview [OF Cons.prems(1)] by simp
    note U = logged_update_frame [OF Cons.prems(1) rd [unfolded BB] len r(1,2)]
    note Z = bzero_post [OF U(1) r(3)]
    have free: "\<not> allocated (sb s) ?v ?b" using F(1) BB bit by (simp add: allocated_def)
    then have "data_block (sb s) ?b" using Cons.prems(3) F(3) kb unfolding meta_allocated_def by metis
    moreover have "bview t = alloc_block (sb s) ?v ?b" using U(2) Z(2) r(5) bit by (simp add: alloc_block_def)
    ultimately show ?thesis using free Z U r log_frame_trans by blast
  qed
qed (simp add: panic_def)

lemma balloc_post:
  assumes "bio_inv s" "sb_ok (sb s)" "meta_allocated (sb s) (bview s)" "balloc 1 s = Some (b, t)"
  shows "data_block (sb s) b" "\<not> allocated (sb s) (bview s) b" "bio_inv t"
    "bview t = alloc_block (sb s) (bview s) b" "log_frame s t"
  using balloc_scan_post [OF assms(1-3), of "bitmap_starts (unat (sb_size (sb s)))"] assms(4)
  by (auto simp: balloc_def bitmap_starts_def)

text \<open>Storing into a block that is already held, and releasing it.\<close>

lemma held_update:
  assumes inv: "bio_inv s" and h: "holds_buf s i b" and len: "length x = BSIZE"
    and w: "log_write i (set_data i x s) = Some s2" and rl: "brelse i s2 = Some t"
  shows "bio_inv t" "bview t = (bview s)(b := x)" "icache t = icache s" "sb t = sb s"
    "\<And>g c. g \<noteq> i \<Longrightarrow> holds_buf s g c \<Longrightarrow> holds_buf t g c" "bio.more t = bio.more (s\<lparr>lh := lh t\<rparr>)"
proof -
  note 2 = set_data_post [OF inv h len]
  have h2: "holds_buf (set_data i x s) i b" using h 2(9) by simp
  note 3 = log_write_post [OF 2(1) h2 w]
  have h3: "holds_buf s2 i b" "bdirty s2 b \<or> bview s2 b = memdisk s2 b" using h2 3(6,8) by auto
  note 4 = brelse_release [OF 3(1) h3 rl]
  show "bio_inv t" "bview t = (bview s)(b := x)" using 2 3 4 by simp_all
  have "lh t = lh s2" using more_log(4) [OF 4(6)] .
  then show m: "bio.more t = bio.more (s\<lparr>lh := lh t\<rparr>)" using 4(6) 3(10) more_upd_lh [OF 2(6)] by simp
  show "icache t = icache s" "sb t = sb s" using log_frame_fields [OF m] by simp_all
  show "holds_buf t g c" if "g \<noteq> i" "holds_buf s g c" for g c using that 2(9) 3(8) 4(9) by simp
qed

lemma held_release:
  assumes inv: "bio_inv s" and h: "holds_buf s i b" and c: "bdirty s b \<or> bview s b = memdisk s b" and rl: "brelse i s = Some t"
  shows "bio_inv t" "bview t = bview s" "icache t = icache s" "sb t = sb s"
    "\<And>g c. g \<noteq> i \<Longrightarrow> holds_buf s g c \<Longrightarrow> holds_buf t g c" "bio.more t = bio.more s"
proof -
  note 4 = brelse_release [OF inv h c rl]
  show "bio_inv t" "bview t = bview s" "bio.more t = bio.more s" using 4 by simp_all
  then show "icache t = icache s" "sb t = sb s" using more_fs by blast+
  show "holds_buf t g c" if "g \<noteq> i" "holds_buf s g c" for g c using that 4(9) by simp
qed

section \<open>The blocks of a file\<close>

abbreviation addrs :: "'a fsst_scheme \<Rightarrow> nat \<Rightarrow> u32 list" where
  "addrs s i \<equiv> i_addrs (inode_at s i)"

definition file_inv :: "nat \<Rightarrow> 'a fsst_scheme \<Rightarrow> bool" where
  "file_inv i s \<longleftrightarrow> bio_inv s \<and> sb_ok (sb s) \<and> i < length (icache s) \<and> i_dev (inode_at s i) = 1
     \<and> file_ok (sb s) (bview s) (addrs s i) \<and> meta_allocated (sb s) (bview s)"

text \<open>The file may have got more blocks; everything else is as it was, the bytes of the file included.\<close>

definition same_inodes :: "nat \<Rightarrow> 'a fsst_scheme \<Rightarrow> 'a fsst_scheme \<Rightarrow> bool" where
  "same_inodes i s t \<longleftrightarrow> length (icache t) = length (icache s) \<and> (\<forall>j. j \<noteq> i \<longrightarrow> inode_at t j = inode_at s j)
     \<and> (inode_at t i)\<lparr>i_addrs := []\<rparr> = (inode_at s i)\<lparr>i_addrs := []\<rparr>"

definition file_grows :: "nat \<Rightarrow> 'a fsst_scheme \<Rightarrow> 'a fsst_scheme \<Rightarrow> bool" where
  "file_grows i s t \<longleftrightarrow> file_inv i t \<and> evolves (sb s) (bview s) (addrs s i) (bview t) (addrs t i)
     \<and> sb t = sb s \<and> same_inodes i s t
     \<and> (\<forall>h b. holds_buf s h b \<longrightarrow> holds_buf t h b)"

definition same_bytes :: "nat \<Rightarrow> 'a fsst_scheme \<Rightarrow> 'a fsst_scheme \<Rightarrow> bool" where
  "same_bytes i s t \<longleftrightarrow> (\<forall>x < MAXFILE * BSIZE. file_byte (bview t) (addrs t i) x = file_byte (bview s) (addrs s i) x)"

lemma file_invD:
  assumes "file_inv i s"
  shows "bio_inv s" "sb_ok (sb s)" "i < length (icache s)" "i_dev (inode_at s i) = 1"
    "file_ok (sb s) (bview s) (addrs s i)" "meta_allocated (sb s) (bview s)"
  using assms by (simp_all add: file_inv_def)

lemma same_inodes_trans: "same_inodes i s t \<Longrightarrow> same_inodes i t u \<Longrightarrow> same_inodes i s u"
  by (simp add: same_inodes_def)

lemma same_inodesD:
  assumes "same_inodes i s t"
  shows "length (icache t) = length (icache s)" "j \<noteq> i \<Longrightarrow> inode_at t j = inode_at s j"
    "i_dev (inode_at t i) = i_dev (inode_at s i)" "i_inum (inode_at t i) = i_inum (inode_at s i)"
    "i_ref (inode_at t i) = i_ref (inode_at s i)" "i_type (inode_at t i) = i_type (inode_at s i)"
    "i_size (inode_at t i) = i_size (inode_at s i)" "i_major (inode_at t i) = i_major (inode_at s i)"
    "i_minor (inode_at t i) = i_minor (inode_at s i)" "i_nlink (inode_at t i) = i_nlink (inode_at s i)"
    "i_valid (inode_at t i) = i_valid (inode_at s i)" "i_locked (inode_at t i) = i_locked (inode_at s i)"
  using assms unfolding same_inodes_def by (cases "inode_at s i"; cases "inode_at t i"; simp)+

lemma file_grows_refl: "file_inv i s \<Longrightarrow> file_grows i s s"
  by (simp add: file_grows_def evolves_refl file_inv_def same_inodes_def)

lemma file_grows_trans:
  assumes "file_grows i s t" "file_grows i t u" "file_inv i s"
  shows "file_grows i s u"
  using assms evolves_trans [of "sb s" "bview s" "addrs s i" "bview t" "addrs t i" "bview u" "addrs u i"]
  by (auto simp: file_grows_def file_inv_def intro: same_inodes_trans)

lemma same_bytes_trans: "same_bytes i s t \<Longrightarrow> same_bytes i t u \<Longrightarrow> same_bytes i s u"
  by (simp add: same_bytes_def)

text \<open>A new block has been hooked in.\<close>

lemma file_growsI:
  assumes "file_inv i s" "bio_inv t" "sb t = sb s" "icache t = (icache s)[i := (inode_at s i)\<lparr>i_addrs := A\<rparr>]"
    "evolves (sb s) (bview s) (addrs s i) (bview t) A" "\<And>h b. holds_buf s h b \<Longrightarrow> holds_buf t h b"
  shows "file_grows i s t" "addrs t i = A"
proof -
  note I = file_invD [OF assms(1)]
  show A: "addrs t i = A" using assms(4) I(3) by simp
  have "same_inodes i s t" "i_dev (inode_at t i) = 1" using assms(4) I(3,4) by (simp_all add: same_inodes_def)
  then show "file_grows i s t" using assms I A by (auto simp: file_grows_def file_inv_def evolves_def)
qed

lemma inode_upd: "i < length (icache s) \<Longrightarrow> inode_at (upd_inode i f s) i = f (inode_at s i)"
  by (simp add: upd_inode_def)

lemma length_upd_inode [simp]: "length (icache (upd_inode i f s)) = length (icache s)"
  by (simp add: upd_inode_def)

lemma bio_upd_inode [simp]:
  "bio_inv (upd_inode i f s) = bio_inv s" "bview (upd_inode i f s) = bview s" "holds_buf (upd_inode i f s) = holds_buf s"
  "sb (upd_inode i f s) = sb s" "disksize (upd_inode i f s) = disksize s" "memdisk (upd_inode i f s) = memdisk s"
  by (unfold upd_inode_def) ((rule bio_cong; simp) | simp)+

lemma balloc_hook:
  assumes inv: "file_inv i s" and al: "balloc 1 s = Some (b, s1)"
    and t: "t = upd_inode i (\<lambda>ip. ip\<lparr>i_addrs := (i_addrs ip)[k := b]\<rparr>) s1"
    and k: "k \<le> NDIRECT" "addrs s i ! k = 0"
  shows "file_grows i s t" "same_bytes i s t" "addrs t i ! k = b" "b \<noteq> 0"
proof -
  note I = file_invD [OF inv]
  note B = balloc_post [OF I(1,2,6) al]
  note F = log_frameD [OF B(5)]
  let ?A = "(addrs s i)[k := b]"
  have len: "length (bview s (BBLOCK b (sb s))) = BSIZE" by (rule length_bview [OF I(1)])
  have E: "evolves (sb s) (bview s) (addrs s i) (bview t) ?A"
    "x < MAXFILE * BSIZE \<Longrightarrow> file_byte (bview t) ?A x = file_byte (bview s) (addrs s i) x" for x
    using hook_direct(1,2) [OF I(2,5,6) B(1,2) len, of k] hook_indirect_block(1,2) [OF I(2,5,6) B(1,2) len] k B(4)
    by (cases "k = NDIRECT"; simp add: t)+
  have G: "icache t = (icache s)[i := (inode_at s i)\<lparr>i_addrs := ?A\<rparr>]" using F(1) by (simp add: t upd_inode_def)
  note R = file_growsI [OF inv _ _ G E(1)]
  show g: "file_grows i s t" by (rule R(1)) (use B(3) F in \<open>simp_all add: t\<close>)
  have a: "addrs t i = ?A" using G I(3) by simp
  show "same_bytes i s t" using E(2) by (simp add: same_bytes_def a)
  show "addrs t i ! k = b" using a k(1) file_okD(1) [OF I(5)] by simp
  show "b \<noteq> 0" by (rule data_block_nonzero [OF B(1)])
qed

lemma bmap_indirect:
  assumes inv: "file_inv i s" and ind: "addrs s i ! NDIRECT \<noteq> 0" and k: "k < NINDIRECT"
    and rd: "bread 1 (addrs s i ! NDIRECT) s = Some (bp, s1)"
    and upd: "(if get_addr k (b_data (buf_at s1 bp)) = 0 then do {
             (addr, s) \<leftarrow> balloc (i_dev (inode_at s1 i)) s1;
             let s = set_data bp (put_addr k addr (b_data (buf_at s bp))) s;
             s \<leftarrow> log_write bp s;
             Some (addr, s)
           } else Some (get_addr k (b_data (buf_at s1 bp)), s1)) = Some (b, s2)"
    and rl: "brelse bp s2 = Some t"
  shows "file_grows i s t" "same_bytes i s t" "slot (bview t) (addrs t i) (NDIRECT + k) = b" "b \<noteq> 0"
proof -
  note I = file_invD [OF inv] and 1 = bread_read [OF file_invD(1) [OF inv] rd]
  let ?A = "addrs s i" and ?v = "bview s"
  have c1: "icache s1 = icache s" "sb s1 = sb s" using more_fs [OF 1(7)] by simp_all
  have "file_grows i s t \<and> same_bytes i s t \<and> slot (bview t) (addrs t i) (NDIRECT + k) = b \<and> b \<noteq> 0"
  proof (cases "get_addr k (?v (?A ! NDIRECT)) = 0")
    case False
    then have 2: "b = get_addr k (?v (?A ! NDIRECT))" "s2 = s1" using upd 1(13) by (simp_all split: if_splits)
    have "bdirty s1 (?A ! NDIRECT) \<or> bview s1 (?A ! NDIRECT) = memdisk s1 (?A ! NDIRECT)" using 1 by auto
    note R = held_release [OF 1(1,2) this rl [unfolded 2(2)]]
    have t: "bview t = ?v" "icache t = icache s" "sb t = sb s" "holds_buf s g c \<Longrightarrow> holds_buf t g c" for g c
      using R 1 c1 by auto
    have "file_inv i t" using I t R(1) by (simp add: file_inv_def)
    then show ?thesis
      using I t False 2(1) k ind by (auto simp: file_grows_def same_bytes_def same_inodes_def evolves_refl slot_simps)
  next
    case True
    then obtain s1' where al: "balloc 1 s1 = Some (b, s1')"
      and w: "log_write bp (set_data bp (put_addr k b (b_data (buf_at s1' bp))) s1') = Some s2"
      using upd 1(13) c1 I(4) by (auto simp: bind_eq_Some_conv Let_def)
    note B = balloc_post [where s = s1, unfolded c1(2) 1(3), OF 1(1) I(2,6) al]
    note F = log_frameD [OF B(5)]
    have h: "holds_buf s1' bp (?A ! NDIRECT)" by (rule F(3) [OF 1(2)])
    have ind': "alloc_block (sb s) ?v b (?A ! NDIRECT) = ?v (?A ! NDIRECT)"
      using alloc_keeps_indirect(1) [OF I(2,5) B(1,2) ind] .
    have d: "b_data (buf_at s1' bp) = ?v (?A ! NDIRECT)" using bview_holds [OF B(3) h] B(4) ind' by simp
    have len: "length (?v c) = BSIZE" for c by (rule length_bview [OF I(1)])
    note U = held_update [OF B(3) h _ w rl, unfolded d, OF length_put_addr [OF k len]]
    have v: "bview t = (alloc_block (sb s) ?v b)(?A ! NDIRECT := put_addr k b (?v (?A ! NDIRECT)))" using U(2) B(4) by simp
    note H = hook_indirect [OF I(2,5,6) B(1,2) len len k ind True, folded v]
    have ic: "icache t = icache s" "sb t = sb s" using U(3,4) F(1,2) c1 by simp_all
    have G: "file_grows i s t"
      by (rule file_growsI(1) [where A = ?A, OF inv U(1) ic(2) _ H(1)])
        (use ic 1(10,11) F(3) U(5) in auto)
    have "same_bytes i s t" using H(2) ic by (simp add: same_bytes_def)
    moreover have "b \<noteq> 0" by (rule data_block_nonzero [OF B(1)])
    ultimately show ?thesis using G H(3) ic by simp
  qed
  then show "file_grows i s t" "same_bytes i s t" "slot (bview t) (addrs t i) (NDIRECT + k) = b" "b \<noteq> 0" by simp_all
qed

lemma bmap_post:
  assumes inv: "file_inv i s" and run: "bmap i bn s = Some (b, t)"
  shows "file_grows i s t" "same_bytes i s t" "slot (bview t) (addrs t i) bn = b" "b \<noteq> 0" "bn < MAXFILE"
proof -
  note I = file_invD [OF inv]
  have "file_grows i s t \<and> same_bytes i s t \<and> slot (bview t) (addrs t i) bn = b \<and> b \<noteq> 0 \<and> bn < MAXFILE"
  proof (cases "bn < NDIRECT")
    case True
    show ?thesis
    proof (cases "addrs s i ! bn = 0")
      case z: True
      then obtain s1 where "balloc 1 s = Some (b, s1)" "t = upd_inode i (\<lambda>ip. ip\<lparr>i_addrs := (i_addrs ip)[bn := b]\<rparr>) s1"
        using run True I(4) by (auto simp: bmap_def Let_def bind_eq_Some_conv)
      note H = balloc_hook [OF inv this _ z]
      show ?thesis using H True by (simp add: slot_simps)
    next
      case False
      then show ?thesis using run True inv by (auto simp: bmap_def Let_def slot_simps file_grows_refl same_bytes_def)
    qed
  next
    case False
    then have k: "bn - NDIRECT < NINDIRECT" using run by (auto simp: bmap_def panic_def split: if_splits)
    obtain a s1 bp s2 s3 where
      al: "(if addrs s i ! NDIRECT = 0 then do {
             (addr, s) \<leftarrow> balloc (i_dev (inode_at s i)) s;
             Some (addr, upd_inode i (\<lambda>ip. ip\<lparr>i_addrs := (i_addrs ip)[NDIRECT := addr]\<rparr>) s)
           } else Some (addrs s i ! NDIRECT, s)) = Some (a, s1)"
      and rd: "bread (i_dev (inode_at s1 i)) a s1 = Some (bp, s2)"
      and upd: "(if get_addr (bn - NDIRECT) (b_data (buf_at s2 bp)) = 0 then do {
             (addr, s) \<leftarrow> balloc (i_dev (inode_at s2 i)) s2;
             let s = set_data bp (put_addr (bn - NDIRECT) addr (b_data (buf_at s bp))) s;
             s \<leftarrow> log_write bp s;
             Some (addr, s)
           } else Some (get_addr (bn - NDIRECT) (b_data (buf_at s2 bp)), s2)) = Some (b, s3)"
      and rl: "brelse bp s3 = Some t"
      using run False k by (auto simp: bmap_def Let_def bind_eq_Some_conv)
    have 1: "file_grows i s s1 \<and> same_bytes i s s1 \<and> addrs s1 i ! NDIRECT = a \<and> a \<noteq> 0"
    proof (cases "addrs s i ! NDIRECT = 0")
      case z: True
      then obtain s0 where "balloc 1 s = Some (a, s0)" "s1 = upd_inode i (\<lambda>ip. ip\<lparr>i_addrs := (i_addrs ip)[NDIRECT := a]\<rparr>) s0"
        using al I(4) by (auto simp: bind_eq_Some_conv)
      note H = balloc_hook [OF inv this _ z]
      then show ?thesis by simp
    next
      case False
      then show ?thesis using al inv by (auto simp: file_grows_refl same_bytes_def)
    qed
    then have inv1: "file_inv i s1" by (simp add: file_grows_def)
    have 2: "file_grows i s1 t" "same_bytes i s1 t" "slot (bview t) (addrs t i) (NDIRECT + (bn - NDIRECT)) = b" "b \<noteq> 0"
      using bmap_indirect [OF inv1 _ k _ upd rl] 1 rd file_invD(4) [OF inv1] by auto
    show ?thesis using 1 2 k False file_grows_trans [OF _ 2(1) inv] same_bytes_trans [OF _ 2(2)] by auto
  qed
  then show "file_grows i s t" "same_bytes i s t" "slot (bview t) (addrs t i) bn = b" "b \<noteq> 0" "bn < MAXFILE" by simp_all
qed

section \<open>Reading and writing\<close>

lemma file_grows_inv: "file_grows i s t \<Longrightarrow> file_inv i t"
  by (simp add: file_grows_def)

lemma file_grows_dev: "file_inv i s \<Longrightarrow> i_dev (inode_at s i) = 1"
  by (simp add: file_inv_def)

text \<open>Looking at a block and releasing it.\<close>

lemma file_peek:
  assumes inv: "file_inv i s" and rd: "bread 1 b s = Some (h, s1)" and rl: "brelse h s1 = Some t"
  shows "file_grows i s t" "same_bytes i s t" "b_data (buf_at s1 h) = bview s b" "addrs t i = addrs s i" "bview t = bview s"
proof -
  note I = file_invD [OF inv]
  note P = peek_frame [OF I(1) rd rl]
  note F = log_frameD [OF P(3)]
  have "file_inv i t" using I P F by (simp add: file_inv_def)
  then show "file_grows i s t" "same_bytes i s t" "b_data (buf_at s1 h) = bview s b" "addrs t i = addrs s i" "bview t = bview s"
    using P F I by (auto simp: file_grows_def same_bytes_def same_inodes_def evolves_refl)
qed

lemma readi_loop_post:
  assumes "file_inv i s" "readi_loop i off n s = Some (bs, t)"
  shows "file_grows i s t \<and> same_bytes i s t \<and> bs = map (file_byte (bview s) (addrs s i)) [off..<off + n]
    \<and> (n = 0 \<or> off + n \<le> MAXFILE * BSIZE)"
  using assms
proof (induction n arbitrary: off s bs t rule: less_induct)
  case (less n)
  show ?case
  proof (cases "n = 0")
    case True
    then show ?thesis using less.prems by (simp add: readi_loop.simps file_grows_refl same_bytes_def)
  next
    case False
    let ?m = "min n (BSIZE - off mod BSIZE)"
    obtain addr s1 bp s2 s3 cs where
      mp: "bmap i (off div BSIZE) s = Some (addr, s1)" and rd: "bread (i_dev (inode_at s1 i)) addr s1 = Some (bp, s2)"
      and rl: "brelse bp s2 = Some s3" and rec: "readi_loop i (off + ?m) (n - ?m) s3 = Some (cs, t)"
      and bs: "bs = cut (off mod BSIZE) ?m (b_data (buf_at s2 bp)) @ cs"
      using less.prems(2) False by (subst (asm) readi_loop.simps) (auto simp: bind_eq_Some_conv Let_def)
    note M = bmap_post [OF less.prems(1) mp] and inv1 = file_grows_inv [OF bmap_post(1) [OF less.prems(1) mp]]
    note P = file_peek [OF inv1 rd [unfolded file_grows_dev [OF inv1]] rl]
    have sb: "same_bytes i s s3" by (rule same_bytes_trans [OF M(2) P(2)])
    have m: "0 < ?m" using False by simp
    note R = less.IH [OF _ file_grows_inv [OF P(1)] rec]
    have R': "file_grows i s3 t" "same_bytes i s3 t" "cs = map (file_byte (bview s3) (addrs s3 i)) [off + ?m..<off + n]"
      "n = ?m \<or> off + n \<le> MAXFILE * BSIZE"
      using R m False by (auto simp: min_def split: if_splits)
    have bnd: "off + ?m \<le> MAXFILE * BSIZE" by (rule block_end [OF M(5)])
    then have all: "off + n \<le> MAXFILE * BSIZE" using R'(4) by auto
    have "cut (off mod BSIZE) ?m (b_data (buf_at s2 bp)) = map (file_byte (bview s1) (addrs s1 i)) [off..<off + ?m]"
      using file_bytes_chunk [of "bview s1" "addrs s1 i" off ?m] M(3,4) P(3) length_bview [OF file_invD(1) [OF inv1]] by simp
    also have "\<dots> = map (file_byte (bview s) (addrs s i)) [off..<off + ?m]"
      using M(2) bnd by (simp add: same_bytes_def)
    finally have "bs = map (file_byte (bview s) (addrs s i)) [off..<off + ?m] @ map (file_byte (bview s) (addrs s i)) [off + ?m..<off + n]"
      using bs R'(3) sb all by (auto simp: same_bytes_def)
    moreover have "[off..<off + n] = [off..<off + ?m] @ [off + ?m..<off + n]"
      using upt_add_eq_append [of off "off + ?m" "n - ?m"] by simp
    ultimately have "bs = map (file_byte (bview s) (addrs s i)) [off..<off + n]" by simp
    then show ?thesis
      using file_grows_trans [OF file_grows_trans [OF M(1) P(1) less.prems(1)] R'(1) less.prems(1)] same_bytes_trans [OF sb R'(2)] all by simp
  qed
qed

text \<open>Overwriting a part of a block of the file.\<close>

lemma file_store:
  assumes inv: "file_inv i s" and k: "off div BSIZE < MAXFILE" "slot (bview s) (addrs s i) (off div BSIZE) = b" "b \<noteq> 0"
    and rd: "bread 1 b s = Some (h, s1)" and m: "length bs \<le> BSIZE - off mod BSIZE"
    and w: "log_write h (set_data h (blit (off mod BSIZE) bs (b_data (buf_at s1 h))) s1) = Some s2" and rl: "brelse h s2 = Some t"
  shows "file_grows i s t" "x < MAXFILE * BSIZE \<Longrightarrow> file_byte (bview t) (addrs t i) x =
      (if off \<le> x \<and> x < off + length bs then bs ! (x - off) else file_byte (bview s) (addrs s i) x)"
    "log_frame s t" "slot (bview t) (addrs t i) j = slot (bview s) (addrs s i) j"
proof -
  note I = file_invD [OF inv]
  have d: "b_data (buf_at s1 h) = bview s b" using bread_read(13) [OF I(1) rd] .
  have l: "off mod BSIZE + length bs \<le> BSIZE" using m by (simp add: le_diff_conv2 add.commute)
  have len: "length (blit (off mod BSIZE) bs (bview s b)) = BSIZE" using l length_bview [OF I(1)] by simp
  note U = logged_update_frame [OF I(1) rd len w [unfolded d] rl]
  note F = log_frameD [OF U(3)]
  note O = overwrite [OF I(2,5,6) k(1) _ len, unfolded k(2), OF k(3), folded U(2)]
  show "file_grows i s t"
    by (rule file_growsI(1) [where A = "addrs s i", OF inv U(1) F(2) _ O(1) F(3)]) (use F(1) in simp)
  show "file_byte (bview t) (addrs t i) x =
      (if off \<le> x \<and> x < off + length bs then bs ! (x - off) else file_byte (bview s) (addrs s i) x)" if x: "x < MAXFILE * BSIZE"
  proof (cases "x div BSIZE = off div BSIZE")
    case True
    have "file_byte (bview t) (addrs t i) x = blit (off mod BSIZE) bs (bview s b) ! (x mod BSIZE)"
      using O(2) [OF x] True F(1) by simp
    also have "\<dots> = (if off \<le> x \<and> x < off + length bs then bs ! (x - off) else file_byte (bview s) (addrs s i) x)"
      using file_byte_blit [of "bview s" "addrs s i" off bs x] k length_bview [OF I(1)] m True by simp
    finally show ?thesis .
  next
    case False
    have "\<not> (off \<le> x \<and> x < off + length bs)"
    proof
      assume a: "off \<le> x \<and> x < off + length bs"
      then have "x - off < BSIZE - off mod BSIZE" using m by linarith
      then show False using chunk_div(1) [of "x - off" off] a False by simp
    qed
    then show ?thesis using O(2) [OF x] False F(1) by auto
  qed
  show "log_frame s t" by (rule U(3))
  show "slot (bview t) (addrs t i) j = slot (bview s) (addrs s i) j" using O(3) F(1) by simp
qed

lemma writei_loop_post:
  assumes "file_inv i s" "writei_loop i off src s = Some t"
  shows "file_grows i s t \<and> (\<forall>x < MAXFILE * BSIZE. file_byte (bview t) (addrs t i) x =
      (if off \<le> x \<and> x < off + length src then src ! (x - off) else file_byte (bview s) (addrs s i) x))"
  using assms
proof (induction "length src" arbitrary: off src s rule: less_induct)
  case less
  show ?case
  proof (cases "src = []")
    case True
    then show ?thesis using less.prems by (auto simp: writei_loop.simps file_grows_refl)
  next
    case False
    let ?m = "min (length src) (BSIZE - off mod BSIZE)"
    obtain addr s1 bp s2 s3 s4 where
      mp: "bmap i (off div BSIZE) s = Some (addr, s1)" and rd: "bread (i_dev (inode_at s1 i)) addr s1 = Some (bp, s2)"
      and w: "log_write bp (set_data bp (blit (off mod BSIZE) (take ?m src) (b_data (buf_at s2 bp))) s2) = Some s3"
      and rl: "brelse bp s3 = Some s4" and rec: "writei_loop i (off + ?m) (drop ?m src) s4 = Some t"
      using less.prems(2) False by (subst (asm) writei_loop.simps) (auto simp: bind_eq_Some_conv Let_def)
    note M = bmap_post [OF less.prems(1) mp]
    note inv1 = file_grows_inv [OF M(1)]
    note S = file_store [OF inv1 M(5,3,4) rd [unfolded file_grows_dev [OF inv1]] _ w rl]
    have lt: "length (drop ?m src) < length src" using False by simp
    note R = less.hyps [OF lt file_grows_inv [OF S(1)] rec]
    have g: "file_grows i s t"
      using file_grows_trans [OF file_grows_trans [OF M(1) S(1) less.prems(1)] _ less.prems(1)] R by simp
    have "file_byte (bview t) (addrs t i) x =
      (if off \<le> x \<and> x < off + length src then src ! (x - off) else file_byte (bview s) (addrs s i) x)" if x: "x < MAXFILE * BSIZE" for x
    proof -
      have tk: "take ?m src ! (x - off) = src ! (x - off)" if "off \<le> x" "x < off + ?m"
        by (rule nth_take) (use that in linarith)
      have 1: "file_byte (bview s4) (addrs s4 i) x =
        (if off \<le> x \<and> x < off + ?m then src ! (x - off) else file_byte (bview s) (addrs s i) x)"
        using S(2) [OF _ x] M(2) x tk by (auto simp: same_bytes_def)
      have 2: "file_byte (bview t) (addrs t i) x =
        (if off + ?m \<le> x \<and> x < off + ?m + (length src - ?m) then drop ?m src ! (x - (off + ?m)) else file_byte (bview s4) (addrs s4 i) x)"
        using R x by simp
      show ?thesis
      proof (cases "off + ?m \<le> x \<and> x < off + length src")
        case True
        then have "drop ?m src ! (x - (off + ?m)) = src ! (x - off)" by simp
        then show ?thesis using 2 True by auto
      next
        case False
        then show ?thesis using 1 2 by auto
      qed
    qed
    then show ?thesis using g by blast
  qed
qed

text \<open>\<^verbatim>\<open>iupdate\<close> writes the cached inode into its block, and leaves all files alone.\<close>

lemma iupdate_post:
  assumes inv: "file_inv i s" and inum: "unat (i_inum (inode_at s i)) < unat (sb_ninodes (sb s))" and run: "iupdate i s = Some t"
  shows "file_inv i t" "same_bytes i s t" "icache t = icache s" "log_frame s t"
    "bview t = (bview s)(IBLOCK (i_inum (inode_at s i)) (sb s) :=
      put_dinode (unat (i_inum (inode_at s i)) mod IPB) (to_dinode (inode_at s i)) (bview s (IBLOCK (i_inum (inode_at s i)) (sb s))))"
    (is "_ = (bview s)(?b := ?d)")
proof -
  note I = file_invD [OF inv]
  obtain h s1 s2 where rd: "bread 1 ?b s = Some (h, s1)"
      and w: "log_write h (set_data h (put_dinode (unat (i_inum (inode_at s i)) mod IPB) (to_dinode (inode_at s i)) (b_data (buf_at s1 h))) s1) = Some s2"
      and rl: "brelse h s2 = Some t"
    using run I(4) by (auto simp: iupdate_def bind_eq_Some_conv Let_def)
  have d: "b_data (buf_at s1 h) = bview s ?b" using bread_read(13) [OF I(1) rd] .
  have len: "length ?d = BSIZE" using length_bview [OF I(1)] file_okD(1) [OF I(5)] by (simp add: to_dinode_def)
  note U = logged_update_frame [OF I(1) rd len w [unfolded d] rl]
  note F = log_frameD [OF U(3)]
  note N = IBLOCK_not_data [OF I(2) inum]
  note O = other_block [where y = ?d, OF I(2,5) N]
  show v: "bview t = (bview s)(?b := ?d)" and "log_frame s t" "icache t = icache s" using U F by simp_all
  show "file_inv i t" using I U(1) F(1,2) O(1,3) by (simp add: file_inv_def v meta_allocated_def)
  show "same_bytes i s t" using O(4) F(1) by (simp add: same_bytes_def v)
qed

lemma iupdate_dinode:
  assumes "file_inv i s" "unat (i_inum (inode_at s i)) < unat (sb_ninodes (sb s))" "iupdate i s = Some t"
  shows "get_dinode (unat (i_inum (inode_at s i)) mod IPB) (bview t (IBLOCK (i_inum (inode_at s i)) (sb s))) = to_dinode (inode_at s i)"
  unfolding iupdate_post(5) [OF assms]
  using get_put_dinode_same [of "unat (i_inum (inode_at s i)) mod IPB" "to_dinode (inode_at s i)"]
    file_okD(1) [OF file_invD(5) [OF assms(1)]] length_bview [OF file_invD(1) [OF assms(1)]]
  by (simp add: to_dinode_def)

lemma readi_post:
  assumes inv: "file_inv i s" and ty: "i_type (inode_at s i) \<noteq> T_DEV" and run: "readi i off n s = Some ((r, bs), t)"
  shows "if off > i_size (inode_at s i) \<or> off + n < off then r = -1 \<and> bs = [] \<and> t = s
    else file_grows i s t \<and> same_bytes i s t \<and> r = int (length bs)
      \<and> bs = map (file_byte (bview s) (addrs s i)) [unat off..<min (unat off + unat n) (unat (i_size (inode_at s i)))]"
proof (cases "off > i_size (inode_at s i) \<or> off + n < off")
  case True
  then show ?thesis using run ty by (simp add: readi_def)
next
  case False
  define k where "k = (if off + n > i_size (inode_at s i) then i_size (inode_at s i) - off else n)"
  have nov: "unat (off + n) = unat off + unat n"
    using False unat_plus_if' [of off n] unat_less_u32 [of n] by (auto simp: word_less_nat_alt split: if_splits)
  have k: "unat off + unat k = min (unat off + unat n) (unat (i_size (inode_at s i)))"
    using False nov unat_sub [of off "i_size (inode_at s i)"]
    by (auto simp: k_def word_less_nat_alt word_le_nat_alt min_def not_less)
  obtain cs where l: "readi_loop i (unat off) (unat k) s = Some (cs, t)" and r: "r = sint k" "bs = cs"
    using run ty False by (auto simp: readi_def Let_def bind_eq_Some_conv k_def [symmetric])
  note R = readi_loop_post [OF inv l]
  have "unat k < 2 ^ 31" using R by auto
  then have "sint k = int (unat k)" using sint_of_nat_small [of "unat k"] by simp
  moreover have "length bs = unat k" using R r(2) by simp
  ultimately have "r = int (length bs)" using r(1) by (simp only:)
  then show ?thesis using False R r(2) k by auto
qed

lemma file_inv_size [simp]: "file_inv i (upd_inode i (\<lambda>ip. ip\<lparr>i_size := z\<rparr>) s) = file_inv i s"
  by (cases "i < length (icache s)") (auto simp: file_inv_def inode_upd)

lemma writei_cases:
  assumes ty: "i_type (inode_at s i) \<noteq> T_DEV" and run: "writei i src off n s = Some (r, t)"
  obtains (fail) "off > i_size (inode_at s i) \<or> off + n < off \<or> off + n > of_nat (MAXFILE * BSIZE)" "r = -1" "t = s"
  | (ok) s1 where "\<not> off > i_size (inode_at s i)" "unat off + unat n \<le> MAXFILE * BSIZE" "unat (off + n) = unat off + unat n"
      "unat n \<le> length src" "r = int (unat n)" "writei_loop i (unat off) (take (unat n) src) s = Some s1"
      "(if n > 0 \<and> off + n > i_size (inode_at s1 i) then iupdate i (upd_inode i (\<lambda>ip. ip\<lparr>i_size := off + n\<rparr>) s1) else Some s1) = Some t"
proof (cases "off > i_size (inode_at s i) \<or> off + n < off \<or> off + n > of_nat (MAXFILE * BSIZE)")
  case True
  then show thesis using run ty by (intro fail) (auto simp: writei_def Let_def split: if_splits)
next
  case False
  have nov: "unat (off + n) = unat off + unat n"
    using False unat_plus_if' [of off n] unat_less_u32 [of n] by (auto simp: word_less_nat_alt split: if_splits)
  moreover have "unat (off + n) \<le> MAXFILE * BSIZE" using False by (simp add: word_less_nat_alt not_less)
  moreover have "sint n = int (unat n)" using sint_of_nat_small [of "unat n"] calculation by simp
  moreover have len: "unat n \<le> length src" using run ty False by (auto simp: writei_def Let_def split: if_splits)
  moreover have eq: "writei i src off n s = do {
      s1 \<leftarrow> writei_loop i (unat off) (take (unat n) src) s;
      s2 \<leftarrow> (if n > 0 \<and> off + n > i_size (inode_at s1 i) then iupdate i (upd_inode i (\<lambda>ip. ip\<lparr>i_size := off + n\<rparr>) s1) else Some s1);
      Some (sint n, s2) }"
    using ty False len by (simp add: writei_def Let_def)
  moreover obtain s1 where "writei_loop i (unat off) (take (unat n) src) s = Some s1"
      "(if n > 0 \<and> off + n > i_size (inode_at s1 i) then iupdate i (upd_inode i (\<lambda>ip. ip\<lparr>i_size := off + n\<rparr>) s1) else Some s1) = Some t"
      "r = sint n"
    using run [unfolded eq bind_eq_Some_conv] by blast
  ultimately show thesis using False by (intro ok [of s1]) simp_all
qed

text \<open>
  The bytes \<open>bs\<close> have been stored at offset \<open>off\<close> of file \<open>i\<close>, and all other bytes of this file, all
  other cached inodes, and all files that share no block with it are as before.
\<close>

definition file_written :: "nat \<Rightarrow> nat \<Rightarrow> byte list \<Rightarrow> 'a fsst_scheme \<Rightarrow> 'a fsst_scheme \<Rightarrow> bool" where
  "file_written i off bs s t \<longleftrightarrow> file_inv i t \<and> sb t = sb s \<and> (\<forall>j. j \<noteq> i \<longrightarrow> inode_at t j = inode_at s j)
     \<and> (\<forall>x < MAXFILE * BSIZE. file_byte (bview t) (addrs t i) x =
          (if off \<le> x \<and> x < off + length bs then bs ! (x - off) else file_byte (bview s) (addrs s i) x))
     \<and> (\<forall>C. file_ok (sb s) (bview s) C \<longrightarrow> slots (bview s) C \<inter> slots (bview s) (addrs s i) = {} \<longrightarrow>
          file_ok (sb s) (bview t) C \<and> (\<forall>x < MAXFILE * BSIZE. file_byte (bview t) C x = file_byte (bview s) C x))"

lemma writei_loop_written:
  assumes inv: "file_inv i s" and run: "writei_loop i off src s = Some t"
  shows "file_written i off src s t" "same_inodes i s t"
proof -
  note W = writei_loop_post [OF inv run]
  then have g: "file_inv i t" "evolves (sb s) (bview s) (addrs s i) (bview t) (addrs t i)" "sb t = sb s" "same_inodes i s t"
    by (simp_all add: file_grows_def)
  show "same_inodes i s t" by (rule g(4))
  show "file_written i off src s t"
    using g W same_inodesD(2) [OF g(4)] evolves_other [OF g(2)] unfolding file_written_def by blast
qed

lemma file_written_iupdate:
  assumes w: "file_written i off bs s s1" and inum: "unat (i_inum (inode_at s1 i)) < unat (sb_ninodes (sb s1))"
    and run: "iupdate i (upd_inode i (\<lambda>ip. ip\<lparr>i_size := z\<rparr>) s1) = Some t"
  shows "file_written i off bs s t" "i_size (inode_at t i) = z"
    "get_dinode (unat (i_inum (inode_at t i)) mod IPB) (bview t (IBLOCK (i_inum (inode_at t i)) (sb t))) = to_dinode (inode_at t i)"
proof -
  let ?u = "upd_inode i (\<lambda>ip. ip\<lparr>i_size := z\<rparr>) s1"
  have inv1: "file_inv i s1" using w by (simp add: file_written_def)
  then have l: "i < length (icache s1)" by (simp add: file_inv_def)
  have u: "inode_at ?u i = (inode_at s1 i)\<lparr>i_size := z\<rparr>" "\<And>j. j \<noteq> i \<Longrightarrow> inode_at ?u j = inode_at s1 j"
    using l by (simp_all add: upd_inode_def)
  have inv2: "file_inv i ?u" using inv1 by simp
  have inum2: "unat (i_inum (inode_at ?u i)) < unat (sb_ninodes (sb ?u))" using inum u(1) by simp
  note P = iupdate_post [OF inv2 inum2 run] and D = iupdate_dinode [OF inv2 inum2 run]
  note F = log_frameD [OF P(4)]
  show "i_size (inode_at t i) = z" using P(3) u by simp
  show "get_dinode (unat (i_inum (inode_at t i)) mod IPB) (bview t (IBLOCK (i_inum (inode_at t i)) (sb t))) = to_dinode (inode_at t i)"
    using D P(3) F(2) by simp
  have N: "\<not> data_block (sb s1) (IBLOCK (i_inum (inode_at s1 i)) (sb s1))" "\<not> bitmap_block (sb s1) (IBLOCK (i_inum (inode_at s1 i)) (sb s1))"
    using IBLOCK_not_data [OF file_invD(2) [OF inv1] inum] .
  have C: "file_ok (sb s1) (bview t) C \<and> (\<forall>x < MAXFILE * BSIZE. file_byte (bview t) C x = file_byte (bview s1) C x)"
    if "file_ok (sb s1) (bview s1) C" for C
    using other_block(1,4) [OF file_invD(2) [OF inv1] that N] P(5) u(1) by simp
  have sb: "sb t = sb s1" "sb s1 = sb s" using F(2) w by (simp_all add: file_written_def)
  have "\<forall>x < MAXFILE * BSIZE. file_byte (bview t) (addrs t i) x = file_byte (bview s1) (addrs s1 i) x"
    using P(2) u(1) by (simp add: same_bytes_def)
  moreover have "\<forall>j. j \<noteq> i \<longrightarrow> inode_at t j = inode_at s1 j" using P(3) u(2) by simp
  ultimately show "file_written i off bs s t"
    using w C P(1) sb unfolding file_written_def by simp
qed

lemma writei_post:
  assumes inv: "file_inv i s" and ty: "i_type (inode_at s i) \<noteq> T_DEV"
    and inum: "unat (i_inum (inode_at s i)) < unat (sb_ninodes (sb s))"
    and run: "writei i src off n s = Some (r, t)"
  shows "if off > i_size (inode_at s i) \<or> off + n < off \<or> off + n > of_nat (MAXFILE * BSIZE) then r = -1 \<and> t = s
    else r = int (unat n) \<and> file_written i (unat off) (take (unat n) src) s t
      \<and> i_size (inode_at t i) = (if n > 0 \<and> off + n > i_size (inode_at s i) then off + n else i_size (inode_at s i))"
  using ty run
proof (cases rule: writei_cases)
  case (ok s1)
  note W = writei_loop_written [OF inv ok(6)]
  note S = same_inodesD [OF W(2)]
  have sb1: "sb s1 = sb s" using W(1) by (simp add: file_written_def)
  have "file_written i (unat off) (take (unat n) src) s t
      \<and> i_size (inode_at t i) = (if n > 0 \<and> off + n > i_size (inode_at s i) then off + n else i_size (inode_at s i))"
  proof (cases "n > 0 \<and> off + n > i_size (inode_at s1 i)")
    case True
    then have "iupdate i (upd_inode i (\<lambda>ip. ip\<lparr>i_size := off + n\<rparr>) s1) = Some t" using ok(7) by simp
    then show ?thesis using file_written_iupdate [OF W(1) _] inum S True sb1 by simp
  next
    case False
    then have "t = s1" using ok(7) by (simp split: if_splits)
    then show ?thesis using W S False by auto
  qed
  moreover have "\<not> (off > i_size (inode_at s i) \<or> off + n < off \<or> off + n > of_nat (MAXFILE * BSIZE))"
    using ok(1-3) by (auto simp: word_less_nat_alt)
  ultimately show ?thesis using ok(5) by simp
next
  case fail
  then show ?thesis by simp
qed

end
