(* ===== verification/Xv6_FsRw.thy ===== *)
theory Xv6_FsRw
  imports Xv6_FsFile
begin

text \<open>
  Reading, writing and allocating blocks in the kernel file system do not panic or block when the
  buffer cache and the log have room. With the facts of \<^verbatim>\<open>Xv6_FsFile\<close> this gives the
  correctness of \<^verbatim>\<open>balloc\<close>, \<^verbatim>\<open>readi\<close>, \<^verbatim>\<open>writei\<close>, \<^verbatim>\<open>iupdate\<close> and \<^verbatim>\<open>ilock\<close> of \<^verbatim>\<open>fs.c\<close>.
\<close>

section \<open>Reading and writing return\<close>

text \<open>
  No buffer is held, an operation is open, and there is room in the cache and in the log for \<open>k\<close>
  more blocks.
\<close>

definition ready :: "nat \<Rightarrow> 'a fsst_scheme \<Rightarrow> bool" where
  "ready k s \<longleftrightarrow> bio_inv s \<and> (\<forall>h b. \<not> holds_buf s h b) \<and> card (pins s) + k < NBUF \<and> length (lh s) + k \<le> LOGSIZE
     \<and> int (length (lh s) + k) \<le> sint (log_size s) - 1 \<and> 1 \<le> outstanding s \<and> unat (sb_size (sb s)) \<le> unat (disksize s)"

lemma readyD:
  assumes "ready k s"
  shows "bio_inv s" "\<not> holds_buf s h b" "card (pins s) + k < NBUF" "\<not> held s b"
  using assms held_iff [of s b] by (auto simp: ready_def)

lemma finite_pins [simp]: "finite (pins s)"
  by (simp add: pins_def)

lemma ready_frame:
  assumes r: "ready k s" and t: "bio_inv t" "\<And>h b. \<not> holds_buf t h b" "card (pins t) + j < NBUF" "length (lh t) + j \<le> length (lh s) + k"
    "bio.more t = bio.more (s\<lparr>lh := lh t\<rparr>)" "disksize t = disksize s"
  shows "ready j t"
proof -
  have "log_size t = log_size s" "outstanding t = outstanding s" "sb t = sb s" using t(5) by (cases s; cases t; simp)+
  then show ?thesis using r t by (auto simp: ready_def)
qed

lemma peek_ready:
  assumes r: "ready k s" and b: "b < disksize s"
  obtains h s1 t where "bread 1 b s = Some (h, s1)" "brelse h s1 = Some t" "ready k t" "bview t = bview s" "icache t = icache s" "sb t = sb s"
    "disksize t = disksize s" "icache s1 = icache s"
proof -
  note R = readyD [OF r]
  obtain h s1 where 1: "bread 1 b s = Some (h, s1)" "bio_inv s1" "holds_buf s1 h b" "bdirty s1 b \<or> bview s1 b = memdisk s1 b"
    using peek_returns [OF R(1) b R(4)] R(3) by (metis add_lessD1)
  note B = bread_read [OF R(1) 1(1)]
  obtain t where t: "brelse h s1 = Some t" using brelse_post [OF 1(2-4)] by blast
  note T = brelse_release [OF 1(2-4) t]
  have "pins t \<subseteq> pins s" using T(8) B(8,9,14) by (auto split: if_splits)
  then have "card (pins t) \<le> card (pins s)" by (simp add: card_mono)
  moreover have m: "bio.more t = bio.more s" using T(6) B(7) by simp
  moreover have mf: "lh t = lh s" "icache t = icache s" "sb t = sb s" "icache s1 = icache s"
    using more_fs [OF m] more_fs [OF B(7)] by simp_all
  moreover have "\<not> holds_buf t g c" for g c using T(9) B(11) R(2) by auto
  ultimately have "ready k t" using R(3) T(1,5) B(6) by (intro ready_frame [OF r]) auto
  then show thesis
    using that [OF 1(1) t] T(2,5) B(3,6) mf by simp
qed

lemma store_ready:
  assumes r: "ready (Suc k) s" and b: "b < disksize s" and x: "\<And>y. length y = BSIZE \<Longrightarrow> length (f y) = BSIZE"
  obtains h s1 s2 t where "bread 1 b s = Some (h, s1)" "log_write h (set_data h (f (b_data (buf_at s1 h))) s1) = Some s2"
    "brelse h s2 = Some t" "ready k t" "disksize t = disksize s" "icache s1 = icache s"
proof -
  note R = readyD [OF r]
  let ?x = "f (bview s b)"
  have len: "length ?x = BSIZE" by (intro x length_bview R(1))
  have room: "pins s \<noteq> {0..<NBUF}" by (rule card_pins_room) (use R(3) in simp)
  obtain h s1 s2 t where 1: "bread 1 b s = Some (h, s1)" "log_write h (set_data h ?x s1) = Some s2" "brelse h s2 = Some t"
    by (rule logged_update_returns [OF R(1) b R(4) room len]) (use r in \<open>auto simp: ready_def\<close>)
  note U = logged_update [OF R(1) 1(1) len 1(2,3)]
  note B = bread_read [OF R(1) 1(1)]
  note D = set_data_post [OF B(1,2) len]
  have h2: "holds_buf (set_data h ?x s1) h b" using B(2) D(9) by simp
  note W = log_write_post [OF D(1) h2 1(2)]
  have h3: "holds_buf s2 h b" "bdirty s2 b \<or> bview s2 b = memdisk s2 b" using h2 W(6,8) by auto
  note T = brelse_release [OF W(1) h3 1(3)]
  have "pins t \<subseteq> insert h (pins s)" using T(8) W(6,7) D(8) B(9) by auto
  then have "card (pins t) \<le> card (insert h (pins s))" by (intro card_mono) simp_all
  then have "card (pins t) \<le> Suc (card (pins s))" by (simp add: card_insert_if split: if_splits)
  then have "ready k t" using R(2,3) U by (intro ready_frame [OF r]) auto
  moreover have "icache s1 = icache s" by (rule more_fs(1) [OF B(7)])
  ultimately show thesis using that [OF 1(1) _ 1(3)] 1(2) B(13) U(5) by simp
qed

lemma slot_on_disk:
  assumes "file_inv i s" "ready k s" "j \<le> MAXFILE" "slot (bview s) (addrs s i) j \<noteq> 0"
  shows "slot (bview s) (addrs s i) j < disksize s"
  using file_okD(2) [OF file_invD(5) [OF assms(1)] assms(3,4)] assms(2)
  by (auto simp: data_block_def ready_def word_less_nat_alt)

lemma bmap_ready:
  assumes inv: "file_inv i s" and r: "ready k s" and bn: "bn < MAXFILE" "slot (bview s) (addrs s i) bn \<noteq> 0"
  obtains t where "bmap i bn s = Some (slot (bview s) (addrs s i) bn, t)" "ready k t" "bview t = bview s" "icache t = icache s"
    "sb t = sb s" "disksize t = disksize s"
proof (cases "bn < NDIRECT")
  case True
  then show thesis using that [of s] bn r by (simp add: bmap_def slot_simps)
next
  case False
  have a: "addrs s i ! NDIRECT \<noteq> 0" using bn False by (auto simp: slot_def)
  then have sl: "slot (bview s) (addrs s i) bn = get_addr (bn - NDIRECT) (bview s (addrs s i ! NDIRECT))"
    using bn False by (simp add: slot_def)
  have "addrs s i ! NDIRECT < disksize s" using slot_on_disk [OF inv r, of MAXFILE] a by (simp add: slot_simps)
  then obtain h s1 t where p: "bread 1 (addrs s i ! NDIRECT) s = Some (h, s1)" "brelse h s1 = Some t" "ready k t" "bview t = bview s"
    "icache t = icache s" "sb t = sb s" "disksize t = disksize s" "icache s1 = icache s"
    by (rule peek_ready [OF r])
  have "b_data (buf_at s1 h) = bview s (addrs s i ! NDIRECT)" using bread_read(13) [OF file_invD(1) [OF inv] p(1)] .
  then have "bmap i bn s = Some (slot (bview s) (addrs s i) bn, t)"
    using p a sl bn False file_invD(4) [OF inv] by (simp add: bmap_def Let_def)
  then show thesis using that p by blast
qed

lemma file_inv_frame:
  "file_inv i s \<Longrightarrow> bio_inv t \<Longrightarrow> bview t = bview s \<Longrightarrow> icache t = icache s \<Longrightarrow> sb t = sb s \<Longrightarrow> file_inv i t"
  by (simp add: file_inv_def)

lemma readi_loop_ready:
  assumes "file_inv i s" "ready k s" "off + n \<le> MAXFILE * BSIZE"
    "\<forall>x. off \<le> x \<and> x < off + n \<longrightarrow> slot (bview s) (addrs s i) (x div BSIZE) \<noteq> 0"
  shows "\<exists>bs t. readi_loop i off n s = Some (bs, t)"
  using assms
proof (induction n arbitrary: off s rule: less_induct)
  case (less n)
  show ?case
  proof (cases "n = 0")
    case True
    then show ?thesis by (simp add: readi_loop.simps)
  next
    case False
    let ?m = "min n (BSIZE - off mod BSIZE)" and ?b = "slot (bview s) (addrs s i) (off div BSIZE)"
    have k: "off div BSIZE < MAXFILE" using less.prems(3) False by (simp add: div_less_iff_less_mult)
    have nz: "?b \<noteq> 0" using less.prems(4) False by simp
    obtain s1 where 1: "bmap i (off div BSIZE) s = Some (?b, s1)" "ready k s1" "bview s1 = bview s" "icache s1 = icache s"
      "sb s1 = sb s" "disksize s1 = disksize s"
      by (rule bmap_ready [OF less.prems(1,2) k nz])
    have "?b < disksize s1" using slot_on_disk [OF less.prems(1,2) _ nz] k 1(6) by simp
    then obtain h s2 s3 where 2: "bread 1 ?b s1 = Some (h, s2)" "brelse h s2 = Some s3" "ready k s3" "bview s3 = bview s1"
      "icache s3 = icache s1" "sb s3 = sb s1" by (rule peek_ready [OF 1(2)])
    have inv3: "file_inv i s3" by (rule file_inv_frame [OF less.prems(1) readyD(1) [OF 2(3)]]) (use 1 2 in simp_all)
    have "\<exists>bs t. readi_loop i (off + ?m) (n - ?m) s3 = Some (bs, t)"
    proof (rule less.IH [OF _ inv3 2(3)])
      show "n - ?m < n" using False by simp
      show "off + ?m + (n - ?m) \<le> MAXFILE * BSIZE" using less.prems(3) by simp
      show "\<forall>x. off + ?m \<le> x \<and> x < off + ?m + (n - ?m) \<longrightarrow> slot (bview s3) (addrs s3 i) (x div BSIZE) \<noteq> 0"
        using less.prems(4) 1 2 by simp
    qed
    then show ?thesis
      using 1 2 False file_invD(4) [OF less.prems(1)] by (subst readi_loop.simps) auto
  qed
qed

definition chunks :: "nat \<Rightarrow> nat \<Rightarrow> nat" where
  "chunks off n = (if n = 0 then 0 else (off mod BSIZE + n + (BSIZE - 1)) div BSIZE)"

lemma chunks_0 [simp]: "chunks off 0 = 0"
  by (simp add: chunks_def)

lemma chunks_pos: "0 < n \<Longrightarrow> 0 < chunks off n"
  by (simp add: chunks_def div_greater_zero_iff)

lemma chunks_step:
  assumes "0 < n"
  shows "Suc (chunks (off + min n (BSIZE - off mod BSIZE)) (n - min n (BSIZE - off mod BSIZE))) = chunks off n"
proof (cases "n \<le> BSIZE - off mod BSIZE")
  case True
  have "off mod BSIZE + n + (BSIZE - 1) = (off mod BSIZE + n - 1) + BSIZE" using assms by simp
  moreover have "(off mod BSIZE + n - 1) div BSIZE = 0"
    using True mod_less_divisor [of BSIZE off] assms by (intro div_less) linarith
  ultimately show ?thesis using True assms by (simp add: chunks_def)
next
  case False
  let ?m = "BSIZE - off mod BSIZE"
  have o: "off mod BSIZE < BSIZE" by simp
  have "off + ?m = (off div BSIZE + 1) * BSIZE" using div_mult_mod_eq [of off BSIZE] o unfolding distrib_right by linarith
  then have z: "(off + ?m) mod BSIZE = 0" by (metis mod_mult_self2_is_0)
  have "off mod BSIZE + n + (BSIZE - 1) = (n - ?m + (BSIZE - 1)) + BSIZE" using False o by simp
  then have "chunks off n = Suc ((n - ?m + (BSIZE - 1)) div BSIZE)" using assms by (simp only: chunks_def div_add_self2) simp
  moreover have "chunks (off + ?m) (n - ?m) = (n - ?m + (BSIZE - 1)) div BSIZE" using False by (simp only: chunks_def z) simp
  moreover have "min n ?m = ?m" using False by simp
  ultimately show ?thesis by (simp only:)
qed

lemma writei_loop_ready:
  assumes "file_inv i s" "off + length src \<le> MAXFILE * BSIZE"
    "ready (chunks off (length src) + k) s"
    "\<forall>x. off \<le> x \<and> x < off + length src \<longrightarrow> slot (bview s) (addrs s i) (x div BSIZE) \<noteq> 0"
  shows "\<exists>t. writei_loop i off src s = Some t \<and> ready k t \<and> (\<forall>j. slot (bview t) (addrs t i) j = slot (bview s) (addrs s i) j)"
  using assms
proof (induction "length src" arbitrary: off src s rule: less_induct)
  case less
  show ?case
  proof (cases "src = []")
    case True
    have "ready k s"
      using less.prems(3) by (auto simp: ready_def)
    then show ?thesis using True by (simp add: writei_loop.simps)
  next
    case False
    let ?n = "length src" and ?b = "slot (bview s) (addrs s i) (off div BSIZE)"
    let ?m = "min ?n (BSIZE - off mod BSIZE)"
    have n: "0 < ?n" using False by simp
    have "off < MAXFILE * BSIZE" using less.prems(2) n by linarith
    then have k: "off div BSIZE < MAXFILE" by (simp add: div_less_iff_less_mult)
    have nz: "?b \<noteq> 0" using less.prems(4) False by simp
    obtain K where K: "chunks off ?n = Suc K" using chunks_pos [OF n, of off] by (cases "chunks off ?n") auto
    have r: "ready (Suc (K + k)) s" using less.prems(3) K by simp
    obtain s1 where 1: "bmap i (off div BSIZE) s = Some (?b, s1)" "ready (Suc (K + k)) s1" "bview s1 = bview s" "icache s1 = icache s"
      "sb s1 = sb s" "disksize s1 = disksize s"
      by (rule bmap_ready [OF less.prems(1) r k nz])
    have inv1: "file_inv i s1" by (rule file_inv_frame [OF less.prems(1) readyD(1) [OF 1(2)]]) (use 1 in simp_all)
    have "?b < disksize s1" using slot_on_disk [OF less.prems(1) r _ nz] k 1(6) by simp
    moreover have "length (blit (off mod BSIZE) (take ?m src) y) = BSIZE" if "length y = BSIZE" for y :: block
      using that by (subst length_blit) (auto simp: min_def)
    ultimately obtain h s2 s3 s4 where 2: "bread 1 ?b s1 = Some (h, s2)"
        "log_write h (set_data h (blit (off mod BSIZE) (take ?m src) (b_data (buf_at s2 h))) s2) = Some s3" "brelse h s3 = Some s4"
        "ready (K + k) s4" "icache s2 = icache s1"
      by (rule store_ready [OF 1(2)]) blast
    have sl: "slot (bview s1) (addrs s1 i) (off div BSIZE) = ?b" using 1 by simp
    note S = file_store [OF inv1 k sl nz 2(1) _ 2(2,3)]
    have inv4: "file_inv i s4" by (rule file_grows_inv [OF S(1)]) simp
    have sl4: "slot (bview s4) (addrs s4 i) j = slot (bview s) (addrs s i) j" for j using S(4) [of j] 1 by simp
    have "\<exists>t. writei_loop i (off + ?m) (drop ?m src) s4 = Some t \<and> ready k t \<and> (\<forall>j. slot (bview t) (addrs t i) j = slot (bview s4) (addrs s4 i) j)"
    proof (rule less.hyps [OF _ inv4])
      show "length (drop ?m src) < length src" using n by simp
      show "off + ?m + length (drop ?m src) \<le> MAXFILE * BSIZE" using less.prems(2) by simp
      show "ready (chunks (off + ?m) (length (drop ?m src)) + k) s4"
        using chunks_step [OF n, of off] K 2(4) by simp
      show "\<forall>x. off + ?m \<le> x \<and> x < off + ?m + length (drop ?m src) \<longrightarrow> slot (bview s4) (addrs s4 i) (x div BSIZE) \<noteq> 0"
        using less.prems(4) sl4 by simp
    qed
    then show ?thesis
      using 1 2 False file_invD(4) [OF less.prems(1)] sl4 by (subst writei_loop.simps) auto
  qed
qed

lemma IBLOCK_on_disk:
  assumes "file_inv i s" "ready k s" "unat inum < unat (sb_ninodes (sb s))"
  shows "IBLOCK inum (sb s) < disksize s"
proof -
  note ok = file_invD(2) [OF assms(1)]
  have "unat inum div IPB \<le> unat (sb_ninodes (sb s)) div IPB" using assms(3) by (intro div_le_mono) simp
  then have "unat (IBLOCK inum (sb s)) < unat (sb_size (sb s))"
    using unat_IBLOCK [OF ok assms(3)] ok by (simp add: sb_ok_def)
  then show ?thesis using assms(2) by (simp add: ready_def word_less_nat_alt)
qed

lemma iupdate_ready:
  assumes inv: "file_inv i s" and inum: "unat (i_inum (inode_at s i)) < unat (sb_ninodes (sb s))" and r: "ready (Suc k) s"
  shows "\<exists>t. iupdate i s = Some t \<and> ready k t"
proof -
  let ?f = "put_dinode (unat (i_inum (inode_at s i)) mod IPB) (to_dinode (inode_at s i))"
  have len: "length (?f y) = BSIZE" if "length y = BSIZE" for y
    using that file_okD(1) [OF file_invD(5) [OF inv]] by (simp add: to_dinode_def)
  obtain h s1 s2 t where "bread 1 (IBLOCK (i_inum (inode_at s i)) (sb s)) s = Some (h, s1)"
      "log_write h (set_data h (?f (b_data (buf_at s1 h))) s1) = Some s2" "brelse h s2 = Some t" "ready k t"
    by (rule store_ready [of k s, where f = ?f, OF r IBLOCK_on_disk [OF inv r inum] len])
  then show ?thesis using file_invD(4) [OF inv] by (simp add: iupdate_def Let_def)
qed

lemma ready_size [simp]: "ready k (upd_inode i f s) = ready k s"
  unfolding ready_def bio_upd_inode by (simp add: upd_inode_def holds_buf_def pins_def)

text \<open>Every byte from \<open>off\<close> on is in a block that the file has.\<close>

definition has_blocks :: "nat \<Rightarrow> nat \<Rightarrow> nat \<Rightarrow> 'a fsst_scheme \<Rightarrow> bool" where
  "has_blocks i off n s \<longleftrightarrow> (\<forall>x. off \<le> x \<and> x < off + n \<longrightarrow> slot (bview s) (addrs s i) (x div BSIZE) \<noteq> 0)"

lemma writei_ready:
  assumes inv: "file_inv i s" and ty: "i_type (inode_at s i) \<noteq> T_DEV"
    and inum: "unat (i_inum (inode_at s i)) < unat (sb_ninodes (sb s))"
    and off: "off \<le> i_size (inode_at s i)" "unat off + unat n \<le> MAXFILE * BSIZE" "unat n \<le> length src"
    and b: "has_blocks i (unat off) (unat n) s" and r: "ready (chunks (unat off) (unat n) + Suc k) s"
  shows "\<exists>t. writei i src off n s = Some (int (unat n), t) \<and> ready k t \<and> has_blocks i (unat off) (unat n) t"
proof -
  have nov: "unat (off + n) = unat off + unat n" using off(2) by (subst unat_plus_if') simp
  have g: "\<not> off > i_size (inode_at s i)" "\<not> off + n < off" "\<not> off + n > of_nat (MAXFILE * BSIZE)" "\<not> length src < unat n"
    using off nov by (auto simp: word_less_nat_alt word_le_nat_alt)
  have n: "sint n = int (unat n)" using sint_of_nat_small [of "unat n"] off(2) by simp
  let ?src = "take (unat n) src"
  have len: "length ?src = unat n" using off(3) by simp
  obtain s1 where 1: "writei_loop i (unat off) ?src s = Some s1" "ready (Suc k) s1"
      "\<forall>j. slot (bview s1) (addrs s1 i) j = slot (bview s) (addrs s i) j"
    using writei_loop_ready [OF inv, of "unat off" ?src "Suc k"] off(2) len b r by (auto simp: has_blocks_def)
  note W = writei_loop_written [OF inv 1(1)]
  have inv1: "file_inv i s1" and sb1: "sb s1 = sb s" using W(1) by (simp_all add: file_written_def)
  have eq: "writei i src off n s = do {
      s2 \<leftarrow> (if n > 0 \<and> off + n > i_size (inode_at s1 i) then iupdate i (upd_inode i (\<lambda>ip. ip\<lparr>i_size := off + n\<rparr>) s1) else Some s1);
      Some (int (unat n), s2) }"
    using ty g 1(1) n by (simp add: writei_def Let_def)
  show ?thesis
  proof (cases "n > 0 \<and> off + n > i_size (inode_at s1 i)")
    case True
    let ?u = "upd_inode i (\<lambda>ip. ip\<lparr>i_size := off + n\<rparr>) s1"
    have l: "i < length (icache s1)" by (rule file_invD(3) [OF inv1])
    have inum2: "unat (i_inum (inode_at ?u i)) < unat (sb_ninodes (sb ?u))"
      using inum sb1 same_inodesD [OF W(2)] inode_upd [OF l] by simp
    obtain t where t: "iupdate i ?u = Some t" "ready k t" using iupdate_ready [OF _ inum2] inv1 1(2) by auto
    have invu: "file_inv i ?u" using inv1 by simp
    note P = iupdate_post [OF invu inum2 t(1)]
    have "slot (bview t) (addrs t i) j = slot (bview s1) (addrs s1 i) j" for j
      using other_block(2) [OF file_invD(2,5) [OF invu] IBLOCK_not_data [OF file_invD(2) [OF invu] inum2]] P(3,5) inode_upd [OF l] by simp
    then show ?thesis using eq True t b 1(3) by (simp add: has_blocks_def)
  next
    case False
    have "ready k s1" using 1(2) by (auto simp: ready_def)
    then show ?thesis using eq False b 1(3) by (auto simp: has_blocks_def)
  qed
qed

lemma readi_ready:
  assumes inv: "file_inv i s" and ty: "i_type (inode_at s i) \<noteq> T_DEV"
    and off: "unat off + unat n \<le> MAXFILE * BSIZE" "unat off + unat n \<le> unat (i_size (inode_at s i))"
    and b: "has_blocks i (unat off) (unat n) s" and r: "ready k s"
  shows "\<exists>bs t. readi i off n s = Some ((int (unat n), bs), t)"
proof -
  have nov: "unat (off + n) = unat off + unat n" using off(1) by (subst unat_plus_if') simp
  have g: "\<not> off > i_size (inode_at s i)" "\<not> off + n < off" "\<not> off + n > i_size (inode_at s i)"
    using off nov by (auto simp: word_less_nat_alt)
  have n: "sint n = int (unat n)" using sint_of_nat_small [of "unat n"] off(1) by simp
  obtain bs t where "readi_loop i (unat off) (unat n) s = Some (bs, t)"
    using readi_loop_ready [OF inv r off(1)] b by (auto simp: has_blocks_def)
  then show ?thesis using ty g n by (simp add: readi_def Let_def)
qed

section \<open>The allocator returns\<close>

lemma BBLOCK_on_disk:
  assumes "sb_ok (sb s)" "ready k s" "unat b < unat (sb_size (sb s))"
  shows "BBLOCK b (sb s) < disksize s"
proof -
  have "unat b div BPB \<le> unat (sb_size (sb s)) div BPB" using assms(3) by (intro div_le_mono) simp
  then have "unat (BBLOCK b (sb s)) < unat (sb_size (sb s))"
    using unat_BBLOCK [OF assms(1,3)] assms(1) by (simp add: sb_ok_def)
  then show ?thesis using assms(2) by (simp add: ready_def word_less_nat_alt)
qed

lemma find_free_bit_returns:
  assumes "bm_free bi blk" "bi < BPB" "b + bi < sz"
  shows "\<exists>bj. find_free_bit sz b blk = Some bj"
  using assms by (cases "find_free_bit sz b blk") (auto simp: find_free_bit_def find_None_iff)

lemma balloc_scan_ready:
  assumes "ready 2 s" "sb_ok (sb s)" "\<forall>k \<in> set bs. BPB dvd k \<and> k < unat (sb_size (sb s))"
    and "k0 \<in> set bs" "bi < BPB" "k0 + bi < unat (sb_size (sb s))" "bm_free bi (bview s (BBLOCK (of_nat k0) (sb s)))"
  shows "\<exists>b t. balloc_scan 1 bs s = Some (b, t)"
  using assms
proof (induction bs arbitrary: s)
  case (Cons k bs)
  have kk: "unat (of_nat k :: u32) = k" "k < unat (sb_size (sb s))"
    using Cons.prems(3) unat_less_u32 [of "sb_size (sb s)"] by (auto intro!: unat_of_nat_u32)
  then have d: "BBLOCK (of_nat k) (sb s) < disksize s" by (intro BBLOCK_on_disk [OF Cons.prems(2,1)]) simp
  show ?case
  proof (cases "find_free_bit (unat (sb_size (sb s))) k (bview s (BBLOCK (of_nat k) (sb s)))")
    case None
    obtain h s1 s2 where 1: "bread 1 (BBLOCK (of_nat k) (sb s)) s = Some (h, s1)" "brelse h s1 = Some s2" "ready 2 s2"
        "bview s2 = bview s" "sb s2 = sb s" using d by (rule peek_ready [OF Cons.prems(1)])
    have b1: "b_data (buf_at s1 h) = bview s (BBLOCK (of_nat k) (sb s))" "sb s1 = sb s"
      using bread_read [OF readyD(1) [OF Cons.prems(1)] 1(1)] more_fs(2) [of s1 s] by auto
    have "k0 \<noteq> k" using None find_free_bit_returns [OF Cons.prems(7,5,6)] by auto
    then have "\<exists>b t. balloc_scan 1 bs s2 = Some (b, t)"
      using Cons.prems 1 by (intro Cons.IH) auto
    then show ?thesis using 1 b1 None by simp
  next
    case (Some bj)
    note F = find_free_bitD [OF Some]
    have r2: "ready (Suc 1) s" using Cons.prems(1) by (simp only: Suc_1)
    have len: "length (bm_set bj y) = BSIZE" if "length y = BSIZE" for y using that by simp
    obtain h s1 s2 s3 where 1: "bread 1 (BBLOCK (of_nat k) (sb s)) s = Some (h, s1)"
        "log_write h (set_data h (bm_set bj (b_data (buf_at s1 h))) s1) = Some s2" "brelse h s2 = Some s3" "ready 1 s3"
        "disksize s3 = disksize s"
      by (rule store_ready [where f = "bm_set bj", OF r2 d len])
    have b1: "b_data (buf_at s1 h) = bview s (BBLOCK (of_nat k) (sb s))" "sb s1 = sb s"
      using bread_read [OF readyD(1) [OF Cons.prems(1)] 1(1)] more_fs(2) [of s1 s] by auto
    have "unat (of_nat (k + bj) :: u32) = k + bj" using F(3) unat_less_u32 [of "sb_size (sb s)"] by (intro unat_of_nat_u32) simp
    then have d3: "of_nat (k + bj) < disksize s3" using F(3) Cons.prems(1) 1(5) by (simp add: ready_def word_less_nat_alt)
    have r1: "ready (Suc 0) s3" using 1(4) by (simp only: One_nat_def)
    obtain h' s4 s5 s6 where 2: "bread 1 (of_nat (k + bj)) s3 = Some (h', s4)"
        "log_write h' (set_data h' zero_block s4) = Some s5" "brelse h' s5 = Some s6"
      by (rule store_ready [where f = "\<lambda>_. zero_block", OF r1 d3]) simp_all
    then have "bzero 1 (of_nat (k + bj)) s3 = Some s6" by (simp add: bzero_def Let_def del: of_nat_add)
    then show ?thesis using 1 b1 Some by (simp del: of_nat_add)
  qed
qed simp

lemma balloc_ready:
  assumes "ready 2 s" "sb_ok (sb s)" "unat b < unat (sb_size (sb s))" "\<not> allocated (sb s) (bview s) b"
  shows "\<exists>b t. balloc 1 s = Some (b, t)"
proof -
  let ?n = "unat (sb_size (sb s))" and ?k = "unat b div BPB * BPB"
  have k: "?k \<le> unat b" by (metis div_mult_mod_eq le_add1)
  have s: "\<forall>k \<in> set (bitmap_starts ?n). BPB dvd k \<and> k < ?n"
    by (auto simp: bitmap_starts_def less_mult_imp_div_less)
  have "(unat b + BPB) div BPB \<le> (?n + BPB - 1) div BPB" using assms(3) by (intro div_le_mono) simp
  then have m: "?k \<in> set (bitmap_starts ?n)"
    unfolding bitmap_starts_def set_map image_iff by (intro bexI [of _ "unat b div BPB"]) auto
  have "unat (of_nat ?k :: u32) = ?k" using k unat_less_u32 [of b] by (intro unat_of_nat_u32) linarith
  then have "unat (of_nat ?k div (4096 :: u32)) = unat (b div 4096)" by (simp add: unat_div)
  then have B: "BBLOCK (of_nat ?k) (sb s) = BBLOCK b (sb s)" by (simp add: BBLOCK_def unsigned_word_eqI)
  show ?thesis unfolding balloc_def
    by (rule balloc_scan_ready [OF assms(1,2) s m, of "unat b mod BPB"])
      (use assms(3,4) B in \<open>auto simp: allocated_def\<close>)
qed

section \<open>A sample file system\<close>

text \<open>
  The blocks below 104 are allocated, and the only file, in slot 0 of the inode cache, has block 100.
\<close>

definition sample_disk :: "u32 \<Rightarrow> block" where
  "sample_disk b = (if b = 58 then replicate 13 255 @ replicate 499 0 else empty_disk b)"

definition sample_inode :: inode where
  "sample_inode = zero_inode\<lparr>i_dev := 1, i_inum := 2, i_ref := 1, i_locked := True, i_valid := True, i_type := T_FILE,
     i_nlink := 1, i_size := 512, i_addrs := 100 # replicate 12 0\<rparr>"

definition sample_fs :: fsst where
  "sample_fs = fs_boot\<lparr>memdisk := sample_disk, outstanding := 1, icache := sample_inode # replicate 49 zero_inode\<rparr>"

lemma sample_fields [simp]:
  "sb sample_fs = mkfs_sb" "inode_at sample_fs 0 = sample_inode" "length (icache sample_fs) = 50" "lh sample_fs = []"
  "log_size sample_fs = 30" "outstanding sample_fs = 1" "disksize sample_fs = 1000" "memdisk sample_fs = sample_disk"
  by (simp_all add: sample_fs_def fs_boot_def cons_boot_def consst.defs logst.defs)

lemma sample_bio:
  "bio_inv sample_fs" "bview sample_fs = sample_disk" "pins sample_fs = {}" "\<not> holds_buf sample_fs h b"
proof -
  have "bufs sample_fs = bufs (log_boot sample_disk 1000 2 30)" "mru sample_fs = mru (log_boot sample_disk 1000 2 30)"
    by (simp_all add: sample_fs_def fs_boot_def cons_boot_def consst.defs logst.defs log_boot_def binit_def)
  note c = bio_cong [OF this, simplified]
  have l: "length (sample_disk b) = BSIZE" for b by (simp add: sample_disk_def)
  show "bio_inv sample_fs" "bview sample_fs = sample_disk" "pins sample_fs = {}" "\<not> holds_buf sample_fs h b"
    using log_boot_inv [of sample_disk 1000 2 30, OF l] by (simp_all add: c)
qed

lemma sample_bitmap: "unat b < 1000 \<Longrightarrow> allocated mkfs_sb sample_disk b \<longleftrightarrow> unat b < 104"
proof -
  assume b: "unat b < 1000"
  have "bit (255 :: byte) j" if "j < 8" for j
    using that bit_mask_iff [of 8 j, where 'a = byte] by (simp add: mask_eq_exp_minus_1)
  then have "bm_free (unat b) (replicate 13 255 @ replicate 499 0) \<longleftrightarrow> 104 \<le> unat b"
    using b by (simp add: bm_free_bit nth_append div_less_iff_less_mult less_diff_iff)
  moreover have "BBLOCK b mkfs_sb = 58" using b by (simp add: BBLOCK_def mkfs_sb_def unat_div word_unat_eq_iff unat_plus_if')
  ultimately show ?thesis using b by (auto simp: allocated_def sample_disk_def)
qed

lemma sample_slot: "k \<le> MAXFILE \<Longrightarrow> slot v (i_addrs sample_inode) k = (if k = 0 then 100 else 0)"
  by (simp add: slot_def sample_inode_def nth_Cons')

lemma sample_inv: "file_inv 0 sample_fs"
proof -
  have d: "data_block mkfs_sb b \<longleftrightarrow> 59 \<le> unat b \<and> unat b < 1000" for b by (auto simp: data_block_def mkfs_sb_def)
  have "i_dev sample_inode = 1" "length (i_addrs sample_inode) = 13" by (simp_all add: sample_inode_def)
  moreover have "sb_ok mkfs_sb" "sb_size mkfs_sb = 1000" by (simp_all add: sb_ok_def mkfs_sb_def)
  ultimately show ?thesis
    using sample_bio by (simp add: file_inv_def file_ok_def sample_slot meta_allocated_def d sample_bitmap)
qed

lemma sample_ready: "k < 30 \<Longrightarrow> ready k sample_fs"
  by (simp add: ready_def sample_bio mkfs_sb_def)

section \<open>Correctness\<close>

text \<open>C23. A block that \<^verbatim>\<open>balloc\<close> returns was free, is a block of the data area, and is now allocated and zero; the
  blocks that were allocated before still are, no other block gets allocated, and no other data block changes.
  When there is a free block and room in the cache and in the log, \<^verbatim>\<open>balloc\<close> does return.\<close>

theorem balloc_correct:
  assumes "ready 2 s" "sb_ok (sb s)" "meta_allocated (sb s) (bview s)"
    and "unat c < unat (sb_size (sb s))" "\<not> allocated (sb s) (bview s) c"
  shows "\<exists>b t. balloc 1 s = Some (b, t) \<and> data_block (sb s) b \<and> \<not> allocated (sb s) (bview s) b \<and> bview t b = zero_block
    \<and> (\<forall>d. unat d < unat (sb_size (sb s)) \<longrightarrow> allocated (sb s) (bview t) d = (allocated (sb s) (bview s) d \<or> d = b))
    \<and> (\<forall>d. data_block (sb s) d \<longrightarrow> d \<noteq> b \<longrightarrow> bview t d = bview s d) \<and> icache t = icache s"
proof -
  note inv = readyD(1) [OF assms(1)]
  obtain b t where r: "balloc 1 s = Some (b, t)" using balloc_ready [OF assms(1,2,4,5)] by blast
  note P = balloc_post [OF inv assms(2,3) r]
  have "data_block (sb s) b \<and> \<not> allocated (sb s) (bview s) b \<and> bview t b = zero_block" using P by (simp add: alloc_block_def)
  moreover have "allocated (sb s) (bview t) d = (allocated (sb s) (bview s) d \<or> d = b)" if "unat d < unat (sb_size (sb s))" for d
    using alloc_block_allocated [OF assms(2) P(1) length_bview [OF inv] that] P(4) by simp
  moreover have "bview t d = bview s d" if "data_block (sb s) d" "d \<noteq> b" for d
    using alloc_block_other(1) [OF assms(2) P(1) that] P(4) by simp
  ultimately show ?thesis using r log_frameD(1) [OF P(5)] by blast
qed

theorem balloc_correct_witness:
  "\<exists>b t. balloc 1 sample_fs = Some (b, t) \<and> b \<noteq> 100 \<and> bview t b = zero_block \<and> allocated mkfs_sb (bview t) 100 \<and> bview t 100 = zero_block"
proof -
  have n: "\<not> allocated mkfs_sb sample_disk 200" "allocated mkfs_sb sample_disk 100" using sample_bitmap by simp_all
  have d: "data_block mkfs_sb 100" "sb_size mkfs_sb = 1000" by (simp_all add: data_block_def mkfs_sb_def)
  have "sample_disk 100 = zero_block" by (simp add: sample_disk_def)
  moreover obtain b t where bt: "balloc 1 sample_fs = Some (b, t)" "\<not> allocated mkfs_sb sample_disk b" "bview t b = zero_block"
      "\<forall>e. unat e < 1000 \<longrightarrow> allocated mkfs_sb (bview t) e = (allocated mkfs_sb sample_disk e \<or> e = b)"
      "\<forall>e. data_block mkfs_sb e \<longrightarrow> e \<noteq> b \<longrightarrow> bview t e = sample_disk e"
    using balloc_correct [of sample_fs 200] sample_ready [of 2] file_invD [OF sample_inv] n sample_bio d by auto
  ultimately show ?thesis using n d by (intro exI [of _ b] exI [of _ t]) auto
qed

text \<open>C4. \<^verbatim>\<open>writei\<close> refuses an offset past the end of the file, a sum that wraps around, and a file longer than the
  maximum, with -1 and without a change. Otherwise it stores exactly the given bytes at the offset: the other bytes of the file,
  the other cached inodes and the files that share no block with it keep their contents, the file stays
  well-formed, and its size grows to the end of the write. When the blocks are there and the cache and the log have room it returns.\<close>

theorem writei_correct:
  assumes "file_inv i s" "i_type (inode_at s i) \<noteq> T_DEV" "unat (i_inum (inode_at s i)) < unat (sb_ninodes (sb s))"
    and "unat n \<le> length src"
  shows "(\<forall>r t. writei i src off n s = Some (r, t) \<longrightarrow>
      (if off > i_size (inode_at s i) \<or> off + n < off \<or> off + n > of_nat (MAXFILE * BSIZE) then r = -1 \<and> t = s
       else r = int (unat n) \<and> file_written i (unat off) (take (unat n) src) s t
         \<and> i_size (inode_at t i) = (if n > 0 \<and> off + n > i_size (inode_at s i) then off + n else i_size (inode_at s i))))
    \<and> (off \<le> i_size (inode_at s i) \<and> unat off + unat n \<le> MAXFILE * BSIZE \<and> has_blocks i (unat off) (unat n) s
        \<and> ready (chunks (unat off) (unat n) + 1) s \<longrightarrow> (\<exists>t. writei i src off n s = Some (int (unat n), t)))"
proof (intro conjI allI impI)
  fix r t
  assume "writei i src off n s = Some (r, t)"
  then show "if off > i_size (inode_at s i) \<or> off + n < off \<or> off + n > of_nat (MAXFILE * BSIZE) then r = -1 \<and> t = s
       else r = int (unat n) \<and> file_written i (unat off) (take (unat n) src) s t
         \<and> i_size (inode_at t i) = (if n > 0 \<and> off + n > i_size (inode_at s i) then off + n else i_size (inode_at s i))"
    by (rule writei_post [OF assms(1-3)])
next
  assume "off \<le> i_size (inode_at s i) \<and> unat off + unat n \<le> MAXFILE * BSIZE \<and> has_blocks i (unat off) (unat n) s
    \<and> ready (chunks (unat off) (unat n) + 1) s"
  then show "\<exists>t. writei i src off n s = Some (int (unat n), t)"
    using writei_ready [OF assms(1-3) _ _ assms(4), of off 0] by auto
qed

lemma sample_inode_fields [simp]:
  "i_type sample_inode = T_FILE" "i_inum sample_inode = 2" "i_size sample_inode = 512"
  by (simp_all add: sample_inode_def)

lemma sample_ninodes [simp]: "sb_ninodes mkfs_sb = 200"
  by (simp add: mkfs_sb_def)

lemma sample_has_blocks: "off + n \<le> 512 \<Longrightarrow> has_blocks 0 off n sample_fs"
  by (auto simp: has_blocks_def sample_slot)

theorem writei_correct_witness:
  "\<exists>t. writei 0 [1, 2, 3] 5 3 sample_fs = Some (3, t) \<and> file_written 0 5 [1, 2, 3] sample_fs t"
  using writei_correct [of 0 sample_fs 3 "[1, 2, 3]" 5] sample_inv sample_ready [of "Suc (Suc 0)"] sample_has_blocks [of 5 3]
  by (auto simp: chunks_def)

text \<open>C22. \<^verbatim>\<open>readi\<close> refuses an offset past the end of the file and a sum that wraps around. Otherwise it returns the bytes of
  the file from the offset on, as many as asked for but not past its end, and leaves the bytes of the file, the other cached inodes
  and all metadata of this one as they were. When the blocks are there and the cache has room it returns.\<close>

theorem readi_correct:
  assumes "file_inv i s" "i_type (inode_at s i) \<noteq> T_DEV"
  shows "(\<forall>r bs t. readi i off n s = Some ((r, bs), t) \<longrightarrow>
      (if off > i_size (inode_at s i) \<or> off + n < off then r = -1 \<and> bs = [] \<and> t = s
       else file_grows i s t \<and> same_bytes i s t \<and> r = int (length bs)
         \<and> bs = map (file_byte (bview s) (addrs s i)) [unat off..<min (unat off + unat n) (unat (i_size (inode_at s i)))]))
    \<and> (unat off + unat n \<le> MAXFILE * BSIZE \<and> unat off + unat n \<le> unat (i_size (inode_at s i))
        \<and> has_blocks i (unat off) (unat n) s \<and> ready 0 s \<longrightarrow> (\<exists>bs t. readi i off n s = Some ((int (unat n), bs), t)))"
proof (intro conjI allI impI)
  fix r bs t
  assume "readi i off n s = Some ((r, bs), t)"
  then show "if off > i_size (inode_at s i) \<or> off + n < off then r = -1 \<and> bs = [] \<and> t = s
       else file_grows i s t \<and> same_bytes i s t \<and> r = int (length bs)
         \<and> bs = map (file_byte (bview s) (addrs s i)) [unat off..<min (unat off + unat n) (unat (i_size (inode_at s i)))]"
    by (rule readi_post [OF assms])
next
  assume "unat off + unat n \<le> MAXFILE * BSIZE \<and> unat off + unat n \<le> unat (i_size (inode_at s i))
    \<and> has_blocks i (unat off) (unat n) s \<and> ready 0 s"
  then show "\<exists>bs t. readi i off n s = Some ((int (unat n), bs), t)"
    using readi_ready [OF assms] by blast
qed

lemma sample_byte: "x < BSIZE \<Longrightarrow> file_byte sample_disk (i_addrs sample_inode) x = 0"
  by (simp add: file_byte_def sample_slot sample_disk_def)

theorem readi_correct_witness:
  "\<exists>t. readi 0 10 4 sample_fs = Some ((4, [0, 0, 0, 0]), t)"
proof -
  note R = readi_correct [of 0 sample_fs 10 4, OF sample_inv]
  obtain bs t where t: "readi 0 10 4 sample_fs = Some ((4, bs), t)"
    using R sample_ready [of 0] sample_has_blocks [of 10 4] by auto
  moreover have "bs = map (file_byte sample_disk (i_addrs sample_inode)) [10..<14]" using R t sample_bio by simp
  moreover have "[10..<14] = [10, 11, 12, 13 :: nat]" by (simp add: upt_rec)
  ultimately show ?thesis by (simp add: sample_byte)
qed

lemma writei_type:
  assumes inv: "file_inv i s" and ty: "i_type (inode_at s i) \<noteq> T_DEV" and run: "writei i src off n s = Some (r, t)"
    and inum: "unat (i_inum (inode_at s i)) < unat (sb_ninodes (sb s))"
  shows "i_type (inode_at t i) = i_type (inode_at s i)"
  using ty run
proof (cases rule: writei_cases)
  case (ok s1)
  note W = writei_loop_written [OF inv ok(6)]
  have w: "file_inv i s1" "sb s1 = sb s" using W(1) by (simp_all add: file_written_def)
  note l = file_invD(3) [OF w(1)]
  let ?u = "upd_inode i (\<lambda>ip. ip\<lparr>i_size := off + n\<rparr>) s1"
  have "icache t = icache ?u \<or> t = s1"
  proof (cases "n > 0 \<and> off + n > i_size (inode_at s1 i)")
    case True
    then show ?thesis
      using ok(7) iupdate_post(3) [of i ?u t] w l inum same_inodesD(4) [OF W(2)] by (simp add: inode_upd)
  next
    case False
    then show ?thesis using ok(7) by (simp split: if_splits)
  qed
  then show ?thesis using same_inodesD(6) [OF W(2)] l by (auto simp: inode_upd)
qed simp



lemma ilock_ready:
  assumes r: "ready 0 s" and ref: "1 \<le> i_ref (inode_at s i)" "\<not> i_locked (inode_at s i)" "\<not> i_valid (inode_at s i)"
    and i: "i < length (icache s)" "i_dev (inode_at s i) = 1" "IBLOCK (i_inum (inode_at s i)) (sb s) < disksize s"
    and d: "get_dinode (unat (i_inum (inode_at s i)) mod IPB) (bview s (IBLOCK (i_inum (inode_at s i)) (sb s))) = d" "di_type d \<noteq> 0"
  shows "\<exists>t. ilock i s = Some t \<and> inode_at t i = (of_dinode d (inode_at s i))\<lparr>i_locked := True, i_valid := True\<rparr>"
proof -
  let ?s = "upd_inode i (\<lambda>ip. ip\<lparr>i_locked := True\<rparr>) s"
  have s: "inode_at ?s i = (inode_at s i)\<lparr>i_locked := True\<rparr>" using i(1) by (simp add: inode_upd)
  have "ready 0 ?s" "IBLOCK (i_inum (inode_at s i)) (sb s) < disksize ?s" using r i(3) by simp_all
  then obtain h s1 t where p: "bread 1 (IBLOCK (i_inum (inode_at s i)) (sb s)) ?s = Some (h, s1)" "brelse h s1 = Some t"
      "icache s1 = icache ?s" by (rule peek_ready)
  have inv: "bio_inv ?s" using readyD(1) [OF r] by simp
  have b: "b_data (buf_at s1 h) = bview s (IBLOCK (i_inum (inode_at s i)) (sb s))" "bio.more s1 = bio.more ?s"
    using bread_read [OF inv p(1)] by simp_all
  let ?u = "upd_inode i (of_dinode d) s1"
  have "bdirty s1 b \<or> bview s1 b = memdisk s1 b" if "b = IBLOCK (i_inum (inode_at s i)) (sb s)" for b
    using bread_read [OF inv p(1)] that by auto
  moreover have "bdirty ?u = bdirty s1" by (rule bio_cong) (simp_all add: upd_inode_def)
  ultimately obtain t' where t': "brelse h ?u = Some t'" "bio.more t' = bio.more ?u"
    using brelse_post [of ?u h "IBLOCK (i_inum (inode_at s i)) (sb s)"] bread_read(1,2) [OF inv p(1)] by auto
  note ic = more_fs(1) [OF t'(2)]
  have l: "i < length (icache t')" using ic p(3) i(1) by simp
  have t1: "inode_at t' i = of_dinode d ((inode_at s i)\<lparr>i_locked := True\<rparr>)"
    using ic p(3) i(1) s by (simp add: inode_upd)
  have "ilock i s = Some (upd_inode i (\<lambda>ip. ip\<lparr>i_valid := True\<rparr>) t')"
    using ref i s p(1) b(1) d t'(1) t1 l
    by (simp add: ilock_def acquiresleep_inode_def Let_def inode_upd of_dinode_def)
  then show ?thesis using t1 l by (simp add: inode_upd of_dinode_def)
qed

lemma of_to_dinode: "of_dinode (to_dinode ip) (zero_inode\<lparr>i_dev := i_dev ip, i_inum := i_inum ip, i_ref := n\<rparr>) =
    ip\<lparr>i_ref := n, i_locked := False, i_valid := False\<rparr>"
  by (simp add: of_dinode_def to_dinode_def zero_inode_def)

text \<open>C24. An inode survives its eviction from the cache: after \<^verbatim>\<open>iupdate\<close> the cached copy can be dropped, and when the slot is taken
  again for the same inode, \<^verbatim>\<open>ilock\<close> loads back exactly the type, device numbers, link count, size and block addresses the inode had.\<close>

theorem iupdate_then_ilock:
  assumes inv: "file_inv i s" and inum: "unat (i_inum (inode_at s i)) < unat (sb_ninodes (sb s))" and r: "ready 1 s"
    and ty: "i_type (inode_at s i) \<noteq> 0"
  shows "\<exists>t u. iupdate i s = Some t
    \<and> ilock i (upd_inode i (\<lambda>ip. zero_inode\<lparr>i_dev := i_dev ip, i_inum := i_inum ip, i_ref := 1\<rparr>) t) = Some u
    \<and> inode_at u i = (inode_at s i)\<lparr>i_ref := 1, i_locked := True, i_valid := True\<rparr>"
proof -
  obtain t where t: "iupdate i s = Some t" "ready 0 t" using iupdate_ready [OF inv inum, of 0] r by auto
  note P = iupdate_post [OF inv inum t(1)] and D = iupdate_dinode [OF inv inum t(1)]
  note F = log_frameD [OF P(4)]
  have l: "i < length (icache t)" using file_invD(3) [OF P(1)] .
  let ?z = "\<lambda>ip. zero_inode\<lparr>i_dev := i_dev ip, i_inum := i_inum ip, i_ref := 1\<rparr>"
  let ?t = "upd_inode i ?z t"
  have z: "inode_at ?t i = ?z (inode_at s i)" using l P(3) by (simp add: inode_upd)
  have "IBLOCK (i_inum (inode_at s i)) (sb s) < disksize t"
    using IBLOCK_on_disk [OF P(1) t(2), of "i_inum (inode_at s i)"] inum F(2) by simp
  then obtain u where "ilock i ?t = Some u"
      "inode_at u i = (of_dinode (to_dinode (inode_at s i)) (?z (inode_at s i)))\<lparr>i_locked := True, i_valid := True\<rparr>"
    using ilock_ready [of ?t i "to_dinode (inode_at s i)"] t(2) l z D F(2) file_invD(4) [OF inv] ty
    by (auto simp: zero_inode_def to_dinode_def)
  then show ?thesis using t(1) by (auto simp: of_to_dinode)
qed

theorem iupdate_then_ilock_witness:
  "\<exists>t u. iupdate 0 sample_fs = Some t
    \<and> ilock 0 (upd_inode 0 (\<lambda>ip. zero_inode\<lparr>i_dev := i_dev ip, i_inum := i_inum ip, i_ref := 1\<rparr>) t) = Some u \<and> inode_at u 0 = sample_inode"
  using iupdate_then_ilock [of 0 sample_fs] sample_inv sample_ready [of 1] by (auto simp: sample_inode_def)

end
