(* ===== verification/Xv6_Grep.thy ===== *)
theory Xv6_Grep
  imports Xv6_String
begin

text \<open>
  The program \<^verbatim>\<open>grep\<close>: the regular expression matcher \<^verbatim>\<open>match\<close>, \<^verbatim>\<open>matchhere\<close>, \<^verbatim>\<open>matchstar\<close>, and the loop that splits
  its input into lines. Strings are the bytes from a pointer on; reading past them is \<open>None\<close>. The input
  is the list of what the successive calls of \<^verbatim>\<open>read\<close> return. The matcher is proved equivalent to the language
  of the expression, and the loop to print the lines that match.
\<close>

section \<open>The matcher\<close>

function (sequential) matchhere :: "byte list \<Rightarrow> byte list \<Rightarrow> bool option"
  and matchstar :: "byte \<Rightarrow> byte list \<Rightarrow> byte list \<Rightarrow> bool option" where
  "matchhere [] text = None"
| "matchhere (c # re) text =
     (if c = 0 then Some True
      else case re of
        [] \<Rightarrow> None
      | d # re' \<Rightarrow>
          if d = 42 then matchstar c re' text
          else (case text of
            [] \<Rightarrow> None
          | x # text' \<Rightarrow>
              if c = 36 \<and> d = 0 then Some (x = 0)
              else if x \<noteq> 0 \<and> (c = 46 \<or> c = x) then matchhere re text'
              else Some False))"
| "matchstar c re text =
     (case matchhere re text of
        None \<Rightarrow> None
      | Some True \<Rightarrow> Some True
      | Some False \<Rightarrow>
          (case text of
             [] \<Rightarrow> None
           | x # text' \<Rightarrow> if x \<noteq> 0 \<and> (x = c \<or> c = 46) then matchstar c re text' else Some False))"
  by pat_completeness auto
termination
  by (relation "measure (\<lambda>x. case x of Inl (re, t) \<Rightarrow> 2 * (length re + length t)
    | Inr (c, re, t) \<Rightarrow> Suc (2 * (length re + length t)))") auto

fun match_from :: "byte list \<Rightarrow> byte list \<Rightarrow> bool option" where
  "match_from re text =
     (case matchhere re text of
        None \<Rightarrow> None
      | Some True \<Rightarrow> Some True
      | Some False \<Rightarrow> (case text of [] \<Rightarrow> None | x # text' \<Rightarrow> if x \<noteq> 0 then match_from re text' else Some False))"

definition match :: "byte list \<Rightarrow> byte list \<Rightarrow> bool option" where
  "match re text =
     (case re of
        [] \<Rightarrow> None
      | c # re' \<Rightarrow> if c = 94 then matchhere re' text else match_from re text)"

declare matchhere.simps(2) [simp del] matchstar.simps [simp del] match_from.simps [simp del]

section \<open>The loop over the lines\<close>

lemma strchr_less: "strchr s c = Some (Some k) \<Longrightarrow> k < length s"
  by (induction s arbitrary: k) (auto split: if_splits)

function grep_scan :: "byte list \<Rightarrow> byte list \<Rightarrow> nat \<Rightarrow> byte list \<Rightarrow> (nat \<times> byte list \<times> byte list) option" where
  "grep_scan pattern buf p out =
     (case strchr (drop p buf) 10 of
        None \<Rightarrow> None
      | Some None \<Rightarrow> Some (p, buf, out)
      | Some (Some k) \<Rightarrow>
          let q = p + k; buf = buf[q := 0] in
          (case match pattern (drop p buf) of
             None \<Rightarrow> None
           | Some True \<Rightarrow> (let buf = buf[q := 10] in grep_scan pattern buf (q + 1) (out @ cut p (q + 1 - p) buf))
           | Some False \<Rightarrow> grep_scan pattern buf (q + 1) out))"
  by pat_completeness auto
termination
  by (relation "measure (\<lambda>(pattern, buf, p, out). length buf - p)") (auto dest!: strchr_less)

declare grep_scan.simps [simp del]

fun grep_loop :: "byte list \<Rightarrow> byte list list \<Rightarrow> byte list \<Rightarrow> nat \<Rightarrow> byte list \<Rightarrow> byte list option" where
  "grep_loop pattern [] buf m out = Some out"
| "grep_loop pattern (r # reads) buf m out =
     (if r = [] then Some out
      else if length r > length buf - m - 1 then None
      else do {
        let buf = blit m r buf;
        let m = m + length r;
        let buf = buf[m := 0];
        (p, buf, out) \<leftarrow> grep_scan pattern buf 0 out;
        let m = (if p = 0 then 0 else m);
        if m > 0 then do {
          let m = m - p;
          buf \<leftarrow> ulib_memmove 0 p (int m) buf;
          grep_loop pattern reads buf m out
        } else grep_loop pattern reads buf m out
      })"

definition grep :: "byte list \<Rightarrow> byte list list \<Rightarrow> byte list option" where
  "grep pattern reads = grep_loop pattern reads (replicate 1024 0) 0 []"

section \<open>The language of an expression\<close>

text \<open>
  An expression is a sequence of items: one character (or any), a repetition, or the end of the line. \<open>lang\<close> says
  which texts they stand for.
\<close>

datatype item = One byte | Star byte | End

fun items :: "byte list \<Rightarrow> item list" where
  "items [] = []"
| "items [c] = [if c = 36 then End else One c]"
| "items (c # d # re) = (if d = 42 then Star c # items re else One c # items (d # re))"

definition stands_for :: "byte \<Rightarrow> byte \<Rightarrow> bool" where
  "stands_for c x \<longleftrightarrow> c = 46 \<or> c = x"

inductive lang :: "item list \<Rightarrow> byte list \<Rightarrow> byte list \<Rightarrow> bool" where
  "lang [] [] rest"
| "stands_for c x \<Longrightarrow> lang rs m rest \<Longrightarrow> lang (One c # rs) (x # m) rest"
| "\<forall>x \<in> set u. stands_for c x \<Longrightarrow> lang rs m rest \<Longrightarrow> lang (Star c # rs) (u @ m) rest"
| "lang rs m [] \<Longrightarrow> lang (End # rs) m []"

inductive_cases lang_NilE: "lang [] m rest"
inductive_cases lang_OneE: "lang (One c # rs) m rest"
inductive_cases lang_StarE: "lang (Star c # rs) m rest"
inductive_cases lang_EndE: "lang (End # rs) m rest"

definition here :: "item list \<Rightarrow> byte list \<Rightarrow> bool" where
  "here rs t \<longleftrightarrow> (\<exists>m rest. t = m @ rest \<and> lang rs m rest)"

lemma here_Nil [simp]: "here [] t"
  by (auto simp: here_def intro: lang.intros)

lemma here_End [simp]: "here [End] t \<longleftrightarrow> t = []"
  by (auto simp: here_def elim!: lang_EndE lang_NilE intro: lang.intros)

lemma here_One: "here (One c # rs) t \<longleftrightarrow> (case t of [] \<Rightarrow> False | x # t \<Rightarrow> stands_for c x \<and> here rs t)"
proof -
  have "here (One c # rs) (x # t)" if "stands_for c x" "here rs t" for x t
    using that lang.intros(2) [of c x rs] unfolding here_def by (metis append_Cons)
  moreover have "\<exists>x t'. t = x # t' \<and> stands_for c x \<and> here rs t'" if h: "here (One c # rs) t"
  proof -
    obtain x m rest where "t = x # m @ rest" "stands_for c x" "lang rs m rest"
      using h by (auto simp: here_def elim!: lang_OneE)
    then show ?thesis by (auto simp: here_def)
  qed
  ultimately show ?thesis by (auto split: list.split)
qed

lemma here_Star: "here (Star c # rs) t \<longleftrightarrow> here rs t \<or> (case t of [] \<Rightarrow> False | x # t \<Rightarrow> stands_for c x \<and> here (Star c # rs) t)"
proof -
  have 1: "here (Star c # rs) t" if "here rs t" for t
    using that lang.intros(3) [of "[]" c rs] unfolding here_def by (metis append_Nil empty_iff list.set(1))
  have 2: "here (Star c # rs) (x # t)" if "stands_for c x" "here (Star c # rs) t" for x t
  proof -
    from that(2) obtain u m rest where u: "t = (u @ m) @ rest" "\<forall>x \<in> set u. stands_for c x" "lang rs m rest"
      by (auto simp: here_def elim!: lang_StarE)
    then have "lang (Star c # rs) ((x # u) @ m) rest" using that(1) by (intro lang.intros(3)) auto
    then show ?thesis using u(1) unfolding here_def by (metis append_Cons)
  qed
  have 3: "here rs t \<or> (\<exists>x t'. t = x # t' \<and> stands_for c x \<and> here (Star c # rs) t')" if "here (Star c # rs) t"
  proof -
    from that obtain u m rest where u: "t = (u @ m) @ rest" "\<forall>x \<in> set u. stands_for c x" "lang rs m rest"
      by (auto simp: here_def elim!: lang_StarE)
    show ?thesis
    proof (cases u)
      case Nil
      then show ?thesis using u by (auto simp: here_def)
    next
      case (Cons x v)
      then have "lang (Star c # rs) (v @ m) rest" using u by (intro lang.intros(3)) auto
      then have "here (Star c # rs) ((v @ m) @ rest)" unfolding here_def by blast
      then show ?thesis using u Cons by auto
    qed
  qed
  show ?thesis
  proof (cases t)
    case Nil
    then show ?thesis using 1 [of t] 3 by auto
  next
    case (Cons x t')
    then show ?thesis using 1 [of t] 2 [of x t'] 3 by auto
  qed
qed

lemma matchhere_here:
  "0 \<notin> set p \<Longrightarrow> 0 \<notin> set t \<Longrightarrow> re = p @ 0 # p' \<Longrightarrow> tx = t @ 0 # t' \<Longrightarrow> matchhere re tx = Some (here (items p) t)"
  "0 \<notin> set p \<Longrightarrow> 0 \<notin> set t \<Longrightarrow> re = p @ 0 # p' \<Longrightarrow> tx = t @ 0 # t' \<Longrightarrow> matchstar c re tx = Some (here (Star c # items p) t)"
proof (induction re tx and c re tx arbitrary: p t and p t rule: matchhere_matchstar.induct)
  case two: (2 c re tx)
  show ?case
  proof (cases p rule: items.cases)
    case (3 c' d q)
    show ?thesis
    proof (cases "d = 42")
      case True
      then have "matchstar c (q @ 0 # p') tx = Some (here (Star c # items q) t)"
        using two.prems 3 by (intro two.IH(1)) auto
      then show ?thesis using two.prems 3 True by (subst matchhere.simps) auto
    next
      case d: False
      show ?thesis
      proof (cases t)
        case Nil
        then show ?thesis using two.prems 3 d by (subst matchhere.simps) (auto simp: here_One)
      next
        case (Cons x t1)
        have "matchhere re (t1 @ 0 # t') = Some (here (items (d # q)) t1)" if "c' = 46 \<or> c' = x"
          by (rule two.IH(2)) (use two.prems 3 d Cons that in auto)
        then show ?thesis using two.prems 3 d Cons by (subst matchhere.simps) (auto simp: here_One stands_for_def)
      qed
    qed
  next
    case 1
    then show ?thesis using two.prems by (simp add: matchhere.simps)
  next
    case (2 c')
    then show ?thesis using two.prems
      by (cases t) (auto simp: matchhere.simps here_One stands_for_def)
  qed
next
  case (3 c re tx)
  have h: "matchhere re tx = Some (here (items p) t)" by (rule 3) (use 3 in auto)
  show ?case
  proof (cases t)
    case Nil
    then show ?thesis using 3 h by (subst matchstar.simps, subst here_Star) (auto split: bool.split)
  next
    case (Cons x t1)
    have "matchstar c re (t1 @ 0 # t') = Some (here (Star c # items p) t1)"
      if "\<not> here (items p) t" "x = c \<or> c = 46" by (rule 3(2)) (use 3 Cons h that in auto)
    then show ?thesis using 3(3-6) Cons h
      by (subst matchstar.simps, subst here_Star) (auto simp: stands_for_def split: bool.split)
  qed
qed simp

text \<open>What \<^verbatim>\<open>match\<close> looks for: the expression anywhere in the text, or at its start after a \<^verbatim>\<open>^\<close>.\<close>

definition found :: "byte list \<Rightarrow> byte list \<Rightarrow> bool" where
  "found p t \<longleftrightarrow> (if p \<noteq> [] \<and> hd p = 94 then here (items (tl p)) t else \<exists>u v. t = u @ v \<and> here (items p) v)"

lemma match_from_here:
  assumes "0 \<notin> set p"
  shows "0 \<notin> set t \<Longrightarrow> match_from (p @ 0 # p') (t @ 0 # t') = Some (\<exists>u v. t = u @ v \<and> here (items p) v)"
proof (induction t)
  case Nil
  then show ?case using matchhere_here(1) [OF assms, of "[]" _ p' _ t'] by (subst match_from.simps) (auto split: bool.split)
next
  case (Cons x t)
  have s: "(\<exists>u v. x # t = u @ v \<and> here (items p) v) \<longleftrightarrow> here (items p) (x # t) \<or> (\<exists>u v. t = u @ v \<and> here (items p) v)"
    by (auto simp: Cons_eq_append_conv)
  show ?case
    unfolding s using Cons matchhere_here(1) [OF assms, of "x # t" _ p' _ t'] by (subst match_from.simps) (auto split: bool.split)
qed

lemma match_found:
  assumes "0 \<notin> set p" "0 \<notin> set t"
  shows "match (p @ 0 # p') (t @ 0 # t') = Some (found p t)"
proof (cases p)
  case Nil
  then show ?thesis using match_from_here [OF assms(1), of t p' t'] assms(2) by (simp add: match_def found_def)
next
  case (Cons c q)
  then show ?thesis
    using match_from_here [OF assms(1), of t p' t'] matchhere_here(1) [of q t "q @ 0 # p'" p' _ t'] assms
    by (simp add: match_def found_def)
qed

section \<open>Lines\<close>

fun split_lines :: "byte list \<Rightarrow> byte list list \<times> byte list" where
  "split_lines [] = ([], [])"
| "split_lines (x # xs) =
     (case split_lines xs of (ls, r) \<Rightarrow>
        if x = 10 then ([] # ls, r) else case ls of [] \<Rightarrow> ([], x # r) | l # ls \<Rightarrow> ((x # l) # ls, r))"

definition matching :: "byte list \<Rightarrow> byte list list \<Rightarrow> byte list" where
  "matching p ls = concat (map (\<lambda>l. l @ [10]) (filter (found p) ls))"

lemma split_lines_no_newline: "10 \<notin> set xs \<Longrightarrow> split_lines xs = ([], xs)"
  by (induction xs) auto

lemma split_lines_newline: "10 \<notin> set l \<Longrightarrow> split_lines (l @ 10 # xs) = (l # fst (split_lines xs), snd (split_lines xs))"
  by (induction l) (auto split: prod.split)

lemma split_lines_none: "fst (split_lines xs) = [] \<longleftrightarrow> 10 \<notin> set xs"
  by (induction xs) (auto split: prod.split list.split)

lemma split_lines_append:
  "split_lines (a @ b) = (fst (split_lines a) @ fst (split_lines (snd (split_lines a) @ b)), snd (split_lines (snd (split_lines a) @ b)))"
proof (induction "length a" arbitrary: a rule: less_induct)
  case less
  show ?case
  proof (cases "10 \<in> set a")
    case False
    then show ?thesis by (simp add: split_lines_no_newline)
  next
    case True
    then obtain l xs where a: "a = l @ 10 # xs" "10 \<notin> set l" by (meson split_list_first)
    then show ?thesis using less.hyps [of xs] split_lines_newline [OF a(2), of "xs @ b"] split_lines_newline [OF a(2), of xs]
      by simp
  qed
qed

lemma length_rest: "length (snd (split_lines xs)) \<le> length xs"
  by (induction xs) (auto split: prod.split list.split)

lemma set_rest: "set (snd (split_lines xs)) \<subseteq> set xs"
  by (induction xs) (auto split: prod.split list.split)

lemma rest_less: "10 \<in> set xs \<Longrightarrow> length (snd (split_lines xs)) < length xs"
proof -
  assume "10 \<in> set xs"
  then obtain l ys where "xs = l @ 10 # ys" "10 \<notin> set l" by (meson split_list_first)
  then show ?thesis using split_lines_newline [of l ys] length_rest [of ys] by simp
qed

lemma strchr_newline:
  "0 \<notin> set l \<Longrightarrow> 10 \<notin> set l \<Longrightarrow> strchr (l @ 10 # xs) 10 = Some (Some (length l))"
  "0 \<notin> set l \<Longrightarrow> 10 \<notin> set l \<Longrightarrow> strchr (l @ 0 # xs) 10 = Some None"
  by (induction l) auto

lemma grep_scan_lines:
  assumes "0 \<notin> set p"
  shows "0 \<notin> set body \<Longrightarrow> \<exists>pre'. grep_scan (p @ 0 # p') (pre @ body @ 0 # z) (length pre) out =
      Some (length pre', pre' @ snd (split_lines body) @ 0 # z, out @ matching p (fst (split_lines body)))
      \<and> length pre' + length (snd (split_lines body)) = length pre + length body"
proof (induction "length body" arbitrary: body pre out rule: less_induct)
  case less
  show ?case
  proof (cases "10 \<in> set body")
    case False
    then show ?thesis
      using less.prems strchr_newline(2) [of body z]
      by (subst grep_scan.simps) (auto simp: split_lines_no_newline matching_def)
  next
    case True
    then obtain l xs where b: "body = l @ 10 # xs" "10 \<notin> set l" by (meson split_list_first)
    have l: "0 \<notin> set l" "0 \<notin> set xs" using less.prems b by auto
    note sp = split_lines_newline [OF b(2), of xs]
    let ?buf = "pre @ body @ 0 # z" and ?q = "length pre + length l"
    have d: "?buf[?q := y] = (pre @ l @ [y]) @ xs @ 0 # z" for y by (simp add: b list_update_append)
    have d10: "((pre @ l @ [0]) @ xs @ 0 # z)[?q := 10] = (pre @ l @ [10]) @ xs @ 0 # z" by (simp add: list_update_append)
    have m: "match (p @ 0 # p') (drop (length pre) (?buf[?q := 0])) = Some (found p l)"
      using match_found [OF assms l(1)] unfolding d by simp
    have c: "strchr (drop (length pre) ?buf) 10 = Some (Some (length l))"
      using strchr_newline(1) [OF l(1) b(2)] by (simp add: b)
    have IH: "\<exists>pre'. grep_scan (p @ 0 # p') ((pre @ l @ [y]) @ xs @ 0 # z) (length (pre @ l @ [y])) out' =
      Some (length pre', pre' @ snd (split_lines xs) @ 0 # z, out' @ matching p (fst (split_lines xs)))
      \<and> length pre' + length (snd (split_lines xs)) = length (pre @ l @ [y]) + length xs" for y out'
      by (rule less.hyps) (use b l in auto)
    have k: "cut (length pre) (?q + 1 - length pre) ((pre @ l @ [10]) @ xs @ 0 # z) = l @ [10]" by (simp add: cut_def)
    show ?thesis
    proof (cases "found p l")
      case True
      have "grep_scan (p @ 0 # p') ?buf (length pre) out =
        grep_scan (p @ 0 # p') ((pre @ l @ [10]) @ xs @ 0 # z) (length (pre @ l @ [10 :: byte])) (out @ l @ [10])"
        using c m d [of 0] d10 True k by (subst grep_scan.simps) (simp add: Let_def)
      then show ?thesis using IH [of 10 "out @ l @ [10]"] b sp True by (simp add: matching_def add.assoc)
    next
      case False
      have "grep_scan (p @ 0 # p') ?buf (length pre) out =
        grep_scan (p @ 0 # p') ((pre @ l @ [0]) @ xs @ 0 # z) (length (pre @ l @ [0 :: byte])) out"
        using c m d False by (subst grep_scan.simps) (simp add: Let_def)
      then show ?thesis using IH [of 0 out] b sp False by (simp add: matching_def add.assoc)
    qed
  qed
qed

text \<open>
  What the loop prints when every read returns some bytes: the matching lines of what has been kept and what is read. A line that
  has only begun is kept for the next read, but only if the last read had the end of a line.
\<close>

fun printed :: "byte list \<Rightarrow> byte list \<Rightarrow> byte list list \<Rightarrow> byte list" where
  "printed p kept [] = []"
| "printed p kept (r # reads) =
     (case split_lines (kept @ r) of (ls, rest) \<Rightarrow> matching p ls @ printed p (if ls = [] then [] else rest) reads)"

text \<open>The reads return some bytes and no more than fit.\<close>

fun reads_fit :: "byte list \<Rightarrow> byte list list \<Rightarrow> bool" where
  "reads_fit kept [] \<longleftrightarrow> True"
| "reads_fit kept (r # reads) \<longleftrightarrow> r \<noteq> [] \<and> 0 \<notin> set r \<and> length kept + length r < 1024 \<and>
     reads_fit (if 10 \<in> set (kept @ r) then snd (split_lines (kept @ r)) else []) reads"

lemma grep_loop_printed:
  assumes "0 \<notin> set p"
  shows "length buf = 1024 \<Longrightarrow> take (length kept) buf = kept \<Longrightarrow> length kept < 1024 \<Longrightarrow> 0 \<notin> set kept \<Longrightarrow> reads_fit kept reads \<Longrightarrow>
    grep_loop (p @ 0 # p') reads buf (length kept) out = Some (out @ printed p kept reads)"
proof (induction reads arbitrary: buf kept out)
  case (Cons r reads)
  let ?body = "kept @ r" and ?m = "length kept + length r"
  define z where "z = drop (Suc ?m) buf"
  have fit: "r \<noteq> []" "0 \<notin> set r" "?m < 1024" using Cons.prems(5) by auto
  have buf: "(blit (length kept) r buf)[?m := 0] = [] @ ?body @ 0 # z"
  proof -
    have "drop ?m buf = buf ! ?m # z" using Cons.prems(1) fit(3) by (simp add: z_def Cons_nth_drop_Suc)
    then show ?thesis using Cons.prems(2) by (simp add: blit_def list_update_append)
  qed
  obtain pre where pre: "grep_scan (p @ 0 # p') ([] @ ?body @ 0 # z) (length ([] :: byte list)) out =
      Some (length pre, pre @ snd (split_lines ?body) @ 0 # z, out @ matching p (fst (split_lines ?body)))"
      "length pre + length (snd (split_lines ?body)) = ?m"
    using grep_scan_lines [OF assms, of ?body p' "[]" z out] Cons.prems(4) fit(2) by auto
  have len: "length (pre @ snd (split_lines ?body) @ 0 # z) = 1024"
    using pre(2) Cons.prems(1) fit(3) by (simp add: z_def)
  note run = buf pre(1)
  show ?case
  proof (cases "10 \<in> set ?body")
    case False
    then have "split_lines ?body = ([], ?body)" by (rule split_lines_no_newline)
    moreover from this have "length pre = 0" using pre(2) by simp
    ultimately show ?thesis
      using run len fit Cons.IH [of "?body @ 0 # z" "[]" out] Cons.prems(1,5) False by (simp add: Let_def matching_def)
  next
    case True
    let ?rest = "snd (split_lines ?body)"
    have p0: "length pre \<noteq> 0" using rest_less [OF True] pre(2) by auto
    have m: "?m - length pre = length ?rest" using pre(2) by simp
    have "cut (length pre) (length ?rest) (pre @ ?rest @ 0 # z) = ?rest" by (simp add: cut_def)
    then have mv: "ulib_memmove 0 (length pre) (int (?m - length pre)) (pre @ ?rest @ 0 # z) = Some (blit 0 ?rest (pre @ ?rest @ 0 # z))"
      using copy_up_blit [of 0 "length ?rest" "pre @ ?rest @ 0 # z" "length pre"] m by (simp only: ulib_memmove_def nat_int) simp
    have IH: "grep_loop (p @ 0 # p') reads (blit 0 ?rest (pre @ ?rest @ 0 # z)) (length ?rest) (out @ matching p (fst (split_lines ?body)))
      = Some ((out @ matching p (fst (split_lines ?body))) @ printed p ?rest reads)"
      using Cons.prems(4,5) fit len set_rest [of ?body] pre(2) True
      by (intro Cons.IH) (auto simp: blit_def split: if_splits)
    show ?thesis
      using run fit p0 mv IH m Cons.prems(1) True split_lines_none [of ?body] by (auto simp: Let_def split: prod.split)
  qed
qed simp

text \<open>C28. The matcher decides the language of the expression: \<^verbatim>\<open>match\<close> of a pattern and a text, both terminated by a zero, returns
  true exactly if some part of the text is in the language of the pattern, where \<^verbatim>\<open>.\<close> stands for any character, \<^verbatim>\<open>c*\<close> for any number of
  them, a leading \<^verbatim>\<open>^\<close> for the start and a final \<^verbatim>\<open>$\<close> for the end of the text. It always returns, without reading past a zero.\<close>

theorem match_decides:
  assumes "0 \<notin> set p" "0 \<notin> set t"
  shows "match (p @ 0 # p') (t @ 0 # t') = Some (\<exists>u m rest. t = u @ m @ rest \<and>
    (if p \<noteq> [] \<and> hd p = 94 then u = [] \<and> lang (items (tl p)) m rest else lang (items p) m rest))"
proof -
  have "found p t \<longleftrightarrow> (\<exists>u m rest. t = u @ m @ rest \<and>
    (if p \<noteq> [] \<and> hd p = 94 then u = [] \<and> lang (items (tl p)) m rest else lang (items p) m rest))"
    by (auto simp: found_def here_def)
  then show ?thesis using match_found [OF assms] by simp
qed

theorem match_decides_witness:
  "match [97, 46, 42, 36, 0] [98, 97, 99, 0] = Some True \<and> (\<exists>u m rest. [98, 97, 99] = u @ m @ rest \<and> lang (items [97, 46, 42, 36]) m rest)"
proof -
  have "match [97, 46, 42, 36, 0] [98, 97, 99, 0] = Some True" by code_simp
  moreover have "match [97, 46, 42, 36, 0] [98, 97, 99, 0] =
      Some (\<exists>u m rest. [98, 97, 99] = u @ m @ rest \<and> lang (items [97, 46, 42, 36]) m rest)"
    using match_decides [of "[97, 46, 42, 36]" "[98, 97, 99]" "[]" "[]"] by simp
  ultimately show ?thesis by simp
qed

lemma matching_append: "matching p (a @ b) = matching p a @ matching p b"
  by (simp add: matching_def)

lemma rest_no_newline: "10 \<notin> set (snd (split_lines xs))"
  by (induction xs) (auto split: prod.split list.split)

lemma printed_lines:
  "reads_fit kept reads \<Longrightarrow> \<forall>r \<in> set reads. 10 \<in> set r \<Longrightarrow> 10 \<notin> set kept \<Longrightarrow>
   printed p kept reads = matching p (fst (split_lines (kept @ concat reads)))"
proof (induction reads arbitrary: kept)
  case (Cons r reads)
  let ?rest = "snd (split_lines (kept @ r))"
  have "fst (split_lines (kept @ r)) \<noteq> []" using Cons.prems(2) by (simp add: split_lines_none)
  moreover have "printed p ?rest reads = matching p (fst (split_lines (?rest @ concat reads)))"
    by (rule Cons.IH) (use Cons.prems rest_no_newline in auto)
  ultimately show ?case
    using split_lines_append [of "kept @ r" "concat reads"] by (auto simp: matching_append split: prod.split)
qed (simp add: split_lines_no_newline matching_def)



text \<open>
  A read that has no end of a line makes \<^verbatim>\<open>grep\<close> forget what it has read: the same line is printed when it comes in one read,
  and lost when it comes in two.
\<close>

lemma grep_loses_partial_line:
  "grep [97, 0] [[97, 98, 10]] = Some [97, 98, 10]" "grep [97, 0] [[97], [98, 10]] = Some []"
  by code_simp+

end
