(* ===== verification/Xv6_Shell.thy ===== *)
theory Xv6_Shell
  imports Xv6_String
begin

text \<open>
  The parser of the shell, \<^verbatim>\<open>sh.c\<close>: the tokenizer \<^verbatim>\<open>gettoken\<close> and \<^verbatim>\<open>peek\<close>, the recursive descent from \<^verbatim>\<open>parsecmd\<close> on, and
  \<^verbatim>\<open>nulterminate\<close>. Pointers into the line are indices of the buffer. A result is a value, an error message (the
  shell's \<^verbatim>\<open>panic\<close> prints it and exits), or \<open>Stuck\<close>, a read outside of the buffer or recursion that has used up its
  fuel; it is proved that a terminated line never gets stuck. Allocation of the nodes of the tree is taken to succeed.
\<close>

section \<open>Commands and results\<close>

abbreviation MAXARGS :: nat where "MAXARGS \<equiv> 10"

abbreviation O_RDONLY :: int where "O_RDONLY \<equiv> 0"

abbreviation O_WRONLY_CREATE :: int where "O_WRONLY_CREATE \<equiv> 0x201"

text \<open>An argument or file name is a pair of pointers to its first byte and past its last.\<close>

datatype cmd =
    EXEC "(nat \<times> nat) list"
  | REDIR cmd "nat \<times> nat" int int
  | PIPE cmd cmd
  | LIST cmd cmd
  | BACK cmd

datatype 'a res = Ok 'a | Error string | Stuck

fun rbind :: "'a res \<Rightarrow> ('a \<Rightarrow> 'b res) \<Rightarrow> 'b res" where
  "rbind (Ok x) f = f x"
| "rbind (Error msg) f = Error msg"
| "rbind Stuck f = Stuck"

section \<open>Tokens\<close>

definition whitespace :: "byte list" where
  "whitespace = [32, 9, 13, 10, 11, 0]"

definition symbols :: "byte list" where
  "symbols = [60, 124, 62, 38, 59, 40, 41, 0]"

definition isin :: "byte list \<Rightarrow> byte \<Rightarrow> bool" where
  "isin s c \<longleftrightarrow> strchr s c \<noteq> Some None"

definition deref :: "byte list \<Rightarrow> nat \<Rightarrow> byte res" where
  "deref buf s = (if s < length buf then Ok (buf ! s) else Stuck)"

function skip_ws :: "byte list \<Rightarrow> nat \<Rightarrow> nat \<Rightarrow> nat res" where
  "skip_ws buf s es =
     (if s < es then
        if s < length buf then if isin whitespace (buf ! s) then skip_ws buf (s + 1) es else Ok s else Stuck
      else Ok s)"
  by pat_completeness auto
termination by (relation "measure (\<lambda>(buf, s, es). es - s)") auto

function skip_word :: "byte list \<Rightarrow> nat \<Rightarrow> nat \<Rightarrow> nat res" where
  "skip_word buf s es =
     (if s < es then
        if s < length buf then
          if \<not> isin whitespace (buf ! s) \<and> \<not> isin symbols (buf ! s) then skip_word buf (s + 1) es else Ok s
        else Stuck
      else Ok s)"
  by pat_completeness auto
termination by (relation "measure (\<lambda>(buf, s, es). es - s)") auto

declare skip_ws.simps [simp del] skip_word.simps [simp del]

text \<open>The switch of \<^verbatim>\<open>gettoken\<close> on the first byte of a token gives its kind and its end.\<close>

definition token_at :: "byte list \<Rightarrow> nat \<Rightarrow> nat \<Rightarrow> byte \<Rightarrow> (byte \<times> nat) res" where
  "token_at buf s es c =
     (if c = 0 then Ok (c, s)
      else if c \<in> {124, 40, 41, 59, 38, 60} then Ok (c, s + 1)
      else if c = 62 then rbind (deref buf (s + 1)) (\<lambda>d. if d = 62 then Ok (43, s + 2) else Ok (c, s + 1))
      else rbind (skip_word buf s es) (\<lambda>e. Ok (97, e)))"

text \<open>The kind of the token, its start and end, and the position after it and the white space behind it.\<close>

definition gettoken :: "byte list \<Rightarrow> nat \<Rightarrow> nat \<Rightarrow> (byte \<times> nat \<times> nat \<times> nat) res" where
  "gettoken buf ps es =
     rbind (skip_ws buf ps es) (\<lambda>s.
     rbind (deref buf s) (\<lambda>c.
     rbind (token_at buf s es c) (\<lambda>(ret, e).
     rbind (skip_ws buf e es) (\<lambda>ps. Ok (ret, s, e, ps)))))"

definition peek :: "byte list \<Rightarrow> nat \<Rightarrow> nat \<Rightarrow> byte list \<Rightarrow> (bool \<times> nat) res" where
  "peek buf ps es toks =
     rbind (skip_ws buf ps es) (\<lambda>s. rbind (deref buf s) (\<lambda>c. Ok (c \<noteq> 0 \<and> isin toks c, s)))"

section \<open>The parser\<close>

fun parseredirs :: "nat \<Rightarrow> cmd \<Rightarrow> byte list \<Rightarrow> nat \<Rightarrow> nat \<Rightarrow> (cmd \<times> nat) res" where
  "parseredirs 0 cmd buf ps es = Stuck"
| "parseredirs (Suc n) cmd buf ps es =
     rbind (peek buf ps es [60, 62, 0]) (\<lambda>(more, ps).
     if \<not> more then Ok (cmd, ps)
     else
       rbind (gettoken buf ps es) (\<lambda>(tok, _, _, ps).
       rbind (gettoken buf ps es) (\<lambda>(tok2, q, eq, ps).
       if tok2 \<noteq> 97 then Error ''missing file for redirection''
       else
         let cmd = (if tok = 60 then REDIR cmd (q, eq) O_RDONLY 0
           else if tok = 62 then REDIR cmd (q, eq) O_WRONLY_CREATE 1
           else if tok = 43 then REDIR cmd (q, eq) O_WRONLY_CREATE 1
           else cmd)
         in parseredirs n cmd buf ps es)))"

text \<open>
  \<^verbatim>\<open>parseexec\<close> keeps a pointer to the innermost node, and adds arguments there while redirections are wrapped around it.
\<close>

fun add_arg :: "nat \<times> nat \<Rightarrow> cmd \<Rightarrow> cmd" where
  "add_arg a (EXEC args) = EXEC (args @ [a])"
| "add_arg a (REDIR c f mode fd) = REDIR (add_arg a c) f mode fd"
| "add_arg a c = c"

fun parseargs :: "nat \<Rightarrow> cmd \<Rightarrow> nat \<Rightarrow> byte list \<Rightarrow> nat \<Rightarrow> nat \<Rightarrow> (cmd \<times> nat) res" where
  "parseargs 0 ret argc buf ps es = Stuck"
| "parseargs (Suc n) ret argc buf ps es =
     rbind (peek buf ps es [124, 41, 38, 59, 0]) (\<lambda>(stop, ps).
     if stop then Ok (ret, ps)
     else
       rbind (gettoken buf ps es) (\<lambda>(tok, q, eq, ps).
       if tok = 0 then Ok (ret, ps)
       else if tok \<noteq> 97 then Error ''syntax''
       else
         let ret = add_arg (q, eq) ret; argc = argc + 1 in
         if argc \<ge> MAXARGS then Error ''too many args''
         else rbind (parseredirs n ret buf ps es) (\<lambda>(ret, ps). parseargs n ret argc buf ps es)))"

fun parsebacks :: "nat \<Rightarrow> cmd \<Rightarrow> byte list \<Rightarrow> nat \<Rightarrow> nat \<Rightarrow> (cmd \<times> nat) res" where
  "parsebacks 0 cmd buf ps es = Stuck"
| "parsebacks (Suc n) cmd buf ps es =
     rbind (peek buf ps es [38, 0]) (\<lambda>(more, ps).
     if more then rbind (gettoken buf ps es) (\<lambda>(_, _, _, ps). parsebacks n (BACK cmd) buf ps es)
     else Ok (cmd, ps))"

fun parseline :: "nat \<Rightarrow> byte list \<Rightarrow> nat \<Rightarrow> nat \<Rightarrow> (cmd \<times> nat) res"
  and parsepipe :: "nat \<Rightarrow> byte list \<Rightarrow> nat \<Rightarrow> nat \<Rightarrow> (cmd \<times> nat) res"
  and parseblock :: "nat \<Rightarrow> byte list \<Rightarrow> nat \<Rightarrow> nat \<Rightarrow> (cmd \<times> nat) res"
  and parseexec :: "nat \<Rightarrow> byte list \<Rightarrow> nat \<Rightarrow> nat \<Rightarrow> (cmd \<times> nat) res" where
  "parseline 0 buf ps es = Stuck"
| "parseline (Suc n) buf ps es =
     rbind (parsepipe n buf ps es) (\<lambda>(cmd, ps).
     rbind (parsebacks n cmd buf ps es) (\<lambda>(cmd, ps).
     rbind (peek buf ps es [59, 0]) (\<lambda>(more, ps).
     if more then
       rbind (gettoken buf ps es) (\<lambda>(_, _, _, ps).
       rbind (parseline n buf ps es) (\<lambda>(right, ps). Ok (LIST cmd right, ps)))
     else Ok (cmd, ps))))"
| "parsepipe 0 buf ps es = Stuck"
| "parsepipe (Suc n) buf ps es =
     rbind (parseexec n buf ps es) (\<lambda>(cmd, ps).
     rbind (peek buf ps es [124, 0]) (\<lambda>(more, ps).
     if more then
       rbind (gettoken buf ps es) (\<lambda>(_, _, _, ps).
       rbind (parsepipe n buf ps es) (\<lambda>(right, ps). Ok (PIPE cmd right, ps)))
     else Ok (cmd, ps)))"
| "parseblock 0 buf ps es = Stuck"
| "parseblock (Suc n) buf ps es =
     rbind (peek buf ps es [40, 0]) (\<lambda>(open_paren, ps).
     if \<not> open_paren then Error ''parseblock''
     else
       rbind (gettoken buf ps es) (\<lambda>(_, _, _, ps).
       rbind (parseline n buf ps es) (\<lambda>(cmd, ps).
       rbind (peek buf ps es [41, 0]) (\<lambda>(close_paren, ps).
       if \<not> close_paren then Error ''syntax - missing )''
       else rbind (gettoken buf ps es) (\<lambda>(_, _, _, ps). parseredirs n cmd buf ps es)))))"
| "parseexec 0 buf ps es = Stuck"
| "parseexec (Suc n) buf ps es =
     rbind (peek buf ps es [40, 0]) (\<lambda>(block, ps).
     if block then parseblock n buf ps es
     else rbind (parseredirs n (EXEC []) buf ps es) (\<lambda>(ret, ps). parseargs n ret 0 buf ps es))"

text \<open>Writing the terminators; a write outside of the buffer is \<open>Stuck\<close>.\<close>

definition put0 :: "nat \<Rightarrow> byte list \<Rightarrow> byte list res" where
  "put0 e buf = (if e < length buf then Ok (buf[e := 0]) else Stuck)"

fun terminate_args :: "(nat \<times> nat) list \<Rightarrow> byte list \<Rightarrow> byte list res" where
  "terminate_args [] buf = Ok buf"
| "terminate_args ((q, e) # args) buf = rbind (put0 e buf) (terminate_args args)"

fun nulterminate :: "cmd \<Rightarrow> byte list \<Rightarrow> byte list res" where
  "nulterminate (EXEC args) buf = terminate_args args buf"
| "nulterminate (REDIR c (q, e) mode fd) buf = rbind (nulterminate c buf) (put0 e)"
| "nulterminate (PIPE l r) buf = rbind (nulterminate l buf) (nulterminate r)"
| "nulterminate (LIST l r) buf = rbind (nulterminate l buf) (nulterminate r)"
| "nulterminate (BACK c) buf = nulterminate c buf"

text \<open>The fuel is four steps of recursion for each byte, and a few more.\<close>

definition parsecmd :: "byte list \<Rightarrow> (cmd \<times> byte list) res" where
  "parsecmd buf =
     (case strlen buf of
        None \<Rightarrow> Stuck
      | Some es \<Rightarrow>
          rbind (parseline (4 * es + 5) buf 0 es) (\<lambda>(cmd, s).
          rbind (peek buf s es [0]) (\<lambda>(_, s).
          if s \<noteq> es then Error ''syntax'' else rbind (nulterminate cmd buf) (\<lambda>buf. Ok (cmd, buf)))))"

section \<open>Total correctness of results\<close>

text \<open>The result is not \<open>Stuck\<close>, and a value satisfies \<open>Q\<close>.\<close>

definition rpost :: "'a res \<Rightarrow> ('a \<Rightarrow> bool) \<Rightarrow> bool" where
  "rpost r Q \<longleftrightarrow> (case r of Ok x \<Rightarrow> Q x | Error _ \<Rightarrow> True | Stuck \<Rightarrow> False)"

lemma rpost_simps [simp]: "rpost (Ok x) Q = Q x" "rpost (Error msg) Q" "\<not> rpost Stuck Q"
  by (simp_all add: rpost_def)

lemma rpost_bind: "rpost m R \<Longrightarrow> (\<And>x. R x \<Longrightarrow> rpost (f x) Q) \<Longrightarrow> rpost (rbind m f) Q"
  by (cases m) (auto simp: rpost_def)

lemma rpost_mono: "rpost m R \<Longrightarrow> (\<And>x. R x \<Longrightarrow> Q x) \<Longrightarrow> rpost m Q"
  by (cases m) (auto simp: rpost_def)

section \<open>Tokens stay within the line\<close>

definition line :: "byte list \<Rightarrow> nat \<Rightarrow> bool" where
  "line buf es \<longleftrightarrow> es < length buf \<and> buf ! es = 0 \<and> (\<forall>i < es. buf ! i \<noteq> 0)"

definition wordchar :: "byte \<Rightarrow> bool" where
  "wordchar c \<longleftrightarrow> c \<noteq> 0 \<and> \<not> isin whitespace c \<and> \<not> isin symbols c"

definition word :: "byte list \<Rightarrow> nat \<Rightarrow> nat \<times> nat \<Rightarrow> bool" where
  "word buf es = (\<lambda>(q, e). q < e \<and> e \<le> es \<and> (\<forall>i. q \<le> i \<and> i < e \<longrightarrow> wordchar (buf ! i)) \<and> \<not> wordchar (buf ! e))"

lemma isin_iff: "isin (s @ [0]) c \<longleftrightarrow> c \<in> set (takeWhile (\<lambda>b. b \<noteq> 0) s)"
  by (induction s) (auto simp: isin_def)

lemma isin_0 [simp]: "\<not> isin whitespace 0" "\<not> isin symbols 0"
  by (simp_all add: isin_def whitespace_def symbols_def)

lemma symbols_iff: "isin symbols c \<longleftrightarrow> c \<in> {60, 124, 62, 38, 59, 40, 41}"
  using isin_iff [of "[60, 124, 62, 38, 59, 40, 41]" c] by (simp add: symbols_def)

lemma strlen_line: "strlen buf = Some es \<Longrightarrow> line buf es"
proof (induction buf arbitrary: es)
  case (Cons a buf)
  then show ?case by (cases es) (auto simp: line_def less_Suc_eq_0_disj split: if_splits)
qed simp

lemma strlen_at:
  "q \<le> e \<Longrightarrow> e < length s \<Longrightarrow> s ! e = 0 \<Longrightarrow> (\<And>i. q \<le> i \<Longrightarrow> i < e \<Longrightarrow> s ! i \<noteq> 0) \<Longrightarrow> strlen (drop q s) = Some (e - q)"
proof (induction "e - q" arbitrary: q)
  case 0
  then show ?case by (simp add: Cons_nth_drop_Suc [symmetric])
next
  case (Suc k)
  then have "strlen (drop (Suc q) s) = Some (e - Suc q)" by (intro Suc) auto
  then show ?case using Suc.prems Suc.hyps(2) by (simp add: Cons_nth_drop_Suc [symmetric] Suc_diff_Suc)
qed

lemma skip_ws_post:
  "line buf es \<Longrightarrow> s \<le> es \<Longrightarrow> rpost (skip_ws buf s es) (\<lambda>t. s \<le> t \<and> t \<le> es \<and> \<not> isin whitespace (buf ! t))"
proof (induction buf s es rule: skip_ws.induct)
  case (1 buf s es)
  then show ?case by (subst skip_ws.simps) (auto simp: line_def elim!: rpost_mono)
qed

lemma skip_word_post:
  "line buf es \<Longrightarrow> s \<le> es \<Longrightarrow> rpost (skip_word buf s es)
    (\<lambda>t. s \<le> t \<and> t \<le> es \<and> (\<forall>i. s \<le> i \<and> i < t \<longrightarrow> wordchar (buf ! i)) \<and> \<not> wordchar (buf ! t))"
proof (induction buf s es rule: skip_word.induct)
  case (1 buf s es)
  show ?case
  proof (cases "s < es \<and> wordchar (buf ! s)")
    case True
    then have "rpost (skip_word buf (s + 1) es)
        (\<lambda>t. s + 1 \<le> t \<and> t \<le> es \<and> (\<forall>i. s + 1 \<le> i \<and> i < t \<longrightarrow> wordchar (buf ! i)) \<and> \<not> wordchar (buf ! t))"
      using 1 by (auto simp: line_def wordchar_def)
    then have "rpost (skip_word buf (s + 1) es)
        (\<lambda>t. s \<le> t \<and> t \<le> es \<and> (\<forall>i. s \<le> i \<and> i < t \<longrightarrow> wordchar (buf ! i)) \<and> \<not> wordchar (buf ! t))"
      by (rule rpost_mono) (use True in \<open>auto simp: Suc_le_eq dest: le_neq_implies_less\<close>)
    then show ?thesis using True 1(2) by (subst skip_word.simps) (simp add: line_def wordchar_def)
  next
    case False
    then show ?thesis using 1(2,3) by (subst skip_word.simps) (auto simp: line_def wordchar_def)
  qed
qed

lemma deref_post: "line buf es \<Longrightarrow> s \<le> es \<Longrightarrow> deref buf s = Ok (buf ! s)"
  by (simp add: line_def deref_def)

lemma token_at_post:
  assumes l: "line buf es" and s: "s \<le> es" "\<not> isin whitespace (buf ! s)"
  shows "rpost (token_at buf s es (buf ! s)) (\<lambda>(tok, e). s \<le> e \<and> e \<le> es \<and> (s < es \<longrightarrow> s < e) \<and> (tok = 97 \<longrightarrow> word buf es (s, e)))"
proof (cases "buf ! s = 0 \<or> buf ! s \<in> {124, 40, 41, 59, 38, 60, 62}")
  case True
  have lt: "s < es" if "buf ! s \<noteq> 0" using s l that by (cases "s = es") (auto simp: line_def)
  have e: "s + 2 \<le> es" if "buf ! s = 62" "buf ! (s + 1) = 62" using l lt that by (cases "s + 1 = es") (auto simp: line_def)
  have "buf ! s = 0 \<Longrightarrow> s = es" using s l by (metis line_def le_neq_implies_less)
  then show ?thesis
    using True lt e l s(1) deref_post [OF l, of "s + 1"] by (auto simp: token_at_def Suc_le_eq)
next
  case False
  then have w: "wordchar (buf ! s)" using s by (auto simp: wordchar_def symbols_iff)
  have "rpost (skip_word buf s es) (\<lambda>e. s < e \<and> word buf es (s, e))"
    by (rule rpost_mono [OF skip_word_post [OF l s(1)]]) (use w in \<open>auto simp: word_def le_less\<close>)
  then have "rpost (rbind (skip_word buf s es) (\<lambda>e. Ok (97, e)))
      (\<lambda>(tok, e). s \<le> e \<and> e \<le> es \<and> (s < es \<longrightarrow> s < e) \<and> (tok = 97 \<longrightarrow> word buf es (s, e)))"
    by (rule rpost_bind) (auto simp: word_def)
  then show ?thesis using False by (simp add: token_at_def)
qed

lemma gettoken_post:
  assumes l: "line buf es" and ps: "ps \<le> es"
  shows "rpost (gettoken buf ps es) (\<lambda>(tok, q, e, ps'). ps \<le> ps' \<and> ps' \<le> es \<and> (ps < es \<longrightarrow> ps < ps') \<and>
    (tok = 97 \<longrightarrow> word buf es (q, e) \<and> ps < ps'))"
  unfolding gettoken_def
proof (rule rpost_bind [OF skip_ws_post [OF l ps]], goal_cases)
  case (1 s)
  then have d: "deref buf s = Ok (buf ! s)" by (simp add: deref_post [OF l])
  from 1 show ?case unfolding d rbind.simps
    by (auto intro!: rpost_bind [OF token_at_post [OF l]] rpost_bind [OF skip_ws_post [OF l]] simp: word_def)
qed

lemma peek_post:
  assumes l: "line buf es" and ps: "ps \<le> es"
  shows "rpost (peek buf ps es toks) (\<lambda>(b, s). ps \<le> s \<and> s \<le> es \<and> (b \<longrightarrow> s < es))"
  unfolding peek_def
  by (intro rpost_bind [OF skip_ws_post [OF l ps]]) (use l in \<open>auto simp: deref_post [OF l] line_def le_less\<close>)

section \<open>The parser returns, with all pointers inside the line\<close>

fun tokens :: "cmd \<Rightarrow> (nat \<times> nat) list" where
  "tokens (EXEC args) = args"
| "tokens (REDIR c f mode fd) = f # tokens c"
| "tokens (PIPE l r) = tokens l @ tokens r"
| "tokens (LIST l r) = tokens l @ tokens r"
| "tokens (BACK c) = tokens c"

fun args_fit :: "cmd \<Rightarrow> bool" where
  "args_fit (EXEC args) \<longleftrightarrow> length args < MAXARGS"
| "args_fit (REDIR c f mode fd) \<longleftrightarrow> args_fit c"
| "args_fit (PIPE l r) \<longleftrightarrow> args_fit l \<and> args_fit r"
| "args_fit (LIST l r) \<longleftrightarrow> args_fit l \<and> args_fit r"
| "args_fit (BACK c) \<longleftrightarrow> args_fit c"

definition cmd_ok :: "byte list \<Rightarrow> nat \<Rightarrow> cmd \<Rightarrow> bool" where
  "cmd_ok buf es c \<longleftrightarrow> args_fit c \<and> list_all (word buf es) (tokens c)"

lemma cmd_ok_simps [simp]:
  "cmd_ok buf es (EXEC args) \<longleftrightarrow> length args < MAXARGS \<and> list_all (word buf es) args"
  "cmd_ok buf es (REDIR c f mode fd) \<longleftrightarrow> cmd_ok buf es c \<and> word buf es f"
  "cmd_ok buf es (PIPE l r) \<longleftrightarrow> cmd_ok buf es l \<and> cmd_ok buf es r"
  "cmd_ok buf es (LIST l r) \<longleftrightarrow> cmd_ok buf es l \<and> cmd_ok buf es r"
  "cmd_ok buf es (BACK c) \<longleftrightarrow> cmd_ok buf es c"
  by (auto simp: cmd_ok_def)

text \<open>A command that \<^verbatim>\<open>parseexec\<close> is building: the redirections of a simple command with \<open>k\<close> arguments.\<close>

fun simple :: "nat \<Rightarrow> cmd \<Rightarrow> bool" where
  "simple k (EXEC args) \<longleftrightarrow> length args = k"
| "simple k (REDIR c f mode fd) \<longleftrightarrow> simple k c"
| "simple k _ \<longleftrightarrow> False"

lemma add_arg_simple: "simple k c \<Longrightarrow> simple (Suc k) (add_arg a c)"
  by (induction c) auto

lemma add_arg_ok: "simple k c \<Longrightarrow> Suc k < MAXARGS \<Longrightarrow> cmd_ok buf es c \<Longrightarrow> word buf es a \<Longrightarrow> cmd_ok buf es (add_arg a c)"
  by (induction c) auto

text \<open>What every function of the parser gives: the position does not go back or leave the line, and the command is well-formed.\<close>

definition parsed :: "byte list \<Rightarrow> nat \<Rightarrow> nat \<Rightarrow> cmd \<times> nat \<Rightarrow> bool" where
  "parsed buf es ps = (\<lambda>(c, ps'). cmd_ok buf es c \<and> ps \<le> ps' \<and> ps' \<le> es)"

lemma parsed_mono: "ps \<le> qs \<Longrightarrow> parsed buf es qs x \<Longrightarrow> parsed buf es ps x"
  by (auto simp: parsed_def)

lemma parseredirs_post:
  assumes l: "line buf es"
  shows "ps \<le> es \<Longrightarrow> es - ps < n \<Longrightarrow> cmd_ok buf es c \<Longrightarrow>
    rpost (parseredirs n c buf ps es) (\<lambda>x. parsed buf es ps x \<and> (\<forall>k. simple k c \<longrightarrow> simple k (fst x)))"
proof (induction n arbitrary: c ps)
  case (Suc n)
  have IH: "rpost (parseredirs n c' buf ps' es) (\<lambda>x. parsed buf es ps x \<and> (\<forall>k. simple k c \<longrightarrow> simple k (fst x)))"
    if "ps < ps'" "ps' \<le> es" "cmd_ok buf es c'" "\<forall>k. simple k c \<longrightarrow> simple k c'" for c' ps'
    by (rule rpost_mono [OF Suc.IH [of ps' c']]) (use that Suc.prems in \<open>auto simp: parsed_def\<close>)
  show ?case
    using Suc.prems
    by (auto simp: parsed_def Let_def intro!: rpost_bind [OF peek_post [OF l]] rpost_bind [OF gettoken_post [OF l]] IH [unfolded parsed_def])
qed simp

lemma parseargs_post:
  assumes l: "line buf es"
  shows "ps \<le> es \<Longrightarrow> es - ps < n \<Longrightarrow> cmd_ok buf es c \<Longrightarrow> simple k c \<Longrightarrow> rpost (parseargs n c k buf ps es) (parsed buf es ps)"
proof (induction n arbitrary: c k ps)
  case (Suc n)
  have step: "rpost (rbind (parseredirs n (add_arg a c) buf ps' es) (\<lambda>(ret, ps). parseargs n ret (k + 1) buf ps es)) (parsed buf es ps)"
    if a: "ps < ps'" "ps' \<le> es" "word buf es a" "Suc k < MAXARGS" for a ps'
  proof (rule rpost_bind [OF parseredirs_post [OF l]])
    fix x
    assume x: "parsed buf es ps' x \<and> (\<forall>k. simple k (add_arg a c) \<longrightarrow> simple k (fst x))"
    obtain c' qs where c': "x = (c', qs)" by (cases x)
    then have "rpost (parseargs n c' (Suc k) buf qs es) (parsed buf es qs)"
      using x a Suc.prems add_arg_simple [OF Suc.prems(4)] by (intro Suc.IH) (auto simp: parsed_def)
    then show "rpost (case x of (ret, ps) \<Rightarrow> parseargs n ret (k + 1) buf ps es) (parsed buf es ps)"
      using x a c' by (auto elim!: rpost_mono simp: parsed_def)
  qed (use a Suc.prems add_arg_ok in auto)
  have base: "parsed buf es ps (c, ps')" if "ps \<le> ps'" "ps' \<le> es" for ps' using that Suc.prems by (simp add: parsed_def)
  show ?case
    using Suc.prems
    by (auto simp: Let_def intro!: rpost_bind [OF peek_post [OF l]] rpost_bind [OF gettoken_post [OF l]] step [simplified] base)
qed simp

lemma parsebacks_post:
  assumes l: "line buf es"
  shows "ps \<le> es \<Longrightarrow> es - ps < n \<Longrightarrow> cmd_ok buf es c \<Longrightarrow> rpost (parsebacks n c buf ps es) (parsed buf es ps)"
proof (induction n arbitrary: c ps)
  case (Suc n)
  have IH: "rpost (parsebacks n (BACK c) buf ps' es) (parsed buf es ps)" if "ps < ps'" "ps' \<le> es" for ps'
    by (rule rpost_mono [OF Suc.IH [of ps']]) (use that Suc.prems in \<open>auto simp: parsed_def\<close>)
  show ?case
    using Suc.prems
    by (auto intro!: rpost_bind [OF peek_post [OF l]] rpost_bind [OF gettoken_post [OF l]] IH) (simp_all add: parsed_def)
qed simp

lemma parse_post:
  assumes l: "line buf es"
  shows "ps \<le> es \<Longrightarrow> 4 * (es - ps) + 4 \<le> n \<Longrightarrow> rpost (parseline n buf ps es) (parsed buf es ps)"
    "ps \<le> es \<Longrightarrow> 4 * (es - ps) + 3 \<le> n \<Longrightarrow> rpost (parsepipe n buf ps es) (parsed buf es ps)"
    "ps \<le> es \<Longrightarrow> 4 * (es - ps) + 1 \<le> n \<Longrightarrow> rpost (parseblock n buf ps es) (parsed buf es ps)"
    "ps \<le> es \<Longrightarrow> 4 * (es - ps) + 2 \<le> n \<Longrightarrow> rpost (parseexec n buf ps es) (parsed buf es ps)"
proof (induction n arbitrary: ps)
  case (Suc n)
  note tok = rpost_bind [OF peek_post [OF l]] rpost_bind [OF gettoken_post [OF l]]
  {
    case 1
    have right: "rpost (rbind (parseline n buf ps' es) (\<lambda>(right, ps). Ok (LIST c right, ps))) (parsed buf es ps)"
      if "cmd_ok buf es c" "ps < ps'" "ps' \<le> es" for c ps'
      by (rule rpost_bind [OF Suc.IH(1)]) (use that 1 in \<open>auto simp: parsed_def\<close>)
    show ?case
      using 1
      by (auto intro!: rpost_bind [OF Suc.IH(2)] tok rpost_bind [OF parsebacks_post [OF l]] right [unfolded parsed_def] simp: parsed_def)
  next
    case 2
    have right: "rpost (rbind (parsepipe n buf ps' es) (\<lambda>(right, ps). Ok (PIPE c right, ps))) (parsed buf es ps)"
      if "cmd_ok buf es c" "ps < ps'" "ps' \<le> es" for c ps'
      by (rule rpost_bind [OF Suc.IH(2)]) (use that 2 in \<open>auto simp: parsed_def\<close>)
    show ?case
      using 2 by (auto intro!: rpost_bind [OF Suc.IH(4)] tok right [unfolded parsed_def] simp: parsed_def)
  next
    case 3
    have redirs: "rpost (parseredirs n c buf ps' es) (parsed buf es ps)" if "cmd_ok buf es c" "ps < ps'" "ps' \<le> es" for c ps'
      by (rule rpost_mono [OF parseredirs_post [OF l]]) (use that 3 in \<open>auto simp: parsed_def\<close>)
    have inner: "rpost (parseline n buf ps' es) (parsed buf es ps')" if "ps < ps'" "ps' \<le> es" for ps'
      by (rule Suc.IH(1)) (use that 3 in linarith)+
    show ?case
      using 3 by (auto intro!: tok rpost_bind [OF inner] redirs [unfolded parsed_def] simp: parsed_def)
  next
    case 4
    have block: "rpost (parseblock n buf ps' es) (parsed buf es ps)" if "ps \<le> ps'" "ps' \<le> es" for ps'
      by (rule rpost_mono [OF Suc.IH(3)]) (use that 4 in \<open>auto simp: parsed_def\<close>)
    have args: "rpost (parseargs n c 0 buf ps' es) (parsed buf es ps)"
      if "cmd_ok buf es c" "simple 0 c" "ps \<le> ps'" "ps' \<le> es" for c ps'
      by (rule rpost_mono [OF parseargs_post [OF l]]) (use that 4 in \<open>auto simp: parsed_def\<close>)
    show ?case
      using 4 by (auto intro!: tok block rpost_bind [OF parseredirs_post [OF l]]) (auto simp: parsed_def intro!: args [unfolded parsed_def])
  }
qed simp_all

section \<open>Terminating the strings\<close>

definition zeroed :: "nat set \<Rightarrow> byte list \<Rightarrow> byte list \<Rightarrow> bool" where
  "zeroed E buf buf' \<longleftrightarrow> length buf' = length buf \<and> (\<forall>i < length buf. buf' ! i = (if i \<in> E then 0 else buf ! i))"

lemma zeroed_trans: "zeroed E a b \<Longrightarrow> zeroed F b c \<Longrightarrow> zeroed (E \<union> F) a c"
  by (auto simp: zeroed_def)

lemma put0_zeroed: "e < length buf \<Longrightarrow> rpost (put0 e buf) (zeroed {e} buf)"
  by (auto simp: put0_def zeroed_def)

lemma terminate_args_zeroed:
  "\<forall>a \<in> set args. snd a < length buf \<Longrightarrow> rpost (terminate_args args buf) (zeroed (snd ` set args) buf)"
proof (induction args buf rule: terminate_args.induct)
  case (2 q e args buf)
  show ?case unfolding terminate_args.simps
  proof (rule rpost_bind [OF put0_zeroed])
    fix b
    assume b: "zeroed {e} buf b"
    have "rpost (terminate_args args b) (zeroed (snd ` set args) b)"
      using 2 b by (intro 2(1)) (auto simp: zeroed_def)
    then show "rpost (terminate_args args b) (zeroed (snd ` set ((q, e) # args)) buf)"
      by (rule rpost_mono) (use zeroed_trans [OF b] in auto)
  qed (use 2 in auto)
qed (simp add: zeroed_def)

lemma zeroed_bind:
  assumes "rpost (f buf) (zeroed E buf)" "\<And>b. length b = length buf \<Longrightarrow> rpost (g b) (zeroed F b)"
  shows "rpost (rbind (f buf) g) (zeroed (E \<union> F) buf)"
proof (rule rpost_bind [OF assms(1)])
  fix b
  assume b: "zeroed E buf b"
  show "rpost (g b) (zeroed (E \<union> F) buf)"
    by (rule rpost_mono [OF assms(2)]) (use b zeroed_trans [OF b] in \<open>auto simp: zeroed_def\<close>)
qed

lemma nulterminate_zeroed:
  "\<forall>a \<in> set (tokens c). snd a < length buf \<Longrightarrow> rpost (nulterminate c buf) (zeroed (snd ` set (tokens c)) buf)"
proof (induction c arbitrary: buf)
  case (EXEC args)
  then show ?case by (simp add: terminate_args_zeroed)
next
  case (REDIR c f mode fd)
  obtain q e where f: "f = (q, e)" by (cases f)
  have "rpost (rbind (nulterminate c buf) (put0 e)) (zeroed (snd ` set (tokens c) \<union> {e}) buf)"
    by (rule zeroed_bind) (use REDIR f put0_zeroed in auto)
  then show ?case using f by (simp add: insert_commute)
next
  case (PIPE l r)
  have "rpost (rbind (nulterminate l buf) (nulterminate r)) (zeroed (snd ` set (tokens l) \<union> snd ` set (tokens r)) buf)"
    by (rule zeroed_bind) (use PIPE in auto)
  then show ?case by (simp add: image_Un)
next
  case (LIST l r)
  have "rpost (rbind (nulterminate l buf) (nulterminate r)) (zeroed (snd ` set (tokens l) \<union> snd ` set (tokens r)) buf)"
    by (rule zeroed_bind) (use LIST in auto)
  then show ?case by (simp add: image_Un)
qed simp

lemma parsecmd_post:
  assumes "strlen buf = Some es"
  shows "rpost (parsecmd buf) (\<lambda>(c, buf'). cmd_ok buf es c \<and> zeroed (snd ` set (tokens c)) buf buf')"
proof -
  note l = strlen_line [OF assms]
  have nul: "rpost (nulterminate c buf) (zeroed (snd ` set (tokens c)) buf)" if "cmd_ok buf es c" for c
    using that l by (intro nulterminate_zeroed) (auto simp: cmd_ok_def list_all_iff word_def line_def)
  show ?thesis unfolding parsecmd_def assms option.case
    by (auto intro!: rpost_bind [OF parse_post(1) [OF l]] rpost_bind [OF peek_post [OF l]] rpost_bind [OF nul] simp: parsed_def)
qed

text \<open>C29. The parser of the shell returns on every line: given a buffer with a terminating zero, \<^verbatim>\<open>parsecmd\<close> gives a command or stops
  with a message about a syntax error. It never reads or writes outside of the buffer, and its recursion ends.\<close>

theorem parsecmd_returns:
  assumes "0 \<in> set buf"
  shows "(\<exists>c buf'. parsecmd buf = Ok (c, buf')) \<or> (\<exists>msg. parsecmd buf = Error msg)"
proof -
  have "\<exists>es. strlen buf = Some es" using assms by (induction buf) auto
  then obtain es where "strlen buf = Some es" by blast
  then show ?thesis using parsecmd_post by (cases "parsecmd buf") fastforce+
qed

theorem parsecmd_returns_witness:
  "(\<exists>c buf'. parsecmd [40, 97, 0] = Ok (c, buf')) \<or> (\<exists>msg. parsecmd [40, 97, 0] = Error msg)"
  by (rule parsecmd_returns) simp

text \<open>C30. The pointers in a parsed command are safe: every argument and file name is a non-empty range of bytes of the line without
  white space or operators, no command has more arguments than its array holds with the null pointer at the end, and after \<^verbatim>\<open>nulterminate\<close>
  each of them is a string that ends where the range ends, with the bytes the line had there.\<close>

theorem parsecmd_bounds:
  assumes "parsecmd buf = Ok (c, buf')" "strlen buf = Some es"
  shows "args_fit c \<and> length buf' = length buf \<and> (\<forall>(q, e) \<in> set (tokens c). q < e \<and> e \<le> es \<and>
    (\<forall>i. q \<le> i \<and> i < e \<longrightarrow> wordchar (buf ! i)) \<and> strlen (drop q buf') = Some (e - q) \<and> cut q (e - q) buf' = cut q (e - q) buf)"
proof -
  have ok: "cmd_ok buf es c" and z: "zeroed (snd ` set (tokens c)) buf buf'"
    using parsecmd_post [OF assms(2)] assms(1) by simp_all
  have es: "es < length buf" using strlen_line [OF assms(2)] by (simp add: line_def)
  have "strlen (drop q buf') = Some (e - q) \<and> cut q (e - q) buf' = cut q (e - q) buf" if t: "(q, e) \<in> set (tokens c)" for q e
  proof -
    have w: "word buf es (q, e)" using ok t by (auto simp: cmd_ok_def list_all_iff)
    have end0: "buf' ! e = 0" using z t w es by (force simp: zeroed_def word_def)
    have same: "buf' ! i = buf ! i \<and> buf' ! i \<noteq> 0" if i: "q \<le> i" "i < e" for i
    proof -
      have "wordchar (buf ! i)" using w i by (simp add: word_def)
      moreover have "\<not> wordchar (buf ! e')" if "(q', e') \<in> set (tokens c)" for q' e'
        using ok that by (auto simp: cmd_ok_def list_all_iff word_def)
      ultimately have "i \<notin> snd ` set (tokens c)" by force
      then show ?thesis using z w i es \<open>wordchar (buf ! i)\<close> by (auto simp: zeroed_def word_def wordchar_def)
    qed
    have len: "e < length buf'" "q \<le> e" using z w es by (auto simp: zeroed_def word_def)
    have "strlen (drop q buf') = Some (e - q)" by (rule strlen_at [OF len(2,1) end0]) (use same in blast)
    moreover have "cut q (e - q) buf' = cut q (e - q) buf"
      by (rule nth_equalityI) (use z same len in \<open>auto simp: zeroed_def cut_def\<close>)
    ultimately show ?thesis ..
  qed
  then show ?thesis using ok z by (auto simp: cmd_ok_def zeroed_def list_all_iff word_def)
qed

theorem parsecmd_bounds_witness:
  "\<exists>buf'. parsecmd [97, 62, 98, 59, 99, 0, 7] = Ok (LIST (REDIR (EXEC [(0, 1)]) (2, 3) 0x201 1) (EXEC [(4, 5)]), buf') \<and>
     strlen (drop 2 buf') = Some 1 \<and> length buf' = 7"
proof -
  let ?c = "LIST (REDIR (EXEC [(0, 1)]) (2, 3) 0x201 1) (EXEC [(4, 5)])"
  have run: "parsecmd [97, 62, 98, 59, 99, 0, 7] = Ok (?c, [97, 0, 98, 0, 99, 0, 7])" by code_simp
  have "strlen [97, 62, 98, 59, 99, 0, 7] = Some 5" by simp
  from parsecmd_bounds [OF run this] show ?thesis using run by (intro exI [of _ "[97, 0, 98, 0, 99, 0, 7]"]) auto
qed

end
