(* ===== verification/Xv6_Kalloc.thy ===== *)
theory Xv6_Kalloc
  imports Xv6_Vm
begin

text \<open>
  The page allocator hands out every page once. The free list, which runs through the free pages themselves, is related to
  a list of pages; the contract of an allocator is a locale, with what its clients get from it: for any sequence of
  allocations, releases and writes to pages that are held, no page is held twice or free and held, and no page is lost.
\<close>

section \<open>Words in a page\<close>

lemma get64_blit_same:
  assumes "off + 8 \<le> length bs"
  shows "get64 off (blit off (le64 w) bs) = w"
proof -
  have "blit off (le64 w) bs = blit (off + 4) (le32 (ucast (drop_bit 32 w))) (blit off (le32 (ucast w)) bs)"
    using blit_append [of off "le32 (ucast w)" "le32 (ucast (drop_bit 32 w))" bs] assms by (simp add: le64_def)
  then have "get32 off (blit off (le64 w) bs) = ucast w" "get32 (off + 4) (blit off (le64 w) bs) = ucast (drop_bit 32 w)"
    using assms by (simp_all add: get32_blit_same get32_blit_other)
  moreover have "(ucast (ucast w :: u32) :: u64) OR push_bit 32 (ucast (ucast (drop_bit 32 w) :: u32)) = w"
    by (rule bit_eqI) (auto simp: bit_simps)
  ultimately show ?thesis by (simp add: get64_def)
qed

lemma get64_blit_other:
  assumes "o1 + 8 \<le> length bs" "o2 + length xs \<le> length bs" "o1 + 8 \<le> o2 \<or> o2 + length xs \<le> o1"
  shows "get64 o1 (blit o2 xs bs) = get64 o1 bs"
  using assms by (auto simp: get64_def get32_blit_other)

lemma get64_zero: "off + 8 \<le> n \<Longrightarrow> get64 off (replicate n 0) = 0"
  by (simp add: get64_def get32_def)

section \<open>The contract of an allocator\<close>

text \<open>
  What a client does with an allocator: allocate, release a page it holds, or write to one. \<open>run\<close> keeps the pages held, and has no
  result for a client that releases or writes a page it does not hold, and when there are no pages left.
\<close>

datatype ('p, 'c) action = Alloc | Release 'p | Write 'p 'c

fun run :: "('s \<Rightarrow> ('p \<times> 's) option) \<Rightarrow> ('p \<Rightarrow> 's \<Rightarrow> 's option) \<Rightarrow> ('p \<Rightarrow> 'c \<Rightarrow> 's \<Rightarrow> 's) \<Rightarrow>
    ('p, 'c) action list \<Rightarrow> 'p list \<Rightarrow> 's \<Rightarrow> ('p list \<times> 's) option" where
  "run alloc release write [] mine s = Some (mine, s)"
| "run alloc release write (Alloc # as) mine s = do { (v, t) \<leftarrow> alloc s; run alloc release write as (v # mine) t }"
| "run alloc release write (Release v # as) mine s =
     (if v \<in> set mine then do { t \<leftarrow> release v s; run alloc release write as (remove1 v mine) t } else None)"
| "run alloc release write (Write v c # as) mine s =
     (if v \<in> set mine then run alloc release write as mine (write v c s) else None)"

locale allocator =
  fixes inv :: "'s \<Rightarrow> 'p list \<Rightarrow> bool"
    and valid :: "'s \<Rightarrow> 'p \<Rightarrow> bool"
    and alloc :: "'s \<Rightarrow> ('p \<times> 's) option"
    and release :: "'p \<Rightarrow> 's \<Rightarrow> 's option"
    and store :: "'p \<Rightarrow> 'c \<Rightarrow> 's \<Rightarrow> 's"
  assumes alloc_Nil: "inv s [] \<Longrightarrow> alloc s = None"
    and alloc_Cons: "inv s (v # vs) \<Longrightarrow> \<exists>t. alloc s = Some (v, t) \<and> inv t vs \<and> valid t = valid s"
    and release_inv: "inv s vs \<Longrightarrow> valid s v \<Longrightarrow> v \<notin> set vs \<Longrightarrow> \<exists>t. release v s = Some t \<and> inv t (v # vs) \<and> valid t = valid s"
    and store_inv: "inv s vs \<Longrightarrow> v \<notin> set vs \<Longrightarrow> inv (store v c s) vs \<and> valid (store v c s) = valid s"
    and inv_valid: "inv s vs \<Longrightarrow> v \<in> set vs \<Longrightarrow> valid s v"
    and inv_distinct: "inv s vs \<Longrightarrow> distinct vs"
begin

lemma run_exclusive:
  assumes "run alloc release store as mine s = Some (mine', t)" "inv s free" "distinct (mine @ free)" "\<forall>v \<in> set mine. valid s v"
  shows "\<exists>free'. inv t free' \<and> distinct (mine' @ free') \<and> set mine' \<union> set free' = set mine \<union> set free \<and> (\<forall>v \<in> set mine'. valid t v)"
  using assms
proof (induction as arbitrary: mine s free)
  case (Cons a as)
  show ?case
  proof (cases a)
    case Alloc
    then obtain v vs where free: "free = v # vs" using Cons.prems alloc_Nil [of s] by (cases free) auto
    then obtain u where u: "alloc s = Some (v, u)" "inv u vs" "valid u = valid s" using alloc_Cons Cons.prems(2) by blast
    have "valid s v" using inv_valid Cons.prems(2) free by simp
    then have "\<exists>free'. inv t free' \<and> distinct (mine' @ free') \<and> set mine' \<union> set free' = set (v # mine) \<union> set vs \<and> (\<forall>v \<in> set mine'. valid t v)"
      using Cons.prems u free Alloc by (intro Cons.IH [of "v # mine" u vs]) auto
    then show ?thesis using free by auto
  next
    case (Release v)
    then have v: "v \<in> set mine" using Cons.prems(1) by (simp split: if_splits)
    then obtain u where u: "release v s = Some u" "inv u (v # free)" "valid u = valid s"
      using release_inv [OF Cons.prems(2), of v] Cons.prems by auto
    have d: "distinct (remove1 v mine @ v # free)" "set (remove1 v mine) \<union> set (v # free) = set mine \<union> set free"
      using Cons.prems(3) v by (auto simp: distinct_remove1)
    have "\<exists>free'. inv t free' \<and> distinct (mine' @ free') \<and> set mine' \<union> set free' = set (remove1 v mine) \<union> set (v # free)
        \<and> (\<forall>v \<in> set mine'. valid t v)"
      using Cons.prems u v d Release notin_set_remove1 by (intro Cons.IH [of "remove1 v mine" u "v # free"]) auto
    then show ?thesis using d by simp
  next
    case (Write v c)
    then have "v \<in> set mine" using Cons.prems(1) by (simp split: if_splits)
    moreover from this have "v \<notin> set free" using Cons.prems(3) by auto
    ultimately show ?thesis using Cons.prems Write store_inv [OF Cons.prems(2), of v c]
      by (intro Cons.IH [of mine "store v c s"]) auto
  qed
qed auto

end

section \<open>The free list\<close>

fun chain :: "(u64 \<Rightarrow> page) \<Rightarrow> u64 \<Rightarrow> u64 list \<Rightarrow> bool" where
  "chain f p [] \<longleftrightarrow> p = 0"
| "chain f p (v # vs) \<longleftrightarrow> p = v \<and> v \<noteq> 0 \<and> chain f (get64 0 (f v)) vs"

definition usable :: "'a kmst_scheme \<Rightarrow> u64 \<Rightarrow> bool" where
  "usable s v \<longleftrightarrow> v mod 4096 = 0 \<and> k_end s \<le> v \<and> V2P v < PHYSTOP"

definition free_list :: "'a kmst_scheme \<Rightarrow> u64 list \<Rightarrow> bool" where
  "free_list s vs \<longleftrightarrow> chain (frames s) (freelist s) vs \<and> distinct vs \<and> (\<forall>v \<in> set vs. usable s v)"

lemma free_listD: "free_list s vs \<Longrightarrow> distinct vs" "free_list s vs \<Longrightarrow> v \<in> set vs \<Longrightarrow> usable s v"
  by (auto simp: free_list_def)

lemma usable_nonzero: "usable s v \<Longrightarrow> v \<noteq> 0"
  by (auto simp: usable_def V2P_def)

lemma chain_other: "v \<notin> set vs \<Longrightarrow> chain (f(v := x)) p vs = chain f p vs"
  by (induction vs arbitrary: p) auto

lemma kalloc_Nil: "free_list s [] \<Longrightarrow> kalloc s = None"
  by (simp add: free_list_def kalloc_def)

lemma kalloc_Cons:
  assumes "free_list s (v # vs)"
  shows "kalloc s = Some (v, s\<lparr>freelist := get64 0 (frames s v)\<rparr>)" "free_list (s\<lparr>freelist := get64 0 (frames s v)\<rparr>) vs"
  using assms by (auto simp: free_list_def kalloc_def usable_def)

lemma kfree_post:
  assumes "free_list s vs" "usable s v" "v \<notin> set vs"
  shows "kfree v s = Some ((set_frame v (blit 0 (le64 (freelist s)) (replicate PGSIZE 1)) s)\<lparr>freelist := v\<rparr>)"
    "free_list ((set_frame v (blit 0 (le64 (freelist s)) (replicate PGSIZE 1)) s)\<lparr>freelist := v\<rparr>) (v # vs)"
  using assms usable_nonzero [OF assms(2)]
  by (auto simp: free_list_def kfree_def usable_def set_frame_def chain_other get64_blit_same)

lemma set_frame_free: "free_list s vs \<Longrightarrow> v \<notin> set vs \<Longrightarrow> free_list (set_frame v x s) vs"
  by (auto simp: free_list_def set_frame_def chain_other usable_def)

lemma usable_frame [simp]: "usable (set_frame v x s) = usable s" "usable (s\<lparr>freelist := p\<rparr>) = usable s"
  by (auto simp: usable_def set_frame_def fun_eq_iff)

interpretation km: allocator free_list usable kalloc kfree set_frame
proof unfold_locales
  show "\<exists>t. kfree v s = Some t \<and> free_list t (v # vs) \<and> usable t = usable s"
    if "free_list s vs" "usable s v" "v \<notin> set vs" for s :: "'a kmst_scheme" and vs v
    using kfree_post [OF that] by simp
qed (auto simp: kalloc_Nil kalloc_Cons set_frame_free dest: free_listD)

text \<open>Freeing a range of pages at boot.\<close>

lemma kfree_all_post:
  "free_list s vs \<Longrightarrow> distinct (ps @ vs) \<Longrightarrow> \<forall>v \<in> set ps. usable s v \<Longrightarrow>
   \<exists>t. kfree_all ps s = Some t \<and> free_list t (rev ps @ vs) \<and> usable t = usable s
     \<and> ((\<forall>v. length (frames s v) = PGSIZE) \<longrightarrow> (\<forall>v. length (frames t v) = PGSIZE))"
proof (induction ps arbitrary: s vs)
  case (Cons p ps)
  let ?t = "(set_frame p (blit 0 (le64 (freelist s)) (replicate PGSIZE 1)) s)\<lparr>freelist := p\<rparr>"
  have "\<exists>t. kfree_all ps ?t = Some t \<and> free_list t (rev ps @ p # vs) \<and> usable t = usable ?t
     \<and> ((\<forall>v. length (frames ?t v) = PGSIZE) \<longrightarrow> (\<forall>v. length (frames t v) = PGSIZE))"
    using Cons.prems kfree_post [of s vs p] by (intro Cons.IH) auto
  moreover have "(\<forall>v. length (frames s v) = PGSIZE) \<longrightarrow> (\<forall>v. length (frames ?t v) = PGSIZE)" by (simp add: set_frame_def)
  moreover have "kfree p s = Some ?t" using kfree_post(1) [of s vs p] Cons.prems by simp
  moreover have "usable ?t = usable s" by simp
  ultimately show ?case by force
qed simp

lemma unat_less_u64: "unat (w :: u64) < 2 ^ 64"
  using unsigned_less [of w] by simp

lemma mask12: "(4095 :: u64) = mask 12"
  by (simp add: mask_eq_exp_minus_1)

lemma unat_PGROUNDDOWN: "unat (PGROUNDDOWN a) = unat a div PGSIZE * PGSIZE"
proof -
  have "PGROUNDDOWN a = push_bit 12 (drop_bit 12 a)"
    by (rule bit_eqI) (auto simp: PGROUNDDOWN_def mask12 bit_simps)
  moreover have "unat (drop_bit 12 a) = unat a div PGSIZE" 
    using unat_less_u64 [of a] by (simp add: unsigned_drop_bit_eq drop_bit_nat_def take_bit_nat_eq_self)
  moreover have "unat a div PGSIZE * PGSIZE \<le> unat a" by simp
  ultimately show ?thesis
    using unat_less_u64 [of a] by (simp add: unsigned_push_bit_eq push_bit_nat_def take_bit_nat_eq_self)
qed

lemma page_range:
  assumes "unat p + k * PGSIZE < 2 ^ 64"
  shows "unat (p + of_nat (k * PGSIZE) :: u64) = unat p + k * PGSIZE"
proof -
  have "unat (of_nat (k * PGSIZE) :: u64) = k * PGSIZE" 
    using assms by (simp add: unat_of_nat take_bit_nat_eq_self del: of_nat_mult)
  then show ?thesis using assms by (subst unat_plus_if') (simp del: of_nat_mult)
qed

lemma usable_unat:
  assumes "KERNBASE \<le> k_end s"
  shows "usable s v \<longleftrightarrow> unat v mod PGSIZE = 0 \<and> unat (k_end s) \<le> unat v \<and> unat v < unat (P2V PHYSTOP)"
proof -
  have m: "v mod 4096 = 0 \<longleftrightarrow> unat v mod PGSIZE = 0" by (simp add: word_unat_eq_iff unat_mod)
  have "V2P v < PHYSTOP \<longleftrightarrow> unat v < unat (P2V PHYSTOP)" if "k_end s \<le> v"
  proof -
    have "KERNBASE \<le> v" using assms that by (rule order_trans)
    then show ?thesis using unat_sub [of KERNBASE v] by (auto simp: V2P_def P2V_def word_less_nat_alt word_le_nat_alt)
  qed
  then show ?thesis using m by (auto simp: usable_def word_le_nat_alt)
qed

lemma pages_between:
  fixes v e y :: nat
  shows "v mod PGSIZE = 0 \<and> e \<le> v \<and> v < y * PGSIZE \<longleftrightarrow> (\<exists>k < y - (e + 4095) div PGSIZE. v = ((e + 4095) div PGSIZE + k) * PGSIZE)"
proof
  assume v: "v mod PGSIZE = 0 \<and> e \<le> v \<and> v < y * PGSIZE"
  define x where "x = v div PGSIZE"
  have x: "v = x * PGSIZE" using v by (auto simp: x_def)
  have "x < y" using v x by simp
  moreover have "(e + 4095) div PGSIZE \<le> (x * PGSIZE + 4095) div PGSIZE" using v x by (intro div_le_mono) simp
  then have "(e + 4095) div PGSIZE \<le> x" by simp
  ultimately show "\<exists>k < y - (e + 4095) div PGSIZE. v = ((e + 4095) div PGSIZE + k) * PGSIZE"
    using x by (intro exI [of _ "x - (e + 4095) div PGSIZE"]) simp
next
  assume "\<exists>k < y - (e + 4095) div PGSIZE. v = ((e + 4095) div PGSIZE + k) * PGSIZE"
  then obtain k where k: "k < y - (e + 4095) div PGSIZE" "v = ((e + 4095) div PGSIZE + k) * PGSIZE" by blast
  have "e \<le> (e + 4095) div PGSIZE * PGSIZE"
    using div_mult_mod_eq [of "e + 4095" PGSIZE] mod_less_divisor [of PGSIZE "e + 4095"] by linarith
  also have "\<dots> \<le> v" using k(2) by simp
  finally have "e \<le> v" .
  moreover have "v < y * PGSIZE" using k by (simp add: less_diff_conv add.commute)
  ultimately show "v mod PGSIZE = 0 \<and> e \<le> v \<and> v < y * PGSIZE" using k(2) by simp
qed

lemma kinit1_post:
  assumes e: "KERNBASE \<le> k_end s" "k_end s \<le> KERNBASE + PHYSTOP"
  shows "\<exists>t free. kinit1 (k_end s) (P2V PHYSTOP) s = Some t \<and> free_list t free \<and> usable t = usable s
    \<and> set free = {v. usable s v} \<and> ((\<forall>v. length (frames s v) = PGSIZE) \<longrightarrow> (\<forall>v. length (frames t v) = PGSIZE))"
proof -
  let ?p = "PGROUNDUP (k_end s)" and ?b = "P2V PHYSTOP"
  let ?q = "(unat (k_end s) + 4095) div PGSIZE"
  let ?n = "0xFFFF80000E000 - ?q"
  let ?f = "\<lambda>k. ?p + of_nat (k * PGSIZE)"
  note [simp del] = of_nat_mult
  have b: "unat ?b = 0xFFFF80000E000000" by (simp add: P2V_def)
  have k: "unat (k_end s) \<le> unat ?b" using e(2) b by (simp add: word_le_nat_alt)
  have "unat (k_end s + 4095) = unat (k_end s) + 4095" using k b by (subst unat_plus_if') simp
  then have p: "unat ?p = ?q * PGSIZE"
    using unat_PGROUNDDOWN [of "k_end s + 4095"] by (simp add: PGROUNDUP_def PGROUNDDOWN_def)
  have u: "unat (?f k) = (?q + k) * PGSIZE" if "k < ?n" for k
    unfolding add_mult_distrib p [symmetric] by (rule page_range) (use that p in simp)
  have n: "(unat ?b - unat ?p) div PGSIZE = ?n"
  proof -
    have "unat ?b - unat ?p = ?n * PGSIZE" unfolding b p diff_mult_distrib by simp
    then show ?thesis by simp
  qed
  have r: "usable s v \<longleftrightarrow> (\<exists>k < ?n. v = ?f k)" for v
  proof -
    have "usable s v \<longleftrightarrow> unat v mod PGSIZE = 0 \<and> unat (k_end s) \<le> unat v \<and> unat v < unat ?b"
      by (rule usable_unat [OF e(1)])
    also have "\<dots> \<longleftrightarrow> (\<exists>k < ?n. unat v = (?q + k) * PGSIZE)"
      using pages_between [of "unat v" "unat (k_end s)" "0xFFFF80000E000"] b by simp
    also have "\<dots> \<longleftrightarrow> (\<exists>k < ?n. v = ?f k)" using u by (metis unsigned_word_eqI)
    finally show ?thesis .
  qed
  have "distinct (map ?f [0..<?n])" unfolding distinct_map
    using u by (auto intro!: inj_onI) (metis add_left_cancel mult_right_cancel zero_neq_numeral)
  then have "\<exists>t. kfree_all (map ?f [0..<?n]) (s\<lparr>freelist := 0\<rparr>) = Some t \<and> free_list t (rev (map ?f [0..<?n]) @ [])
      \<and> usable t = usable (s\<lparr>freelist := 0\<rparr>)
      \<and> ((\<forall>v. length (frames (s\<lparr>freelist := 0\<rparr>) v) = PGSIZE) \<longrightarrow> (\<forall>v. length (frames t v) = PGSIZE))"
    using r by (intro kfree_all_post) (auto simp: free_list_def)
  then obtain t where t: "kfree_all (map ?f [0..<?n]) (s\<lparr>freelist := 0\<rparr>) = Some t" "free_list t (rev (map ?f [0..<?n]))"
      "usable t = usable s" "(\<forall>v. length (frames s v) = PGSIZE) \<longrightarrow> (\<forall>v. length (frames t v) = PGSIZE)" by auto
  have "kinit1 (k_end s) ?b s = Some t" unfolding kinit1_def freerange_def Let_def n by (rule t(1))
  moreover have "set (rev (map ?f [0..<?n])) = {v. usable s v}" using r by auto
  ultimately show ?thesis using t(2,3,4) by blast
qed

text \<open>C9. The page allocator owns every page once: after \<^verbatim>\<open>kinit1\<close>, and after any sequence of \<^verbatim>\<open>kalloc\<close>, \<^verbatim>\<open>kfree\<close> of pages that are held and
  writes to pages that are held, the pages held are distinct, all of them are pages of memory behind the kernel, \<^verbatim>\<open>kalloc\<close> returns a
  page that nobody holds if there is one and panics otherwise, and \<^verbatim>\<open>kfree\<close> of any page that is held succeeds.\<close>

theorem kalloc_exclusive:
  assumes "KERNBASE \<le> k_end s" "k_end s \<le> KERNBASE + PHYSTOP"
    and "kinit1 (k_end s) (P2V PHYSTOP) s = Some s0" "run kalloc kfree set_frame as [] s0 = Some (mine, t)"
  shows "distinct mine \<and> set mine \<subseteq> {v. usable s v}
    \<and> (\<forall>v u. kalloc t = Some (v, u) \<longrightarrow> usable s v \<and> v \<notin> set mine)
    \<and> (kalloc t = None \<longleftrightarrow> set mine = {v. usable s v})
    \<and> (\<forall>v \<in> set mine. kfree v t \<noteq> None)"
proof -
  obtain free0 where 0: "free_list s0 free0" "set free0 = {v. usable s v}" "usable s0 = usable s"
    using kinit1_post [OF assms(1,2)] assms(3) by auto
  obtain free where f: "free_list t free" "distinct (mine @ free)" "set mine \<union> set free = {v. usable s v}" "\<forall>v \<in> set mine. usable t v"
    using km.run_exclusive [OF assms(4) 0(1)] free_listD(1) [OF 0(1)] 0(2) by auto
  have "kfree v t \<noteq> None" if "v \<in> set mine" for v
    using kfree_post(1) [OF f(1), of v] f(2,4) that by auto
  moreover have "(\<forall>v u. kalloc t = Some (v, u) \<longrightarrow> usable s v \<and> v \<notin> set mine) \<and> (kalloc t = None \<longleftrightarrow> set mine = {v. usable s v})"
  proof (cases free)
    case Nil
    then show ?thesis using f kalloc_Nil by auto
  next
    case (Cons v vs)
    then show ?thesis using f kalloc_Cons(1) [of t v vs] by auto
  qed
  ultimately show ?thesis using f(2,3) by auto
qed

theorem kalloc_exclusive_witness:
  "\<exists>s0 v t. kinit1 (k_end km_boot) (P2V PHYSTOP) km_boot = Some s0 \<and>
     run kalloc kfree set_frame [Alloc] [] s0 = Some ([v], t) \<and> usable km_boot v \<and> kfree v t \<noteq> None"
proof -
  have e: "KERNBASE \<le> k_end km_boot" "k_end km_boot \<le> KERNBASE + PHYSTOP" by (simp_all add: km_boot_def fsst.defs)
  obtain s0 free where 0: "kinit1 (k_end km_boot) (P2V PHYSTOP) km_boot = Some s0" "free_list s0 free" "set free = {v. usable km_boot v}"
    using kinit1_post [OF e] by blast
  have "usable km_boot (KERNBASE + 0x400000)" by (simp add: usable_def km_boot_def fsst.defs V2P_def)
  then obtain v vs where "free = v # vs" using 0(3) by (cases free) auto
  then obtain t where t: "run kalloc kfree set_frame [Alloc] [] s0 = Some ([v], t)" using kalloc_Cons(1) [of s0 v vs] 0(2) by auto
  show ?thesis using 0(1) t kalloc_exclusive [OF e 0(1) t] by auto
qed

end
