(* ===== verification/Xv6_PageTable.thy ===== *)
theory Xv6_PageTable
  imports Xv6_Kalloc
begin

text \<open>
  The page tables of \<^verbatim>\<open>vm.c\<close> as trees of pages. A path is the list of the indices from the root down; four indices lead to a
  page of user memory. In a well-formed memory every page is at one place of one tree, or free, so that address spaces
  share nothing. The operations of \<^verbatim>\<open>vm.c\<close> keep this and change the mapping as they should.
\<close>

section \<open>Trees of pages\<close>

text \<open>Paths that user addresses have: the upper half of a root belongs to the kernel.\<close>

definition upath :: "nat list \<Rightarrow> bool" where
  "upath ps \<longleftrightarrow> length ps \<le> 4 \<and> (\<forall>i \<in> set ps. i < 512) \<and> (ps \<noteq> [] \<longrightarrow> hd ps < 256)"

fun tab :: "(u64 \<Rightarrow> page) \<Rightarrow> u64 \<Rightarrow> nat list \<Rightarrow> u64 option" where
  "tab f p [] = Some p"
| "tab f p (i # ps) =
     (let e = get64 (8 * i) (f p) in if e AND PTE_P = 0 then None else tab f (P2V (PTE_ADDR e)) ps)"

definition entry :: "(u64 \<Rightarrow> page) \<Rightarrow> u64 \<Rightarrow> nat list \<Rightarrow> u64" where
  "entry f p ps = (case tab f p (butlast ps) of None \<Rightarrow> 0 | Some a \<Rightarrow> get64 (8 * last ps) (f a))"

lemma tab_append: "tab f p (ps @ qs) = (case tab f p ps of None \<Rightarrow> None | Some a \<Rightarrow> tab f a qs)"
  by (induction ps arbitrary: p) (auto simp: Let_def)

lemma tab_step: "tab f p (ps @ [i]) = (case tab f p ps of None \<Rightarrow> None
    | Some a \<Rightarrow> let e = get64 (8 * i) (f a) in if e AND PTE_P = 0 then None else Some (P2V (PTE_ADDR e)))"
  by (simp add: tab_append Let_def split: option.split)

lemma entry_snoc: "entry f p (ps @ [i]) = (case tab f p ps of None \<Rightarrow> 0 | Some a \<Rightarrow> get64 (8 * i) (f a))"
  by (simp add: entry_def split: option.split)

lemma tab_snoc: "tab f p (ps @ [i]) = (if entry f p (ps @ [i]) AND PTE_P = 0 then None else Some (P2V (PTE_ADDR (entry f p (ps @ [i])))))"
  by (simp add: tab_append entry_def Let_def split: option.split)

lemma upath_append: "upath (ps @ qs) \<Longrightarrow> upath ps"
  by (cases ps) (auto simp: upath_def)

lemma upath_Nil [simp]: "upath []"
  by (simp add: upath_def)

text \<open>The trees of the roots \<open>R\<close> are made of distinct pages.\<close>

definition forest :: "(u64 \<Rightarrow> page) \<Rightarrow> u64 set \<Rightarrow> bool" where
  "forest f R \<longleftrightarrow> (\<forall>p \<in> R. \<forall>q \<in> R. \<forall>ps qs a. upath ps \<longrightarrow> upath qs \<longrightarrow> tab f p ps = Some a \<longrightarrow> tab f q qs = Some a \<longrightarrow>
     p = q \<and> ps = qs)"

definition pages :: "(u64 \<Rightarrow> page) \<Rightarrow> u64 set \<Rightarrow> u64 set" where
  "pages f R = {a. \<exists>p \<in> R. \<exists>ps. upath ps \<and> tab f p ps = Some a}"

lemma forestD:
  "forest f R \<Longrightarrow> p \<in> R \<Longrightarrow> q \<in> R \<Longrightarrow> upath ps \<Longrightarrow> upath qs \<Longrightarrow> tab f p ps = Some a \<Longrightarrow> tab f q qs = Some a \<Longrightarrow> p = q \<and> ps = qs"
  unfolding forest_def by blast

lemma pagesI: "p \<in> R \<Longrightarrow> upath ps \<Longrightarrow> tab f p ps = Some a \<Longrightarrow> a \<in> pages f R"
  by (auto simp: pages_def)

lemma roots_pages: "p \<in> R \<Longrightarrow> p \<in> pages f R"
  by (rule pagesI [of _ _ "[]"]) auto

text \<open>Pages that are in no tree do not matter.\<close>

lemma tab_other:
  assumes "\<And>a. a \<in> pages f R \<Longrightarrow> g a = f a" "p \<in> R"
  shows "upath ps \<Longrightarrow> tab g p ps = tab f p ps" "upath ps \<Longrightarrow> ps \<noteq> [] \<Longrightarrow> entry g p ps = entry f p ps"
proof -
  show t: "upath ps \<Longrightarrow> tab g p ps = tab f p ps" for ps
  proof (induction ps rule: rev_induct)
    case (snoc i ps)
    have IH: "tab g p ps = tab f p ps" using snoc upath_append by blast
    show ?case
    proof (cases "tab f p ps")
      case None
      then show ?thesis using IH by (simp add: tab_append)
    next
      case (Some a)
      then have "g a = f a" using assms snoc.prems by (intro assms(1) pagesI) (auto dest: upath_append)
      then show ?thesis using IH Some by (simp add: tab_append Let_def)
    qed
  qed simp
  assume ps: "upath ps" "ps \<noteq> []"
  then have u: "upath (butlast ps)" using upath_append [of "butlast ps" "[last ps]"] by simp
  show "entry g p ps = entry f p ps"
    using t [OF u] assms(1) [OF pagesI [OF assms(2) u]] by (simp add: entry_def split: option.split)
qed

section \<open>Hooking a page into a tree\<close>

text \<open>
  An empty entry of a table is set to refer to a new page, which is either a leaf or has no entries itself.
\<close>

lemma hook_page:
  fixes f :: "u64 \<Rightarrow> page"
  assumes F: "forest f R" "p \<in> R" and t: "tab f p ps = Some t" and u: "upath (ps @ [i])"
    and e: "entry f p (ps @ [i]) AND PTE_P = 0" and n: "n \<notin> pages f R"
    and w: "w AND PTE_P \<noteq> 0" "P2V (PTE_ADDR w) = n" and c: "length ps = 3 \<or> c = zero_page" and len: "length (f t) = PGSIZE"
  defines "g \<equiv> (f(n := c))(t := blit (8 * i) (le64 w) (f t))"
  shows "q \<in> R \<Longrightarrow> upath qs \<Longrightarrow> tab g q qs =
      (if q = p \<and> qs = ps @ [i] then Some n else tab f q qs)"
    and "q \<in> R \<Longrightarrow> upath qs \<Longrightarrow> length qs = 4 \<Longrightarrow> entry g q qs = (if q = p \<and> qs = ps @ [i] then w else entry f q qs)"
    and "forest g R" "pages g R = insert n (pages f R)"
proof -
  have ps: "upath ps" using u by (rule upath_append)
  have tp: "t \<in> pages f R" using F(2) ps t by (rule pagesI)
  then have nt: "n \<noteq> t" using n by auto
  have i: "i < 512" using u by (auto simp: upath_def)
  have gt: "get64 (8 * j) (g t) = (if j = i then w else get64 (8 * j) (f t))" if "j < 512" for j
  proof (cases "j = i")
    case True
    then show ?thesis using i len by (simp add: g_def get64_blit_same)
  next
    case False
    then have "8 * j + 8 \<le> 8 * i \<or> 8 * i + 8 \<le> 8 * j" by linarith
    then show ?thesis using False that i len by (simp add: g_def get64_blit_other)
  qed
  have ga: "g a = f a" if "a \<in> pages f R" "a \<noteq> t" for a using that n by (auto simp: g_def)
  have gn: "get64 (8 * j) (g n) = 0" if "j < 512" "length ps \<noteq> 3" for j using that c nt by (simp add: g_def get64_zero)
  have none: "tab f p (ps @ [i]) = None" using e by (simp add: tab_snoc)
  have at_t: "q = p \<and> qs = ps" if "q \<in> R" "upath qs" "tab f q qs = Some t" for q qs
    using forestD [OF F(1) that(1) F(2) that(2) ps that(3) t] .
  show tab: "tab g q qs = (if q = p \<and> qs = ps @ [i] then Some n else tab f q qs)" if q: "q \<in> R" "upath qs" for q qs
    using q(2)
  proof (induction qs rule: rev_induct)
    case (snoc j qs)
    have j: "j < 512" and qs: "upath qs" using snoc.prems upath_append by (auto simp: upath_def)
    note IH = snoc.IH [OF qs]
    show ?case
    proof (cases "q = p \<and> qs = ps @ [i]")
      case True
      then have "length ps \<noteq> 3" using snoc.prems by (auto simp: upath_def)
      then show ?thesis using True IH gn [OF j] none by (simp add: tab_step [of _ p "ps @ [i]"] del: append_assoc)
    next
      case other: False
      show ?thesis
      proof (cases "tab f q qs")
        case None
        then show ?thesis using other IH t by (auto simp: tab_step)
      next
        case (Some a)
        then show ?thesis
          using other IH gt [OF j] at_t [OF q(1) qs] t w ga [OF pagesI [OF q(1) qs Some]]
          by (cases "a = t") (auto simp: tab_step)
      qed
    qed
  qed simp
  show "entry g q qs = (if q = p \<and> qs = ps @ [i] then w else entry f q qs)" if q: "q \<in> R" "upath qs" "length qs = 4" for q qs
  proof -
    obtain rs j where rs: "qs = rs @ [j]" using q(3) by (cases qs rule: rev_cases) auto
    have j: "j < 512" and u': "upath rs" using q rs upath_append by (auto simp: upath_def)
    show ?thesis
    proof (cases "q = p \<and> rs = ps @ [i]")
      case True
      then have "length ps \<noteq> 3" using q(3) rs by simp
      then show ?thesis unfolding rs entry_snoc using True tab [OF q(1) u'] gn [OF j] none by simp
    next
      case other: False
      show ?thesis
      proof (cases "tab f q rs")
        case None
        then show ?thesis unfolding rs entry_snoc using other tab [OF q(1) u'] t by auto
      next
        case (Some a)
        then show ?thesis unfolding rs entry_snoc
          using other tab [OF q(1) u'] gt [OF j] at_t [OF q(1) u'] t ga [OF pagesI [OF q(1) u' Some]]
          by (cases "a = t") auto
      qed
    qed
  qed
  show "forest g R" unfolding forest_def
  proof (intro ballI allI impI)
    fix q r qs rs a
    assume q: "q \<in> R" "r \<in> R" "upath qs" "upath rs" "tab g q qs = Some a" "tab g r rs = Some a"
    show "q = r \<and> qs = rs"
      using q(5,6) tab [OF q(1,3)] tab [OF q(2,4)] forestD [OF F(1) q(1,2,3,4)] n pagesI [OF q(1,3), of f a] pagesI [OF q(2,4), of f a]
      by (auto split: if_splits)
  qed
  show "pages g R = insert n (pages f R)"
  proof (intro equalityI subsetI)
    fix a
    assume "a \<in> pages g R"
    then obtain q qs where "q \<in> R" "upath qs" "tab g q qs = Some a" by (auto simp: pages_def)
    then show "a \<in> insert n (pages f R)" using tab by (auto simp: pages_def split: if_splits)
  next
    fix a
    assume "a \<in> insert n (pages f R)"
    then show "a \<in> pages g R"
    proof
      assume "a = n"
      then show ?thesis using tab [OF F(2) u] by (intro pagesI [OF F(2) u]) simp
    next
      assume "a \<in> pages f R"
      then obtain q qs where q: "q \<in> R" "upath qs" "tab f q qs = Some a" by (auto simp: pages_def)
      then have "\<not> (q = p \<and> qs = ps @ [i])" using none by auto
      then show ?thesis using tab [OF q(1,2)] q by (intro pagesI [OF q(1,2)]) auto
    qed
  qed
qed

section \<open>Well-formed memory\<close>

text \<open>
  Every page of a tree is a usable page that is not free; an operation of the allocator or on page tables only changes the free
  list and the contents of pages.
\<close>

definition mem_ok :: "'a kmst_scheme \<Rightarrow> u64 set \<Rightarrow> u64 list \<Rightarrow> bool" where
  "mem_ok s R free \<longleftrightarrow> free_list s free \<and> (\<forall>v. length (frames s v) = PGSIZE) \<and> forest (frames s) R
     \<and> (\<forall>a \<in> pages (frames s) R. usable s a \<and> a \<notin> set free)"

definition kframe :: "'a kmst_scheme \<Rightarrow> 'a kmst_scheme \<Rightarrow> bool" where
  "kframe s t \<longleftrightarrow> (\<exists>l f. t = s\<lparr>freelist := l, frames := f\<rparr>)"

text \<open>The user memory of the roots \<open>R\<close> is the same, entries and contents, and so are pages in no tree that are not free.\<close>

definition same_user :: "u64 set \<Rightarrow> u64 list \<Rightarrow> 'a kmst_scheme \<Rightarrow> 'a kmst_scheme \<Rightarrow> bool" where
  "same_user R free s t \<longleftrightarrow>
     (\<forall>q \<in> R. \<forall>qs. upath qs \<longrightarrow> length qs = 4 \<longrightarrow> entry (frames t) q qs = entry (frames s) q qs
        \<and> (\<forall>a. tab (frames s) q qs = Some a \<longrightarrow> frames t a = frames s a))
     \<and> (\<forall>a. a \<notin> pages (frames s) R \<longrightarrow> a \<notin> set free \<longrightarrow> frames t a = frames s a \<and> a \<notin> pages (frames t) R)"

lemma mem_okD:
  assumes "mem_ok s R free"
  shows "free_list s free" "length (frames s v) = PGSIZE" "forest (frames s) R" "a \<in> pages (frames s) R \<Longrightarrow> usable s a"
    "a \<in> pages (frames s) R \<Longrightarrow> a \<notin> set free"
  using assms by (auto simp: mem_ok_def)

lemma kframeD:
  assumes "kframe s t"
  shows "usable t = usable s" "k_end t = k_end s" "kpdpt t = kpdpt s" "kpml4 t = kpml4 s" "icache t = icache s" "sb t = sb s"
proof -
  show k: "k_end t = k_end s" "kpdpt t = kpdpt s" "kpml4 t = kpml4 s" "icache t = icache s" "sb t = sb s"
    using assms by (auto simp: kframe_def)
  show "usable t = usable s" unfolding usable_def k ..
qed

lemma kframe_trans: "kframe s t \<Longrightarrow> kframe t u \<Longrightarrow> kframe s u"
  by (clarsimp simp: kframe_def) blast

lemma kframe_intros [simp, intro]: "kframe s s" "kframe s t \<Longrightarrow> kframe s (set_frame v x t)" "kframe s t \<Longrightarrow> kframe s (set_pte v i w t)"
    "kframe s t \<Longrightarrow> kframe s (t\<lparr>freelist := l\<rparr>)"
proof -
  show "kframe s s" unfolding kframe_def by (intro exI [of _ "freelist s"] exI [of _ "frames s"]) simp
  show "kframe s t \<Longrightarrow> kframe s (t\<lparr>freelist := l\<rparr>)"
    by (cases s) (auto simp: kframe_def)
qed (clarsimp simp: kframe_def set_frame_def set_pte_def, blast)+

lemma tab_entry4: "length qs = 4 \<Longrightarrow> tab f q qs = (if entry f q qs AND PTE_P = 0 then None else Some (P2V (PTE_ADDR (entry f q qs))))"
  using tab_snoc [of f q "butlast qs" "last qs"] by (cases qs rule: rev_cases) auto

lemma same_user_refl [simp]: "same_user R free s s"
  by (simp add: same_user_def)

lemma same_userD:
  assumes "same_user R free s t"
  shows "q \<in> R \<Longrightarrow> upath qs \<Longrightarrow> length qs = 4 \<Longrightarrow> entry (frames t) q qs = entry (frames s) q qs"
    "q \<in> R \<Longrightarrow> upath qs \<Longrightarrow> length qs = 4 \<Longrightarrow> tab (frames t) q qs = tab (frames s) q qs"
    "q \<in> R \<Longrightarrow> upath qs \<Longrightarrow> length qs = 4 \<Longrightarrow> tab (frames s) q qs = Some a \<Longrightarrow> frames t a = frames s a"
    "a \<notin> pages (frames s) R \<Longrightarrow> a \<notin> set free \<Longrightarrow> frames t a = frames s a"
    "a \<notin> pages (frames s) R \<Longrightarrow> a \<notin> set free \<Longrightarrow> a \<notin> pages (frames t) R"
  using assms by (auto simp: same_user_def tab_entry4)

lemma same_user_trans:
  assumes 1: "same_user R free s t" and 2: "same_user R free' t u" and sub: "set free' \<subseteq> set free"
  shows "same_user R free s u"
  unfolding same_user_def
proof (intro conjI ballI allI impI)
  fix q qs a
  assume q: "q \<in> R" "upath qs" "length qs = 4"
  show "entry (frames u) q qs = entry (frames s) q qs" using same_userD(1) [OF 1 q] same_userD(1) [OF 2 q] by simp
  assume a: "tab (frames s) q qs = Some a"
  then have "tab (frames t) q qs = Some a" using same_userD(2) [OF 1 q] by simp
  then show "frames u a = frames s a" using same_userD(3) [OF 1 q a] same_userD(3) [OF 2 q] by simp
next
  fix a
  assume a: "a \<notin> pages (frames s) R" "a \<notin> set free"
  then have b: "a \<notin> pages (frames t) R" "a \<notin> set free'" using same_userD(5) [OF 1 a] sub by auto
  show "frames u a = frames s a" "a \<notin> pages (frames u) R" using same_userD(4) [OF 1 a] same_userD(4,5) [OF 2 b] by simp_all
qed

lemma P2V_V2P [simp]: "P2V (V2P a) = a"
  by (simp add: P2V_def V2P_def)

lemma aligned_unat: "take_bit 12 (n :: u64) = 0 \<longleftrightarrow> PGSIZE dvd unat n"
  by (simp add: take_bit_eq_mod word_unat_eq_iff unat_mod dvd_eq_mod_eq_0)

lemma V2P_aligned: "n mod 4096 = 0 \<Longrightarrow> take_bit 12 (V2P n) = 0"
proof -
  assume "n mod 4096 = 0"
  then have "PGSIZE dvd unat n" using aligned_unat [of n] by (simp add: take_bit_eq_mod)
  then have "PGSIZE dvd unat (V2P n)" unfolding V2P_def by (subst unat_sub_if') (auto intro!: dvd_diff_nat dvd_add)
  then show ?thesis by (simp add: aligned_unat)
qed

text \<open>An entry made of the address of a page and flags.\<close>

lemma pte_page:
  assumes "usable s n" "fl AND NOT 0xFFF = 0" "fl AND PTE_P \<noteq> 0"
  shows "P2V (PTE_ADDR (V2P n OR fl)) = n" "(V2P n OR fl) AND PTE_P \<noteq> 0"
proof -
  have a: "take_bit 12 (V2P n) = 0" using assms(1) by (intro V2P_aligned) (simp add: usable_def)
  then have b: "\<not> bit (V2P n) k" if "k < 12" for k using that by (metis bit_0_eq bit_take_bit_iff bot_apply bot_bool_def)
  have c: "\<not> bit fl k" if "12 \<le> k" "k < 64" for k
  proof -
    have "\<not> bit (fl AND NOT 0xFFF) k" using assms(2) by simp
    then show ?thesis using that by (simp add: bit_simps mask12)
  qed
  have "PTE_ADDR (V2P n OR fl) = V2P n"
    by (rule bit_eqI) (use b c in \<open>auto simp: PTE_ADDR_def bit_simps mask12 intro: leI\<close>)
  then show "P2V (PTE_ADDR (V2P n OR fl)) = n" by simp
  have "odd fl" using assms(3) by (simp add: and_one_eq mod_2_eq_odd split: if_splits)
  then show "(V2P n OR fl) AND PTE_P \<noteq> 0" by (simp add: and_one_eq mod_2_eq_odd even_or_iff)
qed

section \<open>Operations on the tables\<close>

text \<open>Setting an empty entry to a page that is neither free nor in a tree.\<close>

lemma mem_hook:
  assumes m: "mem_ok s R free" and p: "p \<in> R" and t: "tab (frames s) p ps = Some t" and u: "upath (ps @ [i])"
    and e: "entry (frames s) p (ps @ [i]) AND PTE_P = 0"
    and n: "usable s n" "n \<notin> set free" "n \<notin> pages (frames s) R" and w: "w AND PTE_P \<noteq> 0" "P2V (PTE_ADDR w) = n"
    and c: "length ps = 3 \<or> c = zero_page" "length c = PGSIZE"
  defines "s' \<equiv> set_pte t i w (set_frame n c s)"
  shows "mem_ok s' R free" "kframe s s'" "tab (frames s') p (ps @ [i]) = Some n" "frames s' n = c" "pages (frames s') R = insert n (pages (frames s) R)"
    "q \<in> R \<Longrightarrow> upath qs \<Longrightarrow> length qs = 4 \<Longrightarrow>
      entry (frames s') q qs = (if q = p \<and> qs = ps @ [i] then w else entry (frames s) q qs)"
    "q \<in> R \<Longrightarrow> upath qs \<Longrightarrow> length qs = 4 \<Longrightarrow> tab (frames s) q qs = Some a \<Longrightarrow> frames s' a = frames s a"
    "a \<noteq> n \<Longrightarrow> a \<notin> pages (frames s) R \<Longrightarrow> frames s' a = frames s a"
proof -
  note M = mem_okD [OF m]
  have ps: "upath ps" using u by (rule upath_append)
  have tp: "t \<in> pages (frames s) R" using p ps t by (rule pagesI)
  have nt: "n \<noteq> t" using n(3) tp by auto
  have f: "frames s' = ((frames s)(n := c))(t := blit (8 * i) (le64 w) (frames s t))"
    using nt by (simp add: s'_def set_pte_def set_frame_def)
  note H = hook_page [OF M(3) p t u e n(3) w c(1) M(2), folded f]
  show k: "kframe s s'" by (simp add: s'_def)
  show "tab (frames s') p (ps @ [i]) = Some n" using H(1) [OF p u] by simp
  show "frames s' n = c" using nt by (simp add: f)
  show pg: "pages (frames s') R = insert n (pages (frames s) R)" by (rule H(4))
  have "free_list s' free" unfolding s'_def set_pte_def
    by (intro set_frame_free M(1) n(2)) (use M(5) tp in auto)
  moreover have "length (frames s' v) = PGSIZE" for v
  proof (cases "v = t")
    case True
    have "i < 512" using u by (simp add: upath_def)
    then show ?thesis using True M(2) by (simp add: f)
  qed (use M(2) c(2) in \<open>simp add: f\<close>)
  moreover have "usable s' a \<and> a \<notin> set free" if "a \<in> pages (frames s') R" for a
    using that M(4,5) n kframeD(1) [OF k] unfolding pg by auto
  ultimately show "mem_ok s' R free" using H(3) by (simp add: mem_ok_def)
  show "entry (frames s') q qs = (if q = p \<and> qs = ps @ [i] then w else entry (frames s) q qs)"
    if "q \<in> R" "upath qs" "length qs = 4" using H(2) [OF that] .
  show "frames s' a = frames s a" if q: "q \<in> R" "upath qs" "length qs = 4" "tab (frames s) q qs = Some a"
  proof -
    have "a \<noteq> t"
    proof
      assume "a = t"
      then have "qs = ps" using forestD [OF M(3) q(1) p q(2) ps] q(4) t by simp
      then show False using q(3) u by (simp add: upath_def)
    qed
    moreover have "a \<noteq> n" using n(3) pagesI [OF q(1,2,4)] by auto
    ultimately show ?thesis by (simp add: f)
  qed
  show "frames s' a = frames s a" if "a \<noteq> n" "a \<notin> pages (frames s) R" using that tp by (auto simp: f)
qed

lemma mem_ok_kalloc:
  assumes m: "mem_ok s R (n # free)"
  shows "\<exists>s'. kalloc s = Some (n, s') \<and> mem_ok s' R free \<and> kframe s s' \<and> frames s' = frames s \<and> usable s n
    \<and> n \<notin> pages (frames s) R \<and> n \<notin> set free"
proof -
  note M = mem_okD [OF m]
  have d: "n \<notin> set free" "usable s n" "n \<notin> pages (frames s) R" using M(1,5) by (auto dest: free_listD)
  show ?thesis using kalloc_Cons [OF M(1)] M d by (auto simp: mem_ok_def)
qed

text \<open>One level of the walk.\<close>

lemma get_pte_entry: "tab (frames s) p ps = Some t \<Longrightarrow> get_pte t i s = entry (frames s) p (ps @ [i])"
  by (simp add: get_pte_def entry_def)

lemma walk_level_lookup:
  assumes "tab (frames s) p ps = Some t"
  shows "walk_level t i False s = Some (tab (frames s) p (ps @ [i]), s)"
    "tab (frames s) p (ps @ [i]) = Some a \<Longrightarrow> walk_level t i alloc s = Some (Some a, s)"
  using get_pte_entry [OF assms] tab_snoc [of "frames s" p ps i] by (auto simp: walk_level_def split: if_splits)

lemma walk_level_alloc:
  assumes m: "mem_ok s R free" and p: "p \<in> R" and t: "tab (frames s) p ps = Some t" and u: "upath (ps @ [i])" "length ps < 3"
    and free: "free \<noteq> []"
  shows "\<exists>a s' k. walk_level t i True s = Some (Some a, s') \<and> k \<le> 1 \<and> mem_ok s' R (drop k free) \<and> kframe s s'
    \<and> tab (frames s') p (ps @ [i]) = Some a \<and> same_user R free s s'"
proof (cases "tab (frames s) p (ps @ [i])")
  case (Some a)
  then show ?thesis using walk_level_lookup(2) [OF t Some, of True] m by (intro exI [of _ a] exI [of _ s] exI [of _ 0]) simp
next
  case None
  obtain n vs where f: "free = n # vs" using free by (cases free) auto
  obtain s1 where 1: "kalloc s = Some (n, s1)" "mem_ok s1 R vs" "kframe s s1" "frames s1 = frames s" "usable s n"
      "n \<notin> pages (frames s) R" "n \<notin> set vs" using mem_ok_kalloc [OF m [unfolded f]] by blast
  have e: "entry (frames s) p (ps @ [i]) AND PTE_P = 0" using None by (simp add: tab_snoc split: if_splits)
  let ?w = "V2P n OR PTE_P OR PTE_W OR PTE_U" and ?c = zero_page
  have w: "?w AND PTE_P \<noteq> 0" "P2V (PTE_ADDR ?w) = n" using pte_page [OF 1(5), of 7] by simp_all
  let ?s = "set_pte t i ?w (set_frame n ?c s1)"
  have us: "usable s1 n" using 1(3,5) kframeD(1) by metis
  note H = mem_hook [OF 1(2) p, unfolded 1(4), OF t u(1) e us 1(7,6) w, of ?c, simplified]
  have "walk_level t i True s = Some (Some n, ?s)"
    using e 1(1) by (simp add: walk_level_def get_pte_entry [OF t] Let_def)
  moreover have "same_user R free s ?s"
    unfolding same_user_def
  proof (intro conjI ballI allI impI)
    fix q qs a
    assume q: "q \<in> R" "upath qs" "length qs = 4"
    show "entry (frames ?s) q qs = entry (frames s) q qs" using H(6) [OF q] q(3) u by auto
    assume "tab (frames s) q qs = Some a"
    then show "frames ?s a = frames s a" using H(7) [OF q] by simp
  next
    fix a
    assume "a \<notin> pages (frames s) R" "a \<notin> set free"
    then show "frames ?s a = frames s a" "a \<notin> pages (frames ?s) R" using H(5) H(8) [of a] f by auto
  qed
  ultimately show ?thesis
    using H(1,3) 1(3) f by (intro exI [of _ n] exI [of _ ?s] exI [of _ 1]) simp
qed

declare tab.simps(2) [simp del]

section \<open>Walking the tables\<close>

definition path :: "u64 \<Rightarrow> nat list" where
  "path va = [PMX va, PDPX va, PDX va, PTX va]"

definition user_va :: "u64 \<Rightarrow> bool" where
  "user_va va \<longleftrightarrow> va < 0x800000000000"

lemma index_9_bits: "unat (drop_bit k va AND 0x1FF) = unat va div 2 ^ k mod 512" for va :: u64
proof -
  have "drop_bit k va AND 0x1FF = take_bit 9 (drop_bit k va)" by (simp add: take_bit_eq_mask mask_eq_exp_minus_1)
  then have "unat (drop_bit k va AND 0x1FF) = take_bit 9 (unat (drop_bit k va))"
    by (simp only: unsigned_take_bit_eq)
  also have "\<dots> = unat va div 2 ^ k mod 512"
    using unat_less_u64 [of va] by (simp add: take_bit_eq_mod unsigned_drop_bit_eq drop_bit_nat_def take_bit_nat_eq_self)
  finally show ?thesis .
qed

lemma path_nat: "path va = [unat va div 2 ^ 39 mod 512, unat va div 2 ^ 30 mod 512, unat va div 2 ^ 21 mod 512, unat va div 2 ^ 12 mod 512]"
  by (simp add: path_def PMX_def PDPX_def PDX_def PTX_def index_9_bits)

lemma upath_path:
  assumes "user_va va"
  shows "upath (path va)" "upath [PMX va]" "upath [PMX va, PDPX va]" "upath [PMX va, PDPX va, PDX va]"
proof -
  have "unat va < 2 ^ 47" using assms by (simp add: user_va_def word_less_nat_alt)
  then have "unat va div 2 ^ 39 < 256" by (simp add: div_less_iff_less_mult)
  then show 1: "upath (path va)" unfolding path_nat upath_def by auto
  show "upath [PMX va]" "upath [PMX va, PDPX va]" "upath [PMX va, PDPX va, PDX va]"
    using upath_append [of "[PMX va]" "[PDPX va, PDX va, PTX va]"] upath_append [of "[PMX va, PDPX va]" "[PDX va, PTX va]"]
      upath_append [of "[PMX va, PDPX va, PDX va]" "[PTX va]"] 1 by (simp_all add: path_def)
qed

lemma length_path [simp]: "length (path va) = 4" "path va \<noteq> []"
  by (simp_all add: path_def)

text \<open>Two user addresses have the same path when they are in the same page.\<close>

lemma path_inj:
  assumes "user_va a" "user_va b" "path a = path b"
  shows "PGROUNDDOWN a = PGROUNDDOWN b"
proof -
  have d: "x div 2 ^ 12 = ((x div 2 ^ 39 mod 512 * 512 + x div 2 ^ 30 mod 512) * 512 + x div 2 ^ 21 mod 512) * 512 + x div 2 ^ 12 mod 512"
    if "x < 2 ^ 47" for x :: nat
  proof -
    have 1: "y div 512 * 512 + y mod 512 = y" for y :: nat by simp
    have "x div 2 ^ 39 mod 512 = x div 2 ^ 39" using that by (simp add: div_less_iff_less_mult)
    moreover have "x div 2 ^ 39 = x div 2 ^ 30 div 512" "x div 2 ^ 30 = x div 2 ^ 21 div 512" "x div 2 ^ 21 = x div 2 ^ 12 div 512"
      by (simp_all add: div_mult2_eq [symmetric])
    ultimately show ?thesis using 1 by (metis)
  qed
  have l: "unat a < 2 ^ 47" "unat b < 2 ^ 47" using assms(1,2) by (simp_all add: user_va_def word_less_nat_alt)
  from assms(3) have E: "unat a div 2 ^ 39 mod 512 = unat b div 2 ^ 39 mod 512" "unat a div 2 ^ 30 mod 512 = unat b div 2 ^ 30 mod 512"
    "unat a div 2 ^ 21 mod 512 = unat b div 2 ^ 21 mod 512" "unat a div 2 ^ 12 mod 512 = unat b div 2 ^ 12 mod 512"
    unfolding path_nat by (simp_all only: list.inject)
  have "unat a div 2 ^ 12 = unat b div 2 ^ 12"
    using d [OF l(1), unfolded E] d [OF l(2), symmetric] by (rule trans)
  then have "unat (PGROUNDDOWN a) = unat (PGROUNDDOWN b)" by (simp add: unat_PGROUNDDOWN)
  then show ?thesis by (rule unsigned_word_eqI)
qed

lemma walkpgdir_lookup:
  "walkpgdir p va False s = Some (map_option (\<lambda>t. (t, PTX va)) (tab (frames s) p [PMX va, PDPX va, PDX va]), s)"
proof -
  have w: "walk_level p (PMX va) False s = Some (tab (frames s) p [PMX va], s)" using walk_level_lookup(1) [of s p "[]" p] by simp
  show ?thesis
  proof (cases "tab (frames s) p [PMX va]")
    case None
    then show ?thesis using w tab_append [of "frames s" p "[PMX va]" "[PDPX va, PDX va]"] by (simp add: walkpgdir_def)
  next
    case (Some a)
    have x: "walk_level a (PDPX va) False s = Some (tab (frames s) p [PMX va, PDPX va], s)" using walk_level_lookup(1) [OF Some] by simp
    show ?thesis
    proof (cases "tab (frames s) p [PMX va, PDPX va]")
      case None
      then show ?thesis using w x Some tab_append [of "frames s" p "[PMX va, PDPX va]" "[PDX va]"] by (simp add: walkpgdir_def)
    next
      case b: (Some b)
      have "walk_level b (PDX va) False s = Some (tab (frames s) p [PMX va, PDPX va, PDX va], s)" using walk_level_lookup(1) [OF b] by simp
      then show ?thesis using w x Some b by (auto simp: walkpgdir_def split: option.split)
    qed
  qed
qed

lemma walkpgdir_alloc:
  assumes m: "mem_ok s R free" and p: "p \<in> R" and va: "user_va va" and free: "3 \<le> length free"
  shows "\<exists>t s' k. walkpgdir p va True s = Some (Some (t, PTX va), s') \<and> k \<le> 3 \<and> mem_ok s' R (drop k free) \<and> kframe s s'
    \<and> tab (frames s') p [PMX va, PDPX va, PDX va] = Some t \<and> same_user R free s s'"
proof -
  note u = upath_path [OF va]
  have ne: "free \<noteq> []" "\<And>k. k \<le> 2 \<Longrightarrow> drop k free \<noteq> []" using free by auto
  obtain a s1 k1 where 1: "walk_level p (PMX va) True s = Some (Some a, s1)" "k1 \<le> 1" "mem_ok s1 R (drop k1 free)" "kframe s s1"
      "tab (frames s1) p [PMX va] = Some a" "same_user R free s s1"
    using walk_level_alloc [OF m p, of "[]" p "PMX va"] u ne by auto
  obtain b s2 k2 where 2: "walk_level a (PDPX va) True s1 = Some (Some b, s2)" "k2 \<le> 1" "mem_ok s2 R (drop k2 (drop k1 free))" "kframe s1 s2"
      "tab (frames s2) p [PMX va, PDPX va] = Some b" "same_user R (drop k1 free) s1 s2"
    using walk_level_alloc [OF 1(3) p 1(5), of "PDPX va"] u 1(2) ne(2) [of k1] by auto
  obtain t s3 k3 where 3: "walk_level b (PDX va) True s2 = Some (Some t, s3)" "k3 \<le> 1" "mem_ok s3 R (drop k3 (drop k2 (drop k1 free)))"
      "kframe s2 s3" "tab (frames s3) p [PMX va, PDPX va, PDX va] = Some t" "same_user R (drop k2 (drop k1 free)) s2 s3"
    using walk_level_alloc [OF 2(3) p 2(5), of "PDX va"] u 1(2) 2(2) ne(2) [of "k2 + k1"] by auto
  have "same_user R free s s3"
    using same_user_trans [OF 1(6) same_user_trans [OF 2(6) 3(6)]] by (meson order_trans set_drop_subset)
  moreover have "walkpgdir p va True s = Some (Some (t, PTX va), s3)" using 1(1) 2(1) 3(1) by (simp add: walkpgdir_def)
  moreover have "mem_ok s3 R (drop (k1 + k2 + k3) free)" using 3(3) by (simp add: add.commute add.left_commute)
  ultimately show ?thesis
    using 1(2) 2(2) 3(2,5) kframe_trans [OF 1(4) kframe_trans [OF 2(4) 3(4)]]
    by (intro exI [of _ t] exI [of _ s3] exI [of _ "k1 + k2 + k3"]) auto
qed

end
