(* ===== verification/Xv6_UserMem.thy ===== *)
theory Xv6_UserMem
  imports Xv6_PageTable
begin

text \<open>
  User memory: what an address space maps, as the flags and the contents of its pages, and how \<^verbatim>\<open>mappages\<close>, \<^verbatim>\<open>allocuvm\<close>,
  \<^verbatim>\<open>copyuvm\<close>, \<^verbatim>\<open>copyout\<close> and \<^verbatim>\<open>copyin\<close> of \<^verbatim>\<open>vm.c\<close> read and change it.
\<close>

section \<open>The view of a user page\<close>

definition uview :: "'a kmst_scheme \<Rightarrow> u64 \<Rightarrow> u64 \<Rightarrow> (u64 \<times> page) option" where
  "uview s p va =
     (let e = entry (frames s) p (path va) in
      if e AND PTE_P = 0 then None else Some (PTE_FLAGS e, frames s (P2V (PTE_ADDR e))))"

lemma uview_tab:
  "uview s p va = map_option (\<lambda>a. (PTE_FLAGS (entry (frames s) p (path va)), frames s a)) (tab (frames s) p (path va))"
  by (simp add: uview_def Let_def tab_entry4)

lemma uview_same: "same_user R free s t \<Longrightarrow> q \<in> R \<Longrightarrow> user_va va \<Longrightarrow> uview t q va = uview s q va"
  using same_userD(1,2,3) [of R free s t q "path va"] upath_path(1) [of va]
  by (cases "tab (frames s) q (path va)") (auto simp: uview_tab)

lemma path_page: "path (PGROUNDDOWN va) = path va"
proof -
  have "unat va div 4096 * 4096 div (4096 * k) = unat va div (4096 * k)" for k by (simp add: div_mult2_eq)
  from this [of "2 ^ 27"] this [of "2 ^ 18"] this [of "2 ^ 9"] this [of 1] show ?thesis
    by (simp add: path_nat unat_PGROUNDDOWN)
qed

lemma path_eq_iff: "user_va a \<Longrightarrow> user_va b \<Longrightarrow> path a = path b \<longleftrightarrow> PGROUNDDOWN a = PGROUNDDOWN b"
  using path_inj path_page by metis

lemma uview_page: "PGROUNDDOWN a = PGROUNDDOWN b \<Longrightarrow> uview s p a = uview s p b"
  using path_page [of a] path_page [of b] by (simp add: uview_def)

lemma set_frame_same [simp]: "set_frame v (frames s v) s = s"
  by (simp add: set_frame_def)

lemma aligned_page: "PGROUNDDOWN a = a \<longleftrightarrow> unat a mod PGSIZE = 0"
proof -
  have "PGROUNDDOWN a = a \<longleftrightarrow> unat a div PGSIZE * PGSIZE = unat a" using unat_PGROUNDDOWN [of a] by (metis unsigned_word_eqI)
  also have "\<dots> \<longleftrightarrow> unat a mod PGSIZE = 0" by (metis add_cancel_left_right div_mult_mod_eq)
  finally show ?thesis .
qed

lemma frames_set_frame [simp]: "frames (set_frame v x s) = (frames s)(v := x)"
  by (simp add: set_frame_def)

section \<open>Mapping a page\<close>

lemma mappages_one:
  assumes "PGROUNDDOWN a = a" "user_va a"
  shows "mappages p a 4096 pa perm s = mappages_loop 0 p a pa perm s"
proof -
  have "unat a < 2 ^ 47" using assms(2) by (simp add: user_va_def word_less_nat_alt)
  then have "unat (a + 4095) = unat a + 4095" by (subst unat_plus_if') simp
  moreover have "(unat a + 4095) div PGSIZE * PGSIZE = unat a" using assms(1) aligned_page [of a] by auto
  ultimately have "unat (PGROUNDDOWN (a + 4095)) = unat a" by (simp add: unat_PGROUNDDOWN)
  then have "PGROUNDDOWN (a + 4095) = a" by (rule unsigned_word_eqI)
  then show ?thesis using assms(1) by (simp add: mappages_def Let_def algebra_simps)
qed

lemma pte_flags:
  assumes "usable s n" "fl AND NOT 0xFFF = 0"
  shows "PTE_FLAGS (V2P n OR fl) = fl"
proof -
  have a: "take_bit 12 (V2P n) = 0" using assms(1) by (intro V2P_aligned) (simp add: usable_def)
  have "fl = (fl AND 0xFFF) OR (fl AND NOT 0xFFF)" by (rule bit_eqI) (auto simp: bit_simps)
  then have f: "fl AND 0xFFF = fl" using assms(2) by simp
  have "V2P n AND 0xFFF = 0" using a by (simp add: take_bit_eq_mask mask_eq_exp_minus_1)
  then show ?thesis unfolding PTE_FLAGS_def bit.conj_disj_distrib2 using f by simp
qed

lemma mappages_page:
  assumes m: "mem_ok s R free" and p: "p \<in> R" and a: "PGROUNDDOWN a = a" "user_va a" and free: "3 \<le> length free"
    and n: "usable s n" "n \<notin> set free" "n \<notin> pages (frames s) R" and un: "uview s p a = None"
    and fl: "perm AND NOT 0xFFF = 0"
  shows "\<exists>s' k. mappages p a 4096 (V2P n) perm s = Some (0, s') \<and> k \<le> 3 \<and> mem_ok s' R (drop k free) \<and> kframe s s'
    \<and> (\<forall>q \<in> R. \<forall>b. user_va b \<longrightarrow> uview s' q b = (if q = p \<and> PGROUNDDOWN b = a then Some (perm OR PTE_P, frames s n) else uview s q b))
    \<and> (\<forall>b. b \<notin> pages (frames s) R \<longrightarrow> b \<notin> set free \<longrightarrow> b \<noteq> n \<longrightarrow> frames s' b = frames s b \<and> b \<notin> pages (frames s') R)"
proof -
  obtain t s1 k where 1: "walkpgdir p a True s = Some (Some (t, PTX a), s1)" "k \<le> 3" "mem_ok s1 R (drop k free)" "kframe s s1"
      "tab (frames s1) p [PMX a, PDPX a, PDX a] = Some t" "same_user R free s s1"
    using walkpgdir_alloc [OF m p a(2) free] by blast
  let ?w = "V2P n OR perm OR PTE_P" and ?ps = "[PMX a, PDPX a, PDX a]"
  have u: "upath (?ps @ [PTX a])" using upath_path(1) [OF a(2)] by (simp add: path_def)
  have ps: "?ps @ [PTX a] = path a" by (simp add: path_def)
  have "uview s1 p a = None" using uview_same [OF 1(6) p a(2)] un by simp
  then have e: "entry (frames s1) p (?ps @ [PTX a]) AND PTE_P = 0" unfolding ps by (simp add: uview_def Let_def split: if_splits)
  have n1: "usable s1 n" "n \<notin> set (drop k free)" "n \<notin> pages (frames s1) R" "frames s1 n = frames s n"
    using n kframeD(1) [OF 1(4)] same_userD(4,5) [OF 1(6) n(3,2)] set_drop_subset [of k free] by auto
  have fl1: "(perm OR PTE_P) AND NOT 0xFFF = 0" using fl by (simp add: bit.conj_disj_distrib2)
  have pp: "(perm OR PTE_P) AND PTE_P \<noteq> 0" by (simp add: and_one_eq mod_2_eq_odd even_or_iff)
  have w: "?w AND PTE_P \<noteq> 0" "P2V (PTE_ADDR ?w) = n" "PTE_FLAGS ?w = perm OR PTE_P"
    using pte_page [OF n(1) fl1 pp] pte_flags [OF n(1) fl1] by simp_all
  have len: "length (frames s1 n) = PGSIZE" using mem_okD(2) [OF 1(3)] .
  let ?s = "set_pte t (PTX a) ?w s1"
  note H = mem_hook [OF 1(3) p 1(5) u e n1(1,2,3) w(1,2) _ len, simplified]
  have run: "mappages p a 4096 (V2P n) perm s = Some (0, ?s)"
    using 1(1) e get_pte_entry [OF 1(5), of "PTX a"] by (simp add: mappages_one [OF a] mappages_loop.simps [of 0])
  have view: "uview ?s q b = (if q = p \<and> PGROUNDDOWN b = a then Some (perm OR PTE_P, frames s n) else uview s q b)"
    if q: "q \<in> R" "user_va b" for q b
  proof -
    have en: "entry (frames ?s) q (path b) = (if q = p \<and> path b = path a then ?w else entry (frames s1) q (path b))"
      using H(6) [OF q(1) upath_path(1) [OF q(2)]] by (simp add: path_def)
    show ?thesis
    proof (cases "q = p \<and> path b = path a")
      case True
      then show ?thesis using en w H(4) n1(4) path_eq_iff [OF q(2) a(2)] a(1) by (simp add: uview_def Let_def)
    next
      case False
      then have "uview ?s q b = uview s1 q b"
        using en H(7) [OF q(1) upath_path(1) [OF q(2)]] by (auto simp: uview_def Let_def tab_entry4 split: if_splits)
      then show ?thesis using uview_same [OF 1(6) q] path_eq_iff [OF q(2) a(2)] a(1) False by auto
    qed
  qed
  have other: "frames ?s b = frames s b \<and> b \<notin> pages (frames ?s) R" if "b \<notin> pages (frames s) R" "b \<notin> set free" "b \<noteq> n" for b
    using that same_userD(4,5) [OF 1(6) that(1,2)] H(5) H(8) [of b] by auto
  show ?thesis using run 1(2) H(1) kframe_intros(3) [OF 1(4)] view other by blast
qed

text \<open>Writing to a page that is in no tree.\<close>

lemma mem_ok_set_frame:
  assumes m: "mem_ok s R free" and n: "n \<notin> pages (frames s) R" "n \<notin> set free" and c: "length c = PGSIZE"
  shows "mem_ok (set_frame n c s) R free" "q \<in> R \<Longrightarrow> user_va b \<Longrightarrow> uview (set_frame n c s) q b = uview s q b"
    "pages (frames (set_frame n c s)) R = pages (frames s) R"
proof -
  note M = mem_okD [OF m]
  have f: "frames (set_frame n c s) = (frames s)(n := c)" by (simp add: set_frame_def)
  have g: "((frames s)(n := c)) a = frames s a" if "a \<in> pages (frames s) R" for a using that n by auto
  note T = tab_other [where f = "frames s" and g = "(frames s)(n := c)" and R = R, OF g]
  show pg: "pages (frames (set_frame n c s)) R = pages (frames s) R" 
    unfolding pages_def f by (intro Collect_cong bex_cong refl iff_exI) (auto simp: T(1))
  have "forest (frames (set_frame n c s)) R" using M(3) T(1) unfolding forest_def f by simp
  then show "mem_ok (set_frame n c s) R free"
    using M set_frame_free [OF M(1) n(2)] c unfolding mem_ok_def pg by (auto simp: f)
  show "uview (set_frame n c s) q b = uview s q b" if q: "q \<in> R" "user_va b"
  proof -
    note u = upath_path(1) [OF q(2)]
    show ?thesis using T(1) [OF _ q(1) u] T(2) [OF _ q(1) u] g [OF pagesI [OF q(1) u]]
      by (cases "tab (frames s) q (path b)") (auto simp: uview_tab f)
  qed
qed

text \<open>A fresh page with contents \<open>c\<close> is mapped at an address that was not mapped.\<close>

lemma map_fresh:
  assumes m: "mem_ok s R free" and p: "p \<in> R" and a: "PGROUNDDOWN a = a" "user_va a" and free: "4 \<le> length free"
    and un: "uview s p a = None" and fl: "perm AND NOT 0xFFF = 0" and c: "length c = PGSIZE"
  shows "\<exists>n s1 s' k. kalloc s = Some (n, s1) \<and> frames s1 = frames s \<and> mappages p a 4096 (V2P n) perm (set_frame n c s1) = Some (0, s')
    \<and> k \<le> 4 \<and> mem_ok s' R (drop k free) \<and> kframe s s'
    \<and> (\<forall>q \<in> R. \<forall>b. user_va b \<longrightarrow> uview s' q b = (if q = p \<and> PGROUNDDOWN b = a then Some (perm OR PTE_P, c) else uview s q b))"
proof -
  obtain n vs where f: "free = n # vs" using free by (cases free) auto
  obtain s1 where 1: "kalloc s = Some (n, s1)" "mem_ok s1 R vs" "kframe s s1" "frames s1 = frames s" "usable s n"
      "n \<notin> pages (frames s) R" "n \<notin> set vs" using mem_ok_kalloc [OF m [unfolded f]] by blast
  let ?s = "set_frame n c s1"
  have n1: "n \<notin> pages (frames s1) R" using 1(4,6) by simp
  note S = mem_ok_set_frame [OF 1(2) n1 1(7) c]
  have v1: "uview s1 q b = uview s q b" for q b using 1(4) by (simp add: uview_def Let_def)
  have "usable ?s n" "n \<notin> pages (frames ?s) R" "frames ?s n = c" 
    using 1(5) kframeD(1) [OF 1(3)] n1 S(3) by simp_all
  moreover have "uview ?s p a = None" using S(2) [OF p a(2)] v1 un by simp
  ultimately obtain s' k where 2: "mappages p a 4096 (V2P n) perm ?s = Some (0, s')" "k \<le> 3" "mem_ok s' R (drop k vs)" "kframe ?s s'"
      "\<forall>q \<in> R. \<forall>b. user_va b \<longrightarrow> uview s' q b = (if q = p \<and> PGROUNDDOWN b = a then Some (perm OR PTE_P, c) else uview ?s q b)"
    using mappages_page [OF S(1) p a, of n perm] free f 1(7) fl by auto
  show ?thesis
  proof (intro exI conjI)
    show "mem_ok s' R (drop (Suc k) free)" using 2(3) f by simp
    show "kframe s s'" using kframe_trans [OF _ 2(4)] 1(3) by simp
    show "\<forall>q \<in> R. \<forall>b. user_va b \<longrightarrow> uview s' q b = (if q = p \<and> PGROUNDDOWN b = a then Some (perm OR PTE_P, c) else uview s q b)"
      using 2(5) S(2) v1 by simp
  qed (use 1 2 in auto)
qed

section \<open>Growing an address space\<close>

lemma page_addrs_set:
  assumes lo: "unat lo mod PGSIZE = 0" "unat lo \<le> unat hi"
  shows "a \<in> set (page_addrs lo hi) \<longleftrightarrow> unat a mod PGSIZE = 0 \<and> unat lo \<le> unat a \<and> unat a < unat hi" "distinct (page_addrs lo hi)"
proof -
  note [simp del] = of_nat_mult
  let ?n = "(unat hi - unat lo + PGSIZE - 1) div PGSIZE" and ?f = "\<lambda>k. lo + of_nat (k * PGSIZE)"
  have b: "k * PGSIZE < unat hi - unat lo" if "k < ?n" for k
  proof -
    have "Suc k * PGSIZE \<le> unat hi - unat lo + PGSIZE - 1" 
      using that by (intro order_trans [OF mult_le_mono1 div_times_less_eq_dividend]) (simp add: Suc_le_eq)
    then show ?thesis by simp
  qed
  have u: "unat (?f k) = unat lo + k * PGSIZE" if "k < ?n" for k
    by (rule page_range) (use b [OF that] unat_less_u64 [of hi] in simp)
  show "distinct (page_addrs lo hi)" unfolding page_addrs_def distinct_map
    using u by (auto intro!: inj_onI) (metis add_left_cancel mult_right_cancel zero_neq_numeral)
  show "a \<in> set (page_addrs lo hi) \<longleftrightarrow> unat a mod PGSIZE = 0 \<and> unat lo \<le> unat a \<and> unat a < unat hi"
  proof
    assume "a \<in> set (page_addrs lo hi)"
    then have "a \<in> ?f ` {0..<?n}" unfolding page_addrs_def set_map set_upt .
    then obtain k where "k < ?n" "a = ?f k" unfolding image_iff Bex_def atLeastLessThan_iff by blast
    then show "unat a mod PGSIZE = 0 \<and> unat lo \<le> unat a \<and> unat a < unat hi" using u b [of k] lo(1) by simp
  next
    assume a: "unat a mod PGSIZE = 0 \<and> unat lo \<le> unat a \<and> unat a < unat hi"
    define k where "k = (unat a - unat lo) div PGSIZE"
    have "(unat a - unat lo) mod PGSIZE = 0" using a lo(1) by (metis mod_0_imp_dvd dvd_diff_nat mod_eq_0_iff_dvd)
    then have k: "unat a = unat lo + k * PGSIZE" using a by (auto simp: k_def)
    have "(k * PGSIZE + PGSIZE) div PGSIZE \<le> ?n" using a k by (intro div_le_mono) linarith
    then have "k < ?n" by simp
    moreover have "a = ?f k" using u [OF \<open>k < ?n\<close>] k by (metis unsigned_word_eqI)
    ultimately show "a \<in> set (page_addrs lo hi)"
      unfolding page_addrs_def set_map set_upt image_iff Bex_def atLeastLessThan_iff by blast
  qed
qed

lemma allocuvm_loop_post:
  assumes "mem_ok s R free" "p \<in> R" "4 * length as \<le> length free" "distinct as"
    "\<forall>a \<in> set as. PGROUNDDOWN a = a \<and> user_va a \<and> uview s p a = None"
  shows "\<exists>s' k. allocuvm_loop as p oldsz newsz s = Some (newsz, s') \<and> k \<le> 4 * length as \<and> mem_ok s' R (drop k free) \<and> kframe s s'
    \<and> (\<forall>q \<in> R. \<forall>b. user_va b \<longrightarrow>
        uview s' q b = (if q = p \<and> PGROUNDDOWN b \<in> set as then Some (PTE_P OR PTE_W OR PTE_U, zero_page) else uview s q b))"
  using assms
proof (induction as arbitrary: s free)
  case Nil
  then show ?case by (intro exI [of _ s] exI [of _ 0]) simp
next
  case (Cons a as)
  have a: "PGROUNDDOWN a = a" "user_va a" "uview s p a = None" using Cons.prems by auto
  have w: "(PTE_W OR PTE_U) AND NOT 0xFFF = 0" "4 \<le> length free" "length zero_page = PGSIZE" using Cons.prems(3) by simp_all
  obtain n s1 s2 k where 1: "kalloc s = Some (n, s1)" "mappages p a 4096 (V2P n) (PTE_W OR PTE_U) (set_frame n zero_page s1) = Some (0, s2)"
      "k \<le> 4" "mem_ok s2 R (drop k free)" "kframe s s2"
      "\<forall>q \<in> R. \<forall>b. user_va b \<longrightarrow> uview s2 q b = (if q = p \<and> PGROUNDDOWN b = a then Some ((PTE_W OR PTE_U) OR PTE_P, zero_page) else uview s q b)"
    using map_fresh [OF Cons.prems(1,2) a(1,2) w(2) a(3) w(1,3)] by blast
  have pre: "4 * length as \<le> length (drop k free)" "distinct as" "\<forall>x \<in> set as. PGROUNDDOWN x = x \<and> user_va x \<and> uview s2 p x = None"
  proof -
    show "4 * length as \<le> length (drop k free)" "distinct as" using Cons.prems(3,4) 1(3) by simp_all
    show "\<forall>x \<in> set as. PGROUNDDOWN x = x \<and> user_va x \<and> uview s2 p x = None"
    proof
      fix x
      assume x: "x \<in> set as"
      then have "PGROUNDDOWN x = x" "user_va x" "uview s p x = None" "x \<noteq> a" using Cons.prems(4,5) by auto
      then show "PGROUNDDOWN x = x \<and> user_va x \<and> uview s2 p x = None" using 1(6) Cons.prems(2) by simp
    qed
  qed
  obtain s' j where 2: "allocuvm_loop as p oldsz newsz s2 = Some (newsz, s')" "j \<le> 4 * length as" "mem_ok s' R (drop j (drop k free))" "kframe s2 s'"
      "\<forall>q \<in> R. \<forall>b. user_va b \<longrightarrow>
        uview s' q b = (if q = p \<and> PGROUNDDOWN b \<in> set as then Some (PTE_P OR PTE_W OR PTE_U, zero_page) else uview s2 q b)"
    using Cons.IH [OF 1(4) Cons.prems(2) pre] by blast
  have fl: "(PTE_W OR PTE_U) OR PTE_P = PTE_P OR PTE_W OR PTE_U" by (simp add: or.commute or.left_commute)
  show ?case
  proof (intro exI conjI)
    show "mem_ok s' R (drop (j + k) free)" using 2(3) by simp
    show "kframe s s'" using kframe_trans [OF 1(5) 2(4)] .
    show "allocuvm_loop (a # as) p oldsz newsz s = Some (newsz, s')" using 1(1,2) 2(1) by (simp add: Let_def)
    show "\<forall>q \<in> R. \<forall>b. user_va b \<longrightarrow>
        uview s' q b = (if q = p \<and> PGROUNDDOWN b \<in> set (a # as) then Some (PTE_P OR PTE_W OR PTE_U, zero_page) else uview s q b)"
    proof (intro ballI allI impI)
      fix q b
      assume q: "q \<in> R" "user_va b"
      show "uview s' q b = (if q = p \<and> PGROUNDDOWN b \<in> set (a # as) then Some (PTE_P OR PTE_W OR PTE_U, zero_page) else uview s q b)"
        using 1(6) [rule_format, OF q] 2(5) [rule_format, OF q] fl by auto
    qed
  qed (use 1(3) 2(2) in simp)
qed

section \<open>Copying an address space\<close>

lemma setupkvm_post:
  assumes m: "mem_ok s R (n # free)"
  shows "\<exists>s'. setupkvm s = Some (n, s') \<and> mem_ok s' (insert n R) free \<and> kframe s s'
    \<and> (\<forall>q \<in> R. \<forall>b. user_va b \<longrightarrow> uview s' q b = uview s q b) \<and> (\<forall>b. user_va b \<longrightarrow> uview s' n b = None) \<and> n \<notin> R"
proof -
  obtain s1 where 1: "kalloc s = Some (n, s1)" "mem_ok s1 R free" "kframe s s1" "frames s1 = frames s" "usable s n"
      "n \<notin> pages (frames s) R" "n \<notin> set free" using mem_ok_kalloc [OF m] by blast
  let ?c = "blit (8 * 256) (le64 (V2P (kpdpt (set_frame n zero_page s1)) OR PTE_P OR PTE_W)) zero_page"
  let ?s = "set_frame n ?c s1"
  have n1: "n \<notin> pages (frames s1) R" using 1(4,6) by simp
  have len: "length ?c = PGSIZE" by simp
  note S = mem_ok_set_frame [OF 1(2) n1 1(7) len]
  note M = mem_okD [OF S(1)]
  have run: "setupkvm s = Some (n, ?s)"
    using 1(1) by (simp add: setupkvm_def set_pte_def set_frame_def Let_def)
  have z: "get64 (8 * i) ?c = 0" if "i < 256" for i
    using that by (subst get64_blit_other) (auto simp: get64_zero)
  have f: "frames ?s n = ?c" by simp
  have root: "tab (frames ?s) n ps = (if ps = [] then Some n else None)" if "upath ps" for ps
  proof (cases ps)
    case (Cons i qs)
    then have "i < 256" using that by (simp add: upath_def)
    then show ?thesis using z [of i] Cons f by (simp add: tab.simps)
  qed simp
  have nR: "n \<notin> R" using 1(6) roots_pages by blast
  have pg: "pages (frames ?s) (insert n R) = insert n (pages (frames ?s) R)"
    unfolding pages_def using root by (auto split: if_splits intro!: exI [of _ "[]"])
  have "forest (frames ?s) (insert n R)" unfolding forest_def
  proof (intro ballI allI impI)
    fix q r qs rs a
    assume q: "q \<in> insert n R" "r \<in> insert n R" "upath qs" "upath rs" "tab (frames ?s) q qs = Some a" "tab (frames ?s) r rs = Some a"
    have "a = n \<longleftrightarrow> q = n" if "q \<in> insert n R" "upath qs" "tab (frames ?s) q qs = Some a" for q qs
    proof (cases "q = n")
      case True
      then show ?thesis using root [OF that(2)] that(3) by (auto split: if_splits)
    next
      case False
      then show ?thesis using pagesI [of q R qs "frames ?s" a] that S(3) n1 by auto
    qed
    from this [OF q(1,3,5)] this [OF q(2,4,6)] have "q = n \<longleftrightarrow> r = n" by simp
    then show "q = r \<and> qs = rs"
      using q root [OF q(3)] root [OF q(4)] forestD [OF M(3) _ _ q(3,4)] by (cases "q = n") (auto split: if_splits)
  qed
  moreover have "usable ?s a \<and> a \<notin> set free" if "a \<in> pages (frames ?s) (insert n R)" for a
    using that M(4,5) 1(5,7) kframeD(1) [OF 1(3)] unfolding pg by auto
  ultimately have "mem_ok ?s (insert n R) free" using M(1,2) unfolding mem_ok_def by blast
  moreover have "uview ?s q b = uview s q b" if "q \<in> R" "user_va b" for q b
    using S(2) [OF that] 1(4) by (simp add: uview_def Let_def)
  moreover have "uview ?s n b = None" if "user_va b" for b
    using root [OF upath_path(1) [OF that]] unfolding uview_tab by simp
  ultimately show ?thesis using run 1(3) nR by blast
qed

lemma uview_walk:
  assumes "uview s p a = Some (fl, pg)"
  shows "\<exists>t. walkpgdir p a False s = Some (Some (t, PTX a), s) \<and> get_pte t (PTX a) s AND PTE_P \<noteq> 0
    \<and> PTE_FLAGS (get_pte t (PTX a) s) = fl \<and> frames s (P2V (PTE_ADDR (get_pte t (PTX a) s))) = pg
    \<and> tab (frames s) p (path a) = Some (P2V (PTE_ADDR (get_pte t (PTX a) s)))"
proof -
  have e: "entry (frames s) p (path a) AND PTE_P \<noteq> 0" "PTE_FLAGS (entry (frames s) p (path a)) = fl"
      "frames s (P2V (PTE_ADDR (entry (frames s) p (path a)))) = pg"
    using assms by (auto simp: uview_def Let_def split: if_splits)
  then obtain t where t: "tab (frames s) p [PMX a, PDPX a, PDX a] = Some t"
    by (cases "tab (frames s) p [PMX a, PDPX a, PDX a]") (auto simp: entry_def path_def)
  have "get_pte t (PTX a) s = entry (frames s) p (path a)" using get_pte_entry [OF t, of "PTX a"] by (simp add: path_def)
  then show ?thesis using e t by (simp add: walkpgdir_lookup tab_entry4)
qed

lemma copyuvm_loop_post:
  assumes "mem_ok s R free" "p \<in> R" "d \<in> R" "p \<noteq> d" "4 * length as \<le> length free" "distinct as"
    "\<forall>a \<in> set as. PGROUNDDOWN a = a \<and> user_va a \<and> uview s p a \<noteq> None \<and> uview s d a = None"
  shows "\<exists>s' k. copyuvm_loop as p d s = Some (True, s') \<and> k \<le> 4 * length as \<and> mem_ok s' R (drop k free) \<and> kframe s s'
    \<and> (\<forall>q \<in> R. \<forall>b. user_va b \<longrightarrow> uview s' q b = (if q = d \<and> PGROUNDDOWN b \<in> set as then uview s p b else uview s q b))"
  using assms
proof (induction as arbitrary: s free)
  case Nil
  then show ?case by (intro exI [of _ s] exI [of _ 0]) simp
next
  case (Cons a as)
  have a: "PGROUNDDOWN a = a" "user_va a" "uview s d a = None" using Cons.prems(7) by auto
  obtain fl pg where v: "uview s p a = Some (fl, pg)" using Cons.prems(7) by (auto simp: not_None_eq)
  obtain t where t: "walkpgdir p a False s = Some (Some (t, PTX a), s)" "get_pte t (PTX a) s AND PTE_P \<noteq> 0"
      "PTE_FLAGS (get_pte t (PTX a) s) = fl" "frames s (P2V (PTE_ADDR (get_pte t (PTX a) s))) = pg"
    using uview_walk [OF v] by blast
  have len: "length pg = PGSIZE" using t(4) mem_okD(2) [OF Cons.prems(1)] by auto
  have fl: "fl AND NOT 0xFFF = 0" "fl OR PTE_P = fl"
  proof -
    show "fl AND NOT 0xFFF = 0" unfolding t(3) [symmetric] PTE_FLAGS_def by (simp add: and.assoc)
    have "odd fl" unfolding t(3) [symmetric] PTE_FLAGS_def using t(2) by (simp add: and_one_eq mod_2_eq_odd even_and_iff split: if_splits)
    then show "fl OR PTE_P = fl" by (simp add: or_one_eq)
  qed
  have four: "4 \<le> length free" using Cons.prems(5) by simp
  obtain n s1 s2 k where 1: "kalloc s = Some (n, s1)" "frames s1 = frames s" "mappages d a 4096 (V2P n) fl (set_frame n pg s1) = Some (0, s2)"
      "k \<le> 4" "mem_ok s2 R (drop k free)" "kframe s s2"
      "\<forall>q \<in> R. \<forall>b. user_va b \<longrightarrow> uview s2 q b = (if q = d \<and> PGROUNDDOWN b = a then Some (fl OR PTE_P, pg) else uview s q b)"
    using map_fresh [OF Cons.prems(1,3) a(1,2) four a(3) fl(1) len] by blast
  have pre: "4 * length as \<le> length (drop k free)" "distinct as"
    "\<forall>x \<in> set as. PGROUNDDOWN x = x \<and> user_va x \<and> uview s2 p x \<noteq> None \<and> uview s2 d x = None"
  proof -
    show "4 * length as \<le> length (drop k free)" "distinct as" using Cons.prems(5,6) 1(4) by simp_all
    show "\<forall>x \<in> set as. PGROUNDDOWN x = x \<and> user_va x \<and> uview s2 p x \<noteq> None \<and> uview s2 d x = None"
    proof
      fix x
      assume x: "x \<in> set as"
      then have h: "PGROUNDDOWN x = x" "user_va x" "uview s p x \<noteq> None" "uview s d x = None" "x \<noteq> a" using Cons.prems(6,7) by auto
      then show "PGROUNDDOWN x = x \<and> user_va x \<and> uview s2 p x \<noteq> None \<and> uview s2 d x = None"
        using 1(7) [rule_format, OF Cons.prems(2) h(2)] 1(7) [rule_format, OF Cons.prems(3) h(2)] Cons.prems(4) by simp
    qed
  qed
  obtain s' j where 2: "copyuvm_loop as p d s2 = Some (True, s')" "j \<le> 4 * length as" "mem_ok s' R (drop j (drop k free))" "kframe s2 s'"
      "\<forall>q \<in> R. \<forall>b. user_va b \<longrightarrow> uview s' q b = (if q = d \<and> PGROUNDDOWN b \<in> set as then uview s2 p b else uview s2 q b)"
    using Cons.IH [OF 1(5) Cons.prems(2,3,4) pre] by blast
  show ?case
  proof (intro exI conjI)
    show "mem_ok s' R (drop (j + k) free)" using 2(3) by simp
    show "kframe s s'" using kframe_trans [OF 1(6) 2(4)] .
    show "copyuvm_loop (a # as) p d s = Some (True, s')" using t 1(1,2,3) 2(1) by (simp add: Let_def)
    show "\<forall>q \<in> R. \<forall>b. user_va b \<longrightarrow> uview s' q b = (if q = d \<and> PGROUNDDOWN b \<in> set (a # as) then uview s p b else uview s q b)"
    proof (intro ballI allI impI)
      fix q b
      assume q: "q \<in> R" "user_va b"
      have "uview s p b = Some (fl, pg)" if "PGROUNDDOWN b = a" using uview_page [of b a s p] that a(1) v by simp
      then show "uview s' q b = (if q = d \<and> PGROUNDDOWN b \<in> set (a # as) then uview s p b else uview s q b)"
        using 1(7) [rule_format, OF q] 1(7) [rule_format, OF Cons.prems(2) q(2)] 2(5) [rule_format, OF q] fl(2) Cons.prems(4) by auto
    qed
  qed (use 1(4) 2(2) in simp)
qed

end
