(* ===== verification/Xv6_CopyMem.thy ===== *)
theory Xv6_CopyMem
  imports Xv6_UserMem
begin

text \<open>
  Copying between kernel and user memory, \<^verbatim>\<open>copyout\<close> and \<^verbatim>\<open>copyin\<close> of \<^verbatim>\<open>vm.c\<close>, against the bytes of user memory, and the
  properties of address spaces.
\<close>

section \<open>The bytes of user memory\<close>

definition umem :: "'a kmst_scheme \<Rightarrow> u64 \<Rightarrow> u64 \<Rightarrow> byte option" where
  "umem s p va =
     (case uview s p va of
        None \<Rightarrow> None
      | Some (fl, pg) \<Rightarrow> if fl AND PTE_U = 0 then None else Some (pg ! (unat va mod PGSIZE)))"

lemma uva2ka_view:
  assumes "uview s p va = Some (fl, pg)" "fl AND PTE_U \<noteq> 0"
  shows "\<exists>a. uva2ka p (PGROUNDDOWN va) s = Some (Some a) \<and> tab (frames s) p (path va) = Some a \<and> frames s a = pg"
proof -
  let ?v = "PGROUNDDOWN va"
  have "PGROUNDDOWN ?v = ?v" by (simp add: aligned_page unat_PGROUNDDOWN)
  then have v: "uview s p ?v = Some (fl, pg)" using uview_page [of ?v va s p] assms(1) by simp
  obtain t where t: "walkpgdir p ?v False s = Some (Some (t, PTX ?v), s)" "get_pte t (PTX ?v) s AND PTE_P \<noteq> 0"
      "PTE_FLAGS (get_pte t (PTX ?v) s) = fl" "frames s (P2V (PTE_ADDR (get_pte t (PTX ?v) s))) = pg"
      "tab (frames s) p (path ?v) = Some (P2V (PTE_ADDR (get_pte t (PTX ?v) s)))"
    using uview_walk [OF v] by blast
  have "get_pte t (PTX ?v) s AND PTE_U \<noteq> 0" using assms(2) unfolding t(3) [symmetric] PTE_FLAGS_def by (simp add: and.assoc)
  then show ?thesis using t by (simp add: uva2ka_def path_page Let_def)
qed

text \<open>Writing to a page of user memory.\<close>

lemma leaf_write:
  assumes m: "mem_ok s R free" and p: "p \<in> R" and va: "user_va va" and t: "tab (frames s) p (path va) = Some a" and c: "length c = PGSIZE"
  shows "mem_ok (set_frame a c s) R free"
    "q \<in> R \<Longrightarrow> user_va b \<Longrightarrow> uview (set_frame a c s) q b =
      (if q = p \<and> PGROUNDDOWN b = PGROUNDDOWN va then map_option (\<lambda>(fl, _). (fl, c)) (uview s p va) else uview s q b)"
proof -
  note M = mem_okD [OF m] and u = upath_path(1) [OF va]
  have ap: "a \<in> pages (frames s) R" by (rule pagesI [OF p u t])
  let ?g = "(frames s)(a := c)"
  have tab: "tab ?g q qs = tab (frames s) q qs" if "q \<in> R" "upath qs" for q qs
    using that(2)
  proof (induction qs rule: rev_induct)
    case (snoc i qs)
    then have qs: "upath qs" "length qs < 4" using upath_append by (auto simp: upath_def)
    have "x \<noteq> a" if "tab (frames s) q qs = Some x" for x
      using forestD [OF M(3) \<open>q \<in> R\<close> p qs(1) u that] t qs(2) by (auto simp: path_def)
    then show ?case using snoc.IH [OF qs(1)] by (auto simp: tab_step split: option.split)
  qed simp
  have ent: "entry ?g q qs = entry (frames s) q qs" if q: "q \<in> R" "upath qs" "length qs = 4" for q qs
  proof -
    obtain rs i where rs: "qs = rs @ [i]" using q(3) by (cases qs rule: rev_cases) auto
    have r: "upath rs" "length rs < 4" using q rs upath_append by auto
    have "x \<noteq> a" if "tab (frames s) q rs = Some x" for x
      using forestD [OF M(3) \<open>q \<in> R\<close> p r(1) u that] t r(2) by (auto simp: path_def)
    then show ?thesis unfolding rs entry_snoc using tab [OF q(1) r(1)] by (auto split: option.split)
  qed
  have pg: "pages ?g R = pages (frames s) R" unfolding pages_def by (intro Collect_cong bex_cong refl iff_exI) (auto simp: tab)
  have "forest ?g R" using M(3) tab unfolding forest_def by simp
  then show "mem_ok (set_frame a c s) R free"
    using M c set_frame_free [OF M(1) M(5) [OF ap]] unfolding mem_ok_def frames_set_frame pg by auto
  show "uview (set_frame a c s) q b =
      (if q = p \<and> PGROUNDDOWN b = PGROUNDDOWN va then map_option (\<lambda>(fl, _). (fl, c)) (uview s p va) else uview s q b)"
    if q: "q \<in> R" "user_va b"
  proof (cases "q = p \<and> PGROUNDDOWN b = PGROUNDDOWN va")
    case True
    then have "path b = path va" using path_eq_iff [OF q(2) va] by simp
    then show ?thesis using True t tab [OF p u] ent [OF p u] by (simp add: uview_tab)
  next
    case False
    then have "x \<noteq> a" if "tab (frames s) q (path b) = Some x" for x
      using forestD [OF M(3) q(1) p upath_path(1) [OF q(2)] u that] t path_eq_iff [OF q(2) va] by auto
    then show ?thesis using False tab [OF q(1) upath_path(1) [OF q(2)]] ent [OF q(1) upath_path(1) [OF q(2)]]
      by (cases "tab (frames s) q (path b)") (auto simp: uview_tab)
  qed
qed

lemma page_split: "PGROUNDDOWN b = PGROUNDDOWN va \<longleftrightarrow> unat b div PGSIZE = unat va div PGSIZE"
  using unat_PGROUNDDOWN [of b] unat_PGROUNDDOWN [of va] by (metis mult_right_cancel unsigned_word_eqI zero_neq_numeral)

lemma unat_offset: "unat (va - PGROUNDDOWN va) = unat va mod PGSIZE"
proof -
  have "PGROUNDDOWN va \<le> va" by (simp add: word_le_nat_alt unat_PGROUNDDOWN)
  then show ?thesis by (simp add: unat_sub unat_PGROUNDDOWN minus_div_mult_eq_mod)
qed

section \<open>Copying out\<close>

lemma copyout_post:
  assumes "mem_ok s R free" "p \<in> R" "unat va + length buf \<le> 2 ^ 47"
    "\<And>b. unat va \<le> unat b \<Longrightarrow> unat b < unat va + length buf \<Longrightarrow> umem s p b \<noteq> None"
  shows "\<exists>s'. copyout p va buf s = Some (0, s') \<and> mem_ok s' R free \<and> kframe s s'
    \<and> (\<forall>q \<in> R. \<forall>b. user_va b \<longrightarrow> umem s' q b =
        (if q = p \<and> unat va \<le> unat b \<and> unat b < unat va + length buf then Some (buf ! (unat b - unat va)) else umem s q b))"
  using assms
proof (induction "length buf" arbitrary: va buf s rule: less_induct)
  case less
  show ?case
  proof (cases "buf = []")
    case True
    then show ?thesis using less.prems by (intro exI [of _ s]) (auto simp: copyout.simps)
  next
    case ne: False
    define off where "off = unat va mod PGSIZE"
    define n where "n = min (PGSIZE - off) (length buf)"
    have n: "0 < n" "n \<le> length buf" "off + n \<le> PGSIZE" using ne by (auto simp: n_def off_def)
    have "unat va < 2 ^ 47" using less.prems(3) n(1,2) by linarith
    then have va: "user_va va" by (simp add: user_va_def word_less_nat_alt)
    have "umem s p va \<noteq> None" using less.prems(4) [of va] ne by simp
    then obtain fl pg where v: "uview s p va = Some (fl, pg)" "fl AND PTE_U \<noteq> 0"
      by (auto simp: umem_def split: option.splits if_splits)
    obtain a where a: "uva2ka p (PGROUNDDOWN va) s = Some (Some a)" "tab (frames s) p (path va) = Some a" "frames s a = pg"
      using uva2ka_view [OF v] by blast
    let ?c = "blit off (take n buf) pg"
    have lp: "length pg = PGSIZE" using mem_okD(2) [OF less.prems(1), of a] a(3) by simp
    have lc: "length ?c = PGSIZE" using n lp by (subst length_blit) auto
    let ?s = "set_frame a ?c s"
    note W = leaf_write [OF less.prems(1,2) va a(2) lc]
    have nth: "?c ! i = (if off \<le> i \<and> i < off + n then buf ! (i - off) else pg ! i)" if "i < PGSIZE" for i
      using that n lp by (subst nth_blit) auto
    have u: "umem ?s q b = (if q = p \<and> unat va \<le> unat b \<and> unat b < unat va + n then Some (buf ! (unat b - unat va)) else umem s q b)"
      if q: "q \<in> R" "user_va b" for q b
    proof (cases "q = p \<and> PGROUNDDOWN b = PGROUNDDOWN va")
      case True
      then have d: "unat b div PGSIZE = unat va div PGSIZE" by (simp add: page_split)
      have v': "uview s p b = Some (fl, pg)" using True v(1) uview_page by metis
      have o: "unat b = unat va div PGSIZE * PGSIZE + unat b mod PGSIZE" "unat va = unat va div PGSIZE * PGSIZE + off"
        unfolding off_def using d by (metis div_mult_mod_eq)+
      then have "unat va \<le> unat b \<and> unat b < unat va + n \<longleftrightarrow> off \<le> unat b mod PGSIZE \<and> unat b mod PGSIZE < off + n"
        "unat va \<le> unat b \<Longrightarrow> unat b - unat va = unat b mod PGSIZE - off" by linarith+
      then show ?thesis using True W(2) [OF q] v v' nth [of "unat b mod PGSIZE"] by (auto simp: umem_def)
    next
      case False
      have "\<not> (q = p \<and> unat va \<le> unat b \<and> unat b < unat va + n)"
      proof
        assume h: "q = p \<and> unat va \<le> unat b \<and> unat b < unat va + n"
        have "unat va div PGSIZE \<le> unat b div PGSIZE" using h by (intro div_le_mono) simp
        moreover have "unat b < (unat va div PGSIZE + 1) * PGSIZE" using h n(3) div_mult_mod_eq [of "unat va" PGSIZE] unfolding off_def distrib_right by linarith
        then have "unat b div PGSIZE < unat va div PGSIZE + 1" by (rule less_mult_imp_div_less)
        ultimately show False using False h by (simp add: page_split)
      qed
      then show ?thesis using False W(2) [OF q] by (simp only: umem_def if_False)
    qed
    have run: "copyout p va buf s = copyout p (PGROUNDDOWN va + 4096) (drop n buf) ?s"
      using ne a unat_offset [of va] by (subst copyout.simps) (simp add: Let_def n_def off_def)
    show ?thesis
    proof (cases "n = length buf")
      case True
      then have "copyout p va buf s = Some (0, ?s)" unfolding run by (simp add: copyout.simps)
      then show ?thesis using W(1) u True by (intro exI [of _ ?s]) simp
    next
      case False
      then have nn: "n = PGSIZE - off" by (auto simp: n_def)
      have "unat (PGROUNDDOWN va) + 4096 = unat va + n"
        unfolding unat_PGROUNDDOWN nn off_def using div_mult_mod_eq [of "unat va" PGSIZE] mod_less_divisor [of PGSIZE "unat va"] by linarith
      moreover have "unat va + n < 2 ^ 64" using less.prems(3) n(2) by simp
      ultimately have next_va: "unat (PGROUNDDOWN va + 4096) = unat va + n" by (subst unat_plus_if') simp
      have "\<exists>s'. copyout p (PGROUNDDOWN va + 4096) (drop n buf) ?s = Some (0, s') \<and> mem_ok s' R free \<and> kframe ?s s'
        \<and> (\<forall>q \<in> R. \<forall>b. user_va b \<longrightarrow> umem s' q b =
          (if q = p \<and> unat (PGROUNDDOWN va + 4096) \<le> unat b \<and> unat b < unat (PGROUNDDOWN va + 4096) + length (drop n buf)
           then Some (drop n buf ! (unat b - unat (PGROUNDDOWN va + 4096))) else umem ?s q b))"
      proof (rule less.hyps [OF _ W(1) less.prems(2)])
        show "length (drop n buf) < length buf" using n by simp
        show "unat (PGROUNDDOWN va + 4096) + length (drop n buf) \<le> 2 ^ 47" using next_va less.prems(3) n(2) by simp
        fix b :: u64
        assume b: "unat (PGROUNDDOWN va + 4096) \<le> unat b" "unat b < unat (PGROUNDDOWN va + 4096) + length (drop n buf)"
        then have "user_va b" using next_va less.prems(3) n(2) by (simp add: user_va_def word_less_nat_alt)
        then show "umem ?s p b \<noteq> None" using u [OF less.prems(2)] less.prems(4) [of b] b next_va n(2) by simp
      qed
      then obtain s' where s': "copyout p (PGROUNDDOWN va + 4096) (drop n buf) ?s = Some (0, s')" "mem_ok s' R free" "kframe ?s s'"
        "\<forall>q \<in> R. \<forall>b. user_va b \<longrightarrow> umem s' q b = (if q = p \<and> unat va + n \<le> unat b \<and> unat b < unat va + length buf
           then Some (buf ! (unat b - unat va)) else umem ?s q b)"
        using next_va n(2) by auto
      show ?thesis
      proof (intro exI conjI)
        show "copyout p va buf s = Some (0, s')" using run s'(1) by simp
        show "kframe s s'" using s'(3) kframe_trans [of s ?s s'] by simp
        show "\<forall>q \<in> R. \<forall>b. user_va b \<longrightarrow> umem s' q b =
          (if q = p \<and> unat va \<le> unat b \<and> unat b < unat va + length buf then Some (buf ! (unat b - unat va)) else umem s q b)"
          using s'(4) u n(2) by auto
      qed (rule s'(2))
    qed
  qed
qed

section \<open>Copying in\<close>

lemma kbyte_page:
  assumes "usable s a" "off < PGSIZE"
  shows "kbyte (a + of_nat off) s = Some (frames s a ! off)"
proof -
  have v: "unat (V2P a) < 0xE000000" using assms(1) by (simp add: usable_def word_less_nat_alt)
  have o: "unat (of_nat off :: u64) = off" using assms(2) by (simp add: unat_of_nat take_bit_nat_eq_self)
  have a: "a = V2P a + KERNBASE" by (simp add: V2P_def)
  then have ua: "unat a = unat (V2P a) + 0xFFFF800000000000" using v by (subst a) (subst unat_plus_if', simp)
  then have u: "unat (a + of_nat off) = unat a + off" using v o assms(2) by (subst unat_plus_if') simp
  have al: "unat a mod PGSIZE = 0" using assms(1) by (simp add: usable_def word_unat_eq_iff unat_mod)
  then have "(unat a + off) div PGSIZE * PGSIZE = unat a" using assms(2) by auto
  then have "unat (PGROUNDDOWN (a + of_nat off)) = unat a" by (simp add: unat_PGROUNDDOWN u)
  then have pg: "PGROUNDDOWN (a + of_nat off) = a" by (rule unsigned_word_eqI)
  have "unat ((a + of_nat off) AND 4095) = off"
    using page_offset [of "a + of_nat off"] unat_offset [of "a + of_nat off"] u al assms(2) by (simp add: mod_add_left_eq [of "unat a", symmetric])
  moreover have "kmapped (a + of_nat off)"
  proof -
    have "V2P (a + of_nat off) = V2P a + of_nat off" by (simp add: V2P_def)
    then have "unat (V2P (a + of_nat off)) = unat (V2P a) + off" using v o assms(2) by (simp add: unat_plus_if')
    then show ?thesis using v assms(2) by (simp add: kmapped_def word_less_nat_alt)
  qed
  ultimately show ?thesis using pg by (simp add: kbyte_def)
qed

lemma kbytes_page:
  assumes "usable s a" "length (frames s a) = PGSIZE"
  shows "off + n \<le> PGSIZE \<Longrightarrow> kbytes (a + of_nat off) n s = Some (cut off n (frames s a))"
proof (induction n arbitrary: off)
  case 0
  then show ?case by (simp add: cut_def)
next
  case (Suc n)
  have "kbytes (a + of_nat (Suc off)) n s = Some (cut (Suc off) n (frames s a))" using Suc by (intro Suc.IH) simp
  then have "kbytes (a + of_nat off + 1) n s = Some (cut (Suc off) n (frames s a))" by (simp add: algebra_simps)
  moreover have "cut off (Suc n) (frames s a) = frames s a ! off # cut (Suc off) n (frames s a)"
    using Suc.prems assms(2) by (simp add: cut_def Cons_nth_drop_Suc [symmetric])
  ultimately show ?case using kbyte_page [OF assms(1), of off] Suc.prems by simp
qed

lemma copyin_low:
  assumes "unat va < 2 ^ 32"
  shows "copyin_page va = PGROUNDDOWN va" "copyin_count va len = min (PGSIZE - unat va mod PGSIZE) len"
proof -
  have "unat (PGROUNDDOWN va) < 2 ^ 32" using assms by (simp add: unat_PGROUNDDOWN)
  then have "unat (copyin_page va) = unat (PGROUNDDOWN va)"
    by (simp add: copyin_page_def unsigned_ucast_eq unsigned_take_bit_eq take_bit_nat_eq_self)
  then show p: "copyin_page va = PGROUNDDOWN va" by (rule unsigned_word_eqI)
  have "va - PGROUNDDOWN va \<le> 4096" using unat_offset [of va] by (simp add: word_le_nat_alt)
  then show "copyin_count va len = min (PGSIZE - unat va mod PGSIZE) len"
    using unat_sub [of "va - PGROUNDDOWN va" 4096] unat_offset [of va] by (simp add: copyin_count_def p)
qed

lemma copyin_post:
  assumes m: "mem_ok s R free" "p \<in> R"
  shows "unat va + len \<le> 2 ^ 32 \<Longrightarrow> length bs = len \<Longrightarrow>
    (\<And>b. unat va \<le> unat b \<Longrightarrow> unat b < unat va + len \<Longrightarrow> umem s p b = Some (bs ! (unat b - unat va))) \<Longrightarrow>
    copyin p va len s = Some (Some bs)"
proof (induction len arbitrary: va bs rule: less_induct)
  case (less len)
  show ?case
  proof (cases "len = 0")
    case True
    then show ?thesis using less.prems by (simp add: copyin.simps)
  next
    case ne: False
    define off where "off = unat va mod PGSIZE"
    define n where "n = min (PGSIZE - off) len"
    have n: "0 < n" "n \<le> len" "off + n \<le> PGSIZE" using ne by (auto simp: n_def off_def)
    have lt: "unat va < 2 ^ 32" using less.prems(1) ne by linarith
    have va: "user_va va" using lt by (simp add: user_va_def word_less_nat_alt)
    note low = copyin_low [OF lt]
    have "umem s p va \<noteq> None" using less.prems(3) [of va] ne by simp
    then obtain fl pg where v: "uview s p va = Some (fl, pg)" "fl AND PTE_U \<noteq> 0"
      by (auto simp: umem_def split: option.splits if_splits)
    obtain a where a: "uva2ka p (PGROUNDDOWN va) s = Some (Some a)" "tab (frames s) p (path va) = Some a" "frames s a = pg"
      using uva2ka_view [OF v] by blast
    have us: "usable s a" using mem_okD(4) [OF m(1)] pagesI [OF m(2) upath_path(1) [OF va] a(2)] by simp
    have lp: "length pg = PGSIZE" using mem_okD(2) [OF m(1), of a] a(3) by simp
    have o: "va - PGROUNDDOWN va = of_nat off" using unat_offset [of va] by (simp add: off_def word_unat_eq_iff unat_of_nat take_bit_nat_eq_self)
    have k: "kbytes (a + (va - PGROUNDDOWN va)) n s = Some (take n bs)"
    proof -
      have "cut off n pg = take n bs"
      proof (rule nth_equalityI)
        show "length (cut off n pg) = length (take n bs)" using n lp less.prems(2) by (simp add: cut_def)
        fix i
        assume "i < length (cut off n pg)"
        then have i: "i < n" by (simp add: cut_def)
        let ?b = "va + of_nat i"
        have ub: "unat ?b = unat va + i" using i n(2) less.prems(1) lt by (subst unat_plus_if') (simp add: unat_of_nat take_bit_nat_eq_self)
        have e: "unat ?b = unat va div PGSIZE * PGSIZE + (off + i)" unfolding off_def ub by (metis add.assoc div_mult_mod_eq)
        have d: "unat ?b div PGSIZE = unat va div PGSIZE" "unat ?b mod PGSIZE = off + i" unfolding e using i n(3) by simp_all
        then have "uview s p ?b = Some (fl, pg)" using v(1) uview_page [of ?b va s p] by (simp add: page_split)
        then have "umem s p ?b = Some (pg ! (off + i))" using v(2) d(2) by (simp add: umem_def)
        moreover have "umem s p ?b = Some (bs ! i)" using less.prems(3) [of ?b] ub i n(2) by simp
        ultimately show "cut off n pg ! i = take n bs ! i" using i n lp by (simp add: nth_cut)
      qed
      then show ?thesis using kbytes_page [OF us, of off n] lp a(3) n(3) o by simp
    qed
    have uv: "unat (va + of_nat n) = unat va + n" using n(2) less.prems(1) by (subst unat_plus_if') (simp add: unat_of_nat take_bit_nat_eq_self)
    have "copyin p (va + of_nat n) (len - n) s = Some (Some (drop n bs))"
    proof (rule less.IH)
      fix b :: u64
      assume "unat (va + of_nat n) \<le> unat b" "unat b < unat (va + of_nat n) + (len - n)"
      then show "umem s p b = Some (drop n bs ! (unat b - unat (va + of_nat n)))"
        using less.prems(2,3) n(2) uv by simp
    qed (use n less.prems uv in auto)
    then show ?thesis
      using ne a(1) k low unfolding n_def off_def by (subst copyin.simps) (simp add: Let_def)
  qed
qed

end
