(* ===== verification/Xv6_AddrSpace.thy ===== *)
theory Xv6_AddrSpace
  imports Xv6_CopyMem
begin

text \<open>
  Address spaces as a whole: growing one (\<^verbatim>\<open>allocuvm\<close>), copying one (\<^verbatim>\<open>copyuvm\<close>, for \<^verbatim>\<open>fork\<close>), copying bytes in and out of
  one, and giving one back (\<^verbatim>\<open>freevm\<close>). All of them keep \<open>mem_ok\<close>: the page tables of the roots \<open>R\<close> are trees
  that share no page, and no page of theirs is free.
\<close>

section \<open>Ranges of pages\<close>

lemma page_addrs_in:
  assumes "unat lo mod PGSIZE = 0"
  shows "a \<in> set (page_addrs lo hi) \<longleftrightarrow> unat a mod PGSIZE = 0 \<and> unat lo \<le> unat a \<and> unat a < unat hi" "distinct (page_addrs lo hi)"
proof -
  have "page_addrs lo hi = []" if "\<not> unat lo \<le> unat hi" using that by (simp add: page_addrs_def)
  then show "a \<in> set (page_addrs lo hi) \<longleftrightarrow> unat a mod PGSIZE = 0 \<and> unat lo \<le> unat a \<and> unat a < unat hi" "distinct (page_addrs lo hi)"
    using page_addrs_set [OF assms, of hi] by (cases "unat lo \<le> unat hi"; simp)+
qed

lemma page_addrs_down:
  assumes "unat lo mod PGSIZE = 0"
  shows "PGROUNDDOWN b \<in> set (page_addrs lo hi) \<longleftrightarrow> lo \<le> b \<and> PGROUNDDOWN b < hi"
proof -
  have "unat lo \<le> unat b div PGSIZE * PGSIZE \<longleftrightarrow> unat lo \<le> unat b"
  proof
    assume "unat lo \<le> unat b"
    then have "unat lo div PGSIZE * PGSIZE \<le> unat b div PGSIZE * PGSIZE" by (intro mult_le_mono1 div_le_mono)
    then show "unat lo \<le> unat b div PGSIZE * PGSIZE" using assms by (simp add: mod_0_imp_dvd)
  next
    assume "unat lo \<le> unat b div PGSIZE * PGSIZE"
    then show "unat lo \<le> unat b" using div_times_less_eq_dividend [of "unat b" PGSIZE] by linarith
  qed
  then show ?thesis
    unfolding page_addrs_in(1) [OF assms] by (simp add: unat_PGROUNDDOWN word_le_nat_alt word_less_nat_alt)
qed

lemma PGROUNDUP_aligned: "unat (PGROUNDUP a) mod PGSIZE = 0"
  using unat_PGROUNDDOWN [of "a + 4095"] by (simp add: PGROUNDUP_def PGROUNDDOWN_def)

section \<open>An address space to start from\<close>

lemma pages_empty [simp]: "pages f {} = {}"
  by (simp add: pages_def)

lemma kinit1_boot: "\<exists>s free. kinit1 (k_end km_boot) (P2V PHYSTOP) km_boot = Some s \<and> mem_ok s {} free \<and> 18 \<le> length free"
proof -
  have k: "KERNBASE \<le> k_end km_boot" "k_end km_boot \<le> KERNBASE + PHYSTOP" "\<forall>v. length (frames km_boot v) = PGSIZE"
    by (simp_all add: km_boot_def fsst.defs)
  obtain s free where s: "kinit1 (k_end km_boot) (P2V PHYSTOP) km_boot = Some s" "free_list s free" "set free = {v. usable km_boot v}"
      "\<forall>v. length (frames s v) = PGSIZE"
    using kinit1_post [OF k(1,2)] k(3) by auto
  let ?f = "\<lambda>i. k_end km_boot + word_of_nat (i * PGSIZE)"
  let ?vs = "map ?f [0..<18]"
  have e: "unat (k_end km_boot) = 0xFFFF800000200000" by (simp add: km_boot_def fsst.defs)
  have u: "unat (?f i) = 0xFFFF800000200000 + i * PGSIZE" if "i < 18" for i
    using page_range [of "k_end km_boot" i] that unfolding e by simp
  have "distinct ?vs" unfolding distinct_map
    using u by (auto intro!: inj_onI) (metis add_left_cancel mult_right_cancel zero_neq_numeral)
  moreover have "usable km_boot (?f i)" if "i < 18" for i
    unfolding usable_unat [OF k(1)] u [OF that] e using that by (simp add: P2V_def)
  ultimately have v: "distinct ?vs" "set ?vs \<subseteq> set free" unfolding s(3) by auto
  have "length ?vs = card (set ?vs)" using v(1) by (rule distinct_card [symmetric])
  also have "\<dots> \<le> card (set free)" using v(2) by (intro card_mono) auto
  also have "\<dots> \<le> length free" by (rule card_length)
  finally show ?thesis using s by (intro exI [of _ s] exI [of _ free]) (simp add: mem_ok_def forest_def)
qed

lemma sample_root:
  "\<exists>s0 p s1 free. kinit1 (k_end km_boot) (P2V PHYSTOP) km_boot = Some s0 \<and> setupkvm s0 = Some (p, s1) \<and> mem_ok s1 {p} free
     \<and> 17 \<le> length free \<and> (\<forall>b. user_va b \<longrightarrow> uview s1 p b = None)"
proof -
  obtain s0 free where s0: "kinit1 (k_end km_boot) (P2V PHYSTOP) km_boot = Some s0" "mem_ok s0 {} free" "18 \<le> length free"
    using kinit1_boot by blast
  then obtain p fr where f: "free = p # fr" by (cases free) auto
  obtain s1 where "setupkvm s0 = Some (p, s1)" "mem_ok s1 {p} fr" "\<forall>b. user_va b \<longrightarrow> uview s1 p b = None"
    using setupkvm_post [of s0 "{}" p fr] s0(2) f by auto
  then show ?thesis using s0(1,3) f by auto
qed

lemma sample_space:
  "\<exists>s0 p s1 s free. kinit1 (k_end km_boot) (P2V PHYSTOP) km_boot = Some s0 \<and> setupkvm s0 = Some (p, s1)
     \<and> allocuvm p 4096 12288 s1 = Some (12288, s) \<and> mem_ok s {p} free \<and> 9 \<le> length free
     \<and> (\<forall>b. 4096 \<le> b \<and> b < 12288 \<longrightarrow> uview s p b = Some (PTE_P OR PTE_W OR PTE_U, zero_page))"
proof -
  obtain s0 p s1 free where s1: "kinit1 (k_end km_boot) (P2V PHYSTOP) km_boot = Some s0" "setupkvm s0 = Some (p, s1)" "mem_ok s1 {p} free"
      "17 \<le> length free" "\<forall>b. user_va b \<longrightarrow> uview s1 p b = None" using sample_root by blast
  have up: "PGROUNDUP 4096 = 4096" by (simp add: PGROUNDUP_def)
  have as: "page_addrs (PGROUNDUP 4096) 12288 = [4096, 8192]" by (simp add: page_addrs_def up upt_rec)
  have pre: "\<forall>a \<in> set [4096, 8192]. PGROUNDDOWN a = a \<and> user_va a \<and> uview s1 p a = None"
    using s1(5) by (auto simp: PGROUNDDOWN_def user_va_def)
  have "4 * length [4096, 8192 :: u64] \<le> length free" "distinct [4096, 8192 :: u64]" using s1(4) by simp_all
  then obtain s k where s: "allocuvm_loop [4096, 8192] p 4096 12288 s1 = Some (12288, s)" "k \<le> 8" "mem_ok s {p} (drop k free)"
      "\<forall>b. user_va b \<longrightarrow> uview s p b = (if PGROUNDDOWN b \<in> set [4096, 8192] then Some (PTE_P OR PTE_W OR PTE_U, zero_page) else uview s1 p b)"
    using allocuvm_loop_post [OF s1(3) _ _ _ pre, of 4096 12288] by auto
  have "allocuvm p 4096 12288 s1 = Some (12288, s)" using s(1) as by (simp add: allocuvm_def)
  moreover have "uview s p b = Some (PTE_P OR PTE_W OR PTE_U, zero_page)" if "4096 \<le> b" "b < 12288" for b
  proof -
    have lo: "unat (4096 :: u64) mod PGSIZE = 0" by simp
    have "unat b div PGSIZE * PGSIZE \<le> unat b" by simp
    moreover have "unat b < 12288" using that(2) by (simp add: word_less_nat_alt)
    ultimately have "unat (PGROUNDDOWN b) < 12288" unfolding unat_PGROUNDDOWN by linarith
    then have "PGROUNDDOWN b < 12288" by (simp add: word_less_nat_alt)
    then have "PGROUNDDOWN b \<in> set (page_addrs 4096 12288)" using page_addrs_down [OF lo, of b 12288] that(1) by blast
    then have "PGROUNDDOWN b \<in> set [4096, 8192]" unfolding as [unfolded up] .
    moreover have "user_va b" using that(2) unfolding user_va_def by (rule order.strict_trans) simp
    ultimately show ?thesis using s(4) by (simp only: if_True)
  qed
  moreover have "9 \<le> length (drop k free)" using s1(4) s(2) by simp
  ultimately show ?thesis using s1(1,2) s(3) by blast
qed

section \<open>Growing and copying\<close>

text \<open>C25. \<^verbatim>\<open>allocuvm\<close> grows an address space: with enough free pages it returns the new size, the pages between the two
  sizes are then mapped, writable, accessible to the user and zero, every other page of this and of every other address space is as it
  was, and the page tables are still disjoint trees that own no free page.\<close>

theorem allocuvm_correct:
  assumes "mem_ok s R free" "p \<in> R" "oldsz \<le> newsz" "newsz \<le> 0x800000000000"
    "4 * length (page_addrs (PGROUNDUP oldsz) newsz) \<le> length free"
    "\<forall>b. PGROUNDUP oldsz \<le> b \<and> b < newsz \<longrightarrow> uview s p b = None"
  shows "\<exists>s' free'. allocuvm p oldsz newsz s = Some (newsz, s') \<and> mem_ok s' R free' \<and> set free' \<subseteq> set free
    \<and> (\<forall>q \<in> R. \<forall>b. user_va b \<longrightarrow> uview s' q b =
        (if q = p \<and> PGROUNDUP oldsz \<le> b \<and> PGROUNDDOWN b < newsz then Some (PTE_P OR PTE_W OR PTE_U, zero_page) else uview s q b))"
proof -
  let ?as = "page_addrs (PGROUNDUP oldsz) newsz"
  note in_as = page_addrs_in [OF PGROUNDUP_aligned [of oldsz], where hi = newsz]
  have "PGROUNDDOWN a = a \<and> user_va a \<and> uview s p a = None" if "a \<in> set ?as" for a
  proof -
    have "a < newsz" "PGROUNDUP oldsz \<le> a" using that by (auto simp: in_as word_less_nat_alt word_le_nat_alt)
    then show ?thesis using that assms(4,6) aligned_page [of a] by (auto simp: in_as user_va_def)
  qed
  then obtain s' k where s': "allocuvm_loop ?as p oldsz newsz s = Some (newsz, s')" "mem_ok s' R (drop k free)"
      "\<forall>q \<in> R. \<forall>b. user_va b \<longrightarrow>
        uview s' q b = (if q = p \<and> PGROUNDDOWN b \<in> set ?as then Some (PTE_P OR PTE_W OR PTE_U, zero_page) else uview s q b)"
    using allocuvm_loop_post [OF assms(1,2,5) in_as(2), of oldsz newsz] by blast
  have "allocuvm p oldsz newsz s = Some (newsz, s')"
    using s'(1) assms(3,4) by (simp add: allocuvm_def word_le_nat_alt word_less_nat_alt)
  then show ?thesis using s'(2,3) set_drop_subset [of k free]
    by (intro exI [of _ s'] exI [of _ "drop k free"]) (simp add: page_addrs_down PGROUNDUP_aligned)
qed

theorem allocuvm_correct_witness:
  "\<exists>s0 p s1 s2. kinit1 (k_end km_boot) (P2V PHYSTOP) km_boot = Some s0 \<and> setupkvm s0 = Some (p, s1)
     \<and> allocuvm p 0 5000 s1 = Some (5000, s2) \<and> uview s2 p 4999 = Some (PTE_P OR PTE_W OR PTE_U, zero_page) \<and> uview s2 p 8192 = None"
proof -
  obtain s0 p s1 free where s1: "kinit1 (k_end km_boot) (P2V PHYSTOP) km_boot = Some s0" "setupkvm s0 = Some (p, s1)" "mem_ok s1 {p} free"
      "17 \<le> length free" "\<forall>b. user_va b \<longrightarrow> uview s1 p b = None" using sample_root by blast
  have up: "PGROUNDUP 0 = 0" by (simp add: PGROUNDUP_def)
  have n: "4 * length (page_addrs (PGROUNDUP 0) 5000) \<le> length free" using s1(4) by (simp add: page_addrs_def up)
  have v: "user_va b" if "b < 5000" for b using that unfolding user_va_def by (rule order.strict_trans) simp
  obtain s2 where s2: "allocuvm p 0 5000 s1 = Some (5000, s2)"
      "\<forall>b. user_va b \<longrightarrow> uview s2 p b = (if PGROUNDUP 0 \<le> b \<and> PGROUNDDOWN b < 5000 then Some (PTE_P OR PTE_W OR PTE_U, zero_page) else uview s1 p b)"
    using allocuvm_correct [OF s1(3) _ _ _ n] s1(5) v by auto
  have "user_va 4999" "user_va 8192" "PGROUNDDOWN 4999 = 4096" "PGROUNDDOWN 8192 = 8192" by (simp_all add: user_va_def PGROUNDDOWN_def)
  then show ?thesis using s1(1,2,5) s2 by (intro exI [of _ s0] exI [of _ p] exI [of _ s1] exI [of _ s2]) (simp add: up)
qed

text \<open>C6. \<^verbatim>\<open>copyuvm\<close> gives a child its own copy of the memory of its parent: with enough free pages it returns a new page
  table that has, page by page, the parent's permissions and contents from address 4096 up to the size and nothing else; every address space that was
  there is unchanged, and the child shares no page with any of them.\<close>

theorem copyuvm_isolates:
  assumes "mem_ok s R free" "p \<in> R" "1 + 4 * length (page_addrs 4096 (ucast sz)) \<le> length free"
    "\<forall>b. 4096 \<le> b \<and> b < ucast sz \<longrightarrow> uview s p b \<noteq> None"
  shows "\<exists>d s' free'. copyuvm p sz s = Some (d, s') \<and> d \<notin> R \<and> mem_ok s' (insert d R) free'
    \<and> (\<forall>b. user_va b \<longrightarrow> uview s' d b = (if 4096 \<le> b \<and> PGROUNDDOWN b < ucast sz then uview s p b else None))
    \<and> (\<forall>q \<in> R. \<forall>b. user_va b \<longrightarrow> uview s' q b = uview s q b)
    \<and> pages (frames s') {d} \<inter> pages (frames s') R = {}"
proof -
  let ?as = "page_addrs 4096 (ucast sz)"
  have lo: "unat (4096 :: u64) mod PGSIZE = 0" by simp
  note in_as = page_addrs_in [OF lo, where hi = "ucast sz"]
  obtain d fr where fr: "free = d # fr" using assms(3) by (cases free) auto
  obtain s1 where s1: "setupkvm s = Some (d, s1)" "mem_ok s1 (insert d R) fr"
      "\<forall>q \<in> R. \<forall>b. user_va b \<longrightarrow> uview s1 q b = uview s q b" "\<forall>b. user_va b \<longrightarrow> uview s1 d b = None" "d \<notin> R"
    using setupkvm_post [of s R d fr] assms(1) fr by blast
  have p: "p \<in> insert d R" "d \<in> insert d R" "p \<noteq> d" "4 * length ?as \<le> length fr" using assms(2,3) s1(5) fr by auto
  have "PGROUNDDOWN a = a \<and> user_va a \<and> uview s1 p a \<noteq> None \<and> uview s1 d a = None" if "a \<in> set ?as" for a
  proof -
    have a: "a < ucast sz" "4096 \<le> a" using that by (auto simp: in_as word_less_nat_alt word_le_nat_alt)
    have "unat (ucast sz :: u64) < 2 ^ 32" using unsigned_less [of sz, where 'a = nat] by (simp add: unsigned_ucast_eq take_bit_nat_eq_self)
    then have "user_va a" using a(1) by (simp add: user_va_def word_less_nat_alt)
    then show ?thesis using a that assms(2,4) s1(3,4) aligned_page [of a] by (auto simp: in_as)
  qed
  then obtain s' k where s': "copyuvm_loop ?as p d s1 = Some (True, s')" "mem_ok s' (insert d R) (drop k fr)"
      "\<forall>q \<in> insert d R. \<forall>b. user_va b \<longrightarrow> uview s' q b = (if q = d \<and> PGROUNDDOWN b \<in> set ?as then uview s1 p b else uview s1 q b)"
    using copyuvm_loop_post [OF s1(2) p in_as(2)] by blast
  have "pages (frames s') {d} \<inter> pages (frames s') R = {}"
    using forestD [OF mem_okD(3) [OF s'(2)], of d] s1(5) by (fastforce simp: pages_def)
  moreover have "copyuvm p sz s = Some (d, s')" using s1(1) s'(1) by (simp add: copyuvm_def)
  ultimately show ?thesis using s'(2,3) s1(3-5) assms(2) by (auto simp: page_addrs_down [OF lo])
qed

theorem copyuvm_isolates_witness:
  "\<exists>s0 p s1 s d s'. kinit1 (k_end km_boot) (P2V PHYSTOP) km_boot = Some s0 \<and> setupkvm s0 = Some (p, s1) \<and> allocuvm p 4096 12288 s1 = Some (12288, s)
     \<and> copyuvm p 12288 s = Some (d, s') \<and> uview s' d 5000 = Some (PTE_P OR PTE_W OR PTE_U, zero_page) \<and> uview s' d 0 = None
     \<and> pages (frames s') {d} \<inter> pages (frames s') {p} = {}"
proof -
  obtain s0 p s1 s free where s: "kinit1 (k_end km_boot) (P2V PHYSTOP) km_boot = Some s0" "setupkvm s0 = Some (p, s1)"
      "allocuvm p 4096 12288 s1 = Some (12288, s)" "mem_ok s {p} free" "9 \<le> length free"
      "\<forall>b. 4096 \<le> b \<and> b < 12288 \<longrightarrow> uview s p b = Some (PTE_P OR PTE_W OR PTE_U, zero_page)" using sample_space by blast
  have n: "1 + 4 * length (page_addrs 4096 (ucast (12288 :: u32))) \<le> length free" using s(5) by (simp add: page_addrs_def)
  obtain d s' where d: "copyuvm p 12288 s = Some (d, s')" "pages (frames s') {d} \<inter> pages (frames s') {p} = {}"
      "\<forall>b. user_va b \<longrightarrow> uview s' d b = (if 4096 \<le> b \<and> PGROUNDDOWN b < ucast (12288 :: u32) then uview s p b else None)"
    using copyuvm_isolates [OF s(4) _ n] s(6) by auto
  have "user_va 5000" "user_va 0" "PGROUNDDOWN 5000 = 4096" by (simp_all add: user_va_def PGROUNDDOWN_def)
  then show ?thesis using s(1-3,6) d
    by (intro exI [of _ s0] exI [of _ p] exI [of _ s1] exI [of _ s] exI [of _ d] exI [of _ s']) simp
qed

text \<open>C26. What \<^verbatim>\<open>copyout\<close> writes \<^verbatim>\<open>copyin\<close> reads back, across page boundaries: for a range of mapped user memory below 4 GB
  \<^verbatim>\<open>copyout\<close> succeeds, \<^verbatim>\<open>copyin\<close> then returns the bytes written, the rest of this address space and all of every other one are as they
  were, and the page tables are still well formed.\<close>

theorem copyout_then_copyin:
  assumes "mem_ok s R free" "p \<in> R" "unat va + length buf \<le> 2 ^ 32"
    "\<forall>b. unat va \<le> unat b \<and> unat b < unat va + length buf \<longrightarrow> umem s p b \<noteq> None"
  shows "\<exists>s'. copyout p va buf s = Some (0, s') \<and> copyin p va (length buf) s' = Some (Some buf) \<and> mem_ok s' R free
    \<and> (\<forall>q \<in> R. \<forall>b. user_va b \<longrightarrow> q \<noteq> p \<or> unat b < unat va \<or> unat va + length buf \<le> unat b \<longrightarrow> umem s' q b = umem s q b)"
proof -
  have "unat va + length buf \<le> 2 ^ 47" using assms(3) by simp
  then obtain s' where s': "copyout p va buf s = Some (0, s')" "mem_ok s' R free"
      "\<forall>q \<in> R. \<forall>b. user_va b \<longrightarrow> umem s' q b =
        (if q = p \<and> unat va \<le> unat b \<and> unat b < unat va + length buf then Some (buf ! (unat b - unat va)) else umem s q b)"
    using copyout_post [OF assms(1,2)] assms(4) by blast
  have "copyin p va (length buf) s' = Some (Some buf)"
  proof (rule copyin_post [OF s'(2) assms(2,3) refl])
    fix b :: u64
    assume b: "unat va \<le> unat b" "unat b < unat va + length buf"
    then have "user_va b" using assms(3) by (simp add: user_va_def word_less_nat_alt)
    then show "umem s' p b = Some (buf ! (unat b - unat va))" using s'(3) assms(2) b by simp
  qed
  then show ?thesis using s' by (intro exI [of _ s']) auto
qed

theorem copyout_then_copyin_witness:
  "\<exists>s0 p s1 s s'. kinit1 (k_end km_boot) (P2V PHYSTOP) km_boot = Some s0 \<and> setupkvm s0 = Some (p, s1) \<and> allocuvm p 4096 12288 s1 = Some (12288, s)
     \<and> copyout p 8190 [1, 2, 3, 4] s = Some (0, s') \<and> copyin p 8190 4 s' = Some (Some [1, 2, 3, 4])"
proof -
  obtain s0 p s1 s free where s: "kinit1 (k_end km_boot) (P2V PHYSTOP) km_boot = Some s0" "setupkvm s0 = Some (p, s1)"
      "allocuvm p 4096 12288 s1 = Some (12288, s)" "mem_ok s {p} free" "9 \<le> length free"
      "\<forall>b. 4096 \<le> b \<and> b < 12288 \<longrightarrow> uview s p b = Some (PTE_P OR PTE_W OR PTE_U, zero_page)" using sample_space by blast
  have "umem s p b \<noteq> None" if "unat (8190 :: u64) \<le> unat b" "unat b < unat (8190 :: u64) + length [1, 2, 3, 4 :: byte]" for b
  proof -
    have "4096 \<le> b" "b < 12288" using that by (auto simp: word_le_nat_alt word_less_nat_alt)
    then show ?thesis using s(6) by (simp add: umem_def)
  qed
  then obtain s' where "copyout p 8190 [1, 2, 3, 4] s = Some (0, s')" "copyin p 8190 (length [1, 2, 3, 4 :: byte]) s' = Some (Some [1, 2, 3, 4])"
    using copyout_then_copyin [OF s(4), of p 8190 "[1, 2, 3, 4]"] by auto
  moreover have "length [1, 2, 3, 4 :: byte] = 4" by simp
  ultimately show ?thesis using s(1-3) by metis
qed

end
