(* ===== verification/Xv6_FreeVm.thy ===== *)
theory Xv6_FreeVm
  imports Xv6_AddrSpace
begin

text \<open>
  \<^verbatim>\<open>freevm\<close> of \<^verbatim>\<open>vm.c\<close> gives every page of an address space back to the allocator, each one once. The four nested
  loops are four instances of one step: if \<open>F\<close> frees the trees of height \<open>n\<close>, a loop that calls \<open>F\<close> on the present
  entries of a table and then frees the table frees the trees of height \<open>n + 1\<close>.
\<close>

section \<open>Trees of pages\<close>

definition paths :: "nat set \<Rightarrow> nat \<Rightarrow> nat list set" where
  "paths I n = {ps. length ps \<le> n \<and> set ps \<subseteq> {..<512} \<and> (ps \<noteq> [] \<longrightarrow> hd ps \<in> I)}"

definition sub :: "(u64 \<Rightarrow> page) \<Rightarrow> u64 \<Rightarrow> nat set \<Rightarrow> nat \<Rightarrow> u64 set" where
  "sub f a I n = {b. \<exists>ps \<in> paths I n. tab f a ps = Some b}"

definition tree :: "(u64 \<Rightarrow> page) \<Rightarrow> u64 \<Rightarrow> nat set \<Rightarrow> nat \<Rightarrow> bool" where
  "tree f a I n \<longleftrightarrow> (\<forall>ps \<in> paths I n. \<forall>qs \<in> paths I n. \<forall>b. tab f a ps = Some b \<longrightarrow> tab f a qs = Some b \<longrightarrow> ps = qs)"

definition branch :: "(u64 \<Rightarrow> page) \<Rightarrow> u64 \<Rightarrow> nat \<Rightarrow> nat \<Rightarrow> u64 set" where
  "branch f a n i = {b. \<exists>ps \<in> paths {..<512} n. tab f a (i # ps) = Some b}"

definition child :: "(u64 \<Rightarrow> page) \<Rightarrow> u64 \<Rightarrow> nat \<Rightarrow> u64" where
  "child f a i = P2V (PTE_ADDR (get64 (8 * i) (f a)))"

lemma paths_Cons: "i # ps \<in> paths I (Suc n) \<longleftrightarrow> i \<in> I \<and> i < 512 \<and> ps \<in> paths {..<512} n"
  by (cases ps) (auto simp: paths_def)

lemma paths_Nil [simp]: "[] \<in> paths I n"
  by (simp add: paths_def)

lemma paths_0: "paths I 0 = {[]}"
  by (auto simp: paths_def)

lemma upath_paths: "upath ps \<longleftrightarrow> ps \<in> paths {..<256} 4"
  by (auto simp: upath_def paths_def)

lemma tab_Cons_child: "tab f a (i # ps) = (if get64 (8 * i) (f a) AND PTE_P = 0 then None else tab f (child f a i) ps)"
  by (simp add: child_def Let_def tab.simps(2))

lemma branch_sub: "branch f a n i = (if get64 (8 * i) (f a) AND PTE_P = 0 then {} else sub f (child f a i) {..<512} n)"
  by (auto simp: branch_def sub_def tab_Cons_child)

lemma sub_Suc:
  assumes "I \<subseteq> {..<512}"
  shows "sub f a I (Suc n) = insert a (\<Union>i \<in> I. branch f a n i)"
proof -
  have "b \<in> sub f a I (Suc n) \<longleftrightarrow> b = a \<or> (\<exists>i \<in> I. b \<in> branch f a n i)" for b
  proof
    assume "b \<in> sub f a I (Suc n)"
    then obtain ps where "ps \<in> paths I (Suc n)" "tab f a ps = Some b" by (auto simp: sub_def)
    then show "b = a \<or> (\<exists>i \<in> I. b \<in> branch f a n i)"
      by (cases ps) (auto simp: paths_Cons branch_def)
  next
    assume "b = a \<or> (\<exists>i \<in> I. b \<in> branch f a n i)"
    then show "b \<in> sub f a I (Suc n)"
    proof
      assume "b = a"
      then show ?thesis unfolding sub_def by (intro CollectI bexI [of _ "[]"]) auto
    next
      assume "\<exists>i \<in> I. b \<in> branch f a n i"
      then obtain i ps where "i \<in> I" "ps \<in> paths {..<512} n" "tab f a (i # ps) = Some b" by (auto simp: branch_def)
      then show ?thesis unfolding sub_def using assms by (intro CollectI bexI [of _ "i # ps"]) (auto simp: paths_Cons)
    qed
  qed
  then show ?thesis by auto
qed

lemma treeD: "tree f a I n \<Longrightarrow> ps \<in> paths I n \<Longrightarrow> qs \<in> paths I n \<Longrightarrow> tab f a ps = Some b \<Longrightarrow> tab f a qs = Some b \<Longrightarrow> ps = qs"
  unfolding tree_def by blast

lemma tree_Suc:
  assumes t: "tree f a I (Suc n)" and I: "I \<subseteq> {..<512}"
  shows "i \<in> I \<Longrightarrow> a \<notin> branch f a n i" "i \<in> I \<Longrightarrow> j \<in> I \<Longrightarrow> i \<noteq> j \<Longrightarrow> branch f a n i \<inter> branch f a n j = {}"
    "i \<in> I \<Longrightarrow> get64 (8 * i) (f a) AND PTE_P \<noteq> 0 \<Longrightarrow> tree f (child f a i) {..<512} n"
proof -
  have c: "i # ps \<in> paths I (Suc n)" if "i \<in> I" "ps \<in> paths {..<512} n" for i ps using that I by (auto simp: paths_Cons)
  show "a \<notin> branch f a n i" if "i \<in> I"
    using treeD [OF t paths_Nil c [OF that]] by (fastforce simp: branch_def)
  show "branch f a n i \<inter> branch f a n j = {}" if "i \<in> I" "j \<in> I" "i \<noteq> j"
    using treeD [OF t c [OF that(1)] c [OF that(2)]] that(3) by (fastforce simp: branch_def)
  show "tree f (child f a i) {..<512} n" if i: "i \<in> I" "get64 (8 * i) (f a) AND PTE_P \<noteq> 0"
    unfolding tree_def
  proof (intro ballI allI impI)
    fix ps qs b
    assume p: "ps \<in> paths {..<512} n" "qs \<in> paths {..<512} n" "tab f (child f a i) ps = Some b" "tab f (child f a i) qs = Some b"
    then have "tab f a (i # ps) = Some b" "tab f a (i # qs) = Some b" using i(2) by (simp_all only: tab_Cons_child if_False)
    then show "ps = qs" using treeD [OF t c [OF i(1) p(1)] c [OF i(1) p(2)]] by simp
  qed
qed

text \<open>A walk depends on the pages it meets before its last one.\<close>

lemma tab_agree:
  assumes "\<And>qs i rs b. ps = qs @ i # rs \<Longrightarrow> tab f a qs = Some b \<Longrightarrow> g b = f b"
  shows "tab g a ps = tab f a ps"
  using assms
proof (induction ps rule: rev_induct)
  case (snoc i ps)
  have "tab g a ps = tab f a ps" by (rule snoc.IH) (use snoc.prems in fastforce)
  then show ?case using snoc.prems [of ps i "[]"] by (auto simp: tab_step split: option.split)
qed simp

lemma paths_prefix: "qs @ rs \<in> paths I n \<Longrightarrow> qs \<in> paths I n"
  by (cases qs) (auto simp: paths_def)

lemma sub_agree:
  assumes "\<And>b. b \<in> sub f a I n \<Longrightarrow> g b = f b"
  shows "ps \<in> paths I n \<Longrightarrow> tab g a ps = tab f a ps" "sub g a I n = sub f a I n" "tree g a I n = tree f a I n"
proof -
  show t: "tab g a ps = tab f a ps" if "ps \<in> paths I n" for ps
    by (rule tab_agree) (use assms that paths_prefix in \<open>fastforce simp: sub_def\<close>)
  show "sub g a I n = sub f a I n" "tree g a I n = tree f a I n" unfolding sub_def tree_def using t by auto
qed

section \<open>Freeing a tree\<close>

definition frees :: "(u64 \<Rightarrow> 'a kmst_scheme \<Rightarrow> 'a kmst_scheme option) \<Rightarrow> nat set \<Rightarrow> nat \<Rightarrow> bool" where
  "frees F I n \<longleftrightarrow> (\<forall>s a free. free_list s free \<longrightarrow> (\<forall>v. length (frames s v) = PGSIZE) \<longrightarrow> tree (frames s) a I n \<longrightarrow>
     (\<forall>b \<in> sub (frames s) a I n. usable s b \<and> b \<notin> set free) \<longrightarrow>
     (\<exists>s' free'. F a s = Some s' \<and> free_list s' free' \<and> set free' = set free \<union> sub (frames s) a I n \<and> kframe s s'
        \<and> (\<forall>v. length (frames s' v) = PGSIZE) \<and> (\<forall>b. b \<notin> sub (frames s) a I n \<longrightarrow> frames s' b = frames s b)))"

lemma freesD:
  assumes "frees F I n" "free_list s free" "\<forall>v. length (frames s v) = PGSIZE" "tree (frames s) a I n"
    "\<forall>b \<in> sub (frames s) a I n. usable s b \<and> b \<notin> set free"
  shows "\<exists>s' free'. F a s = Some s' \<and> free_list s' free' \<and> set free' = set free \<union> sub (frames s) a I n \<and> kframe s s'
    \<and> (\<forall>v. length (frames s' v) = PGSIZE) \<and> (\<forall>b. b \<notin> sub (frames s) a I n \<longrightarrow> frames s' b = frames s b)"
  using assms unfolding frees_def by blast

lemma frees_kfree: "frees kfree {..<512} 0"
  unfolding frees_def
proof (intro allI impI)
  fix s :: "'a kmst_scheme" and a free
  assume s: "free_list s free" "\<forall>v. length (frames s v) = PGSIZE" "\<forall>b \<in> sub (frames s) a {..<512} 0. usable s b \<and> b \<notin> set free"
  have sub: "sub (frames s) a {..<512} 0 = {a}" by (auto simp: sub_def paths_0)
  let ?s = "(set_frame a (blit 0 (le64 (freelist s)) (replicate PGSIZE 1)) s)\<lparr>freelist := a\<rparr>"
  have "kfree a s = Some ?s" "free_list ?s (a # free)" using kfree_post [OF s(1), of a] s(3) unfolding sub by auto
  moreover have "kframe s ?s" unfolding kframe_def by (intro exI [of _ a] exI [of _ "frames ?s"]) (simp add: set_frame_def)
  ultimately show "\<exists>s' free'. kfree a s = Some s' \<and> free_list s' free' \<and> set free' = set free \<union> sub (frames s) a {..<512} 0 \<and> kframe s s'
    \<and> (\<forall>v. length (frames s' v) = PGSIZE) \<and> (\<forall>b. b \<notin> sub (frames s) a {..<512} 0 \<longrightarrow> frames s' b = frames s b)"
    using s(2) unfolding sub by (intro exI [of _ ?s] exI [of _ "a # free"]) (auto simp: set_frame_def)
qed

lemma free_entries_post:
  assumes F: "frees F {..<512} n" and t: "tree f a I (Suc n)" and I: "I \<subseteq> {..<512}"
  shows "distinct is \<Longrightarrow> set is \<subseteq> I \<Longrightarrow> free_list s free \<Longrightarrow> \<forall>v. length (frames s v) = PGSIZE \<Longrightarrow> frames s a = f a \<Longrightarrow>
    \<forall>i \<in> set is. \<forall>b \<in> branch f a n i. frames s b = f b \<and> usable s b \<and> b \<notin> set free \<Longrightarrow>
    \<exists>s' free'. free_entries F is a s = Some s' \<and> free_list s' free' \<and> set free' = set free \<union> (\<Union>i \<in> set is. branch f a n i) \<and> kframe s s'
      \<and> (\<forall>v. length (frames s' v) = PGSIZE) \<and> (\<forall>b. b \<notin> (\<Union>i \<in> set is. branch f a n i) \<longrightarrow> frames s' b = frames s b)"
proof (induction "is" arbitrary: s free)
  case (Cons i "is")
  have g: "get_pte a i s = get64 (8 * i) (f a)" using Cons.prems(5) by (simp add: get_pte_def)
  have i: "i \<in> I" using Cons.prems(2) by simp
  show ?case
  proof (cases "get64 (8 * i) (f a) AND PTE_P = 0")
    case True
    then have "branch f a n i = {}" by (simp add: branch_sub)
    then show ?thesis using Cons.IH [of s free] Cons.prems True g by simp
  next
    case False
    let ?c = "child f a i"
    have b: "branch f a n i = sub f ?c {..<512} n" using False by (simp add: branch_sub)
    have eq: "frames s b = f b" if "b \<in> sub f ?c {..<512} n" for b using Cons.prems(6) that b by simp
    have A: "sub (frames s) ?c {..<512} n = branch f a n i" unfolding b by (rule sub_agree(2)) (rule eq)
    have "tree (frames s) ?c {..<512} n = tree f ?c {..<512} n" by (rule sub_agree(3)) (rule eq)
    then have tr: "tree (frames s) ?c {..<512} n" using tree_Suc(3) [OF t I i False] by simp
    have us: "\<forall>b \<in> sub (frames s) ?c {..<512} n. usable s b \<and> b \<notin> set free" unfolding A using Cons.prems(6) by simp
    obtain s1 free1 where 1: "F ?c s = Some s1" "free_list s1 free1" "set free1 = set free \<union> branch f a n i" "kframe s s1"
        "\<forall>v. length (frames s1 v) = PGSIZE" "\<forall>b. b \<notin> branch f a n i \<longrightarrow> frames s1 b = frames s b"
      using freesD [OF F Cons.prems(3,4) tr us] unfolding A by blast
    have dis: "j \<noteq> i" "branch f a n j \<inter> branch f a n i = {}" if "j \<in> set is" for j
      using that Cons.prems(1,2) tree_Suc(2) [OF t I, of j i] by auto
    have fa: "frames s1 a = f a" using 1(6) tree_Suc(1) [OF t I i] Cons.prems(5) by simp
    have rest: "\<forall>j \<in> set is. \<forall>b \<in> branch f a n j. frames s1 b = f b \<and> usable s1 b \<and> b \<notin> set free1"
    proof (intro ballI)
      fix j b
      assume j: "j \<in> set is" "b \<in> branch f a n j"
      then have "b \<notin> branch f a n i" using dis(2) by blast
      then show "frames s1 b = f b \<and> usable s1 b \<and> b \<notin> set free1"
        using Cons.prems(6) j 1(3,6) kframeD(1) [OF 1(4)] by auto
    qed
    obtain s2 free2 where 2: "free_entries F is a s1 = Some s2" "free_list s2 free2"
        "set free2 = set free1 \<union> (\<Union>i \<in> set is. branch f a n i)" "kframe s1 s2"
        "\<forall>v. length (frames s2 v) = PGSIZE" "\<forall>b. b \<notin> (\<Union>i \<in> set is. branch f a n i) \<longrightarrow> frames s2 b = frames s1 b"
      using Cons.IH [OF _ _ 1(2,5) fa rest] Cons.prems(1,2) by auto
    have "free_entries F (i # is) a s = Some s2" using False g 1(1) 2(1) by (simp add: child_def)
    then show ?thesis using 2 1 kframe_trans [OF 1(4) 2(4)] by (intro exI [of _ s2] exI [of _ free2]) auto
  qed
qed auto

lemma frees_table:
  assumes F: "frees F {..<512} n" and I: "I \<subseteq> {..<512}" "distinct is" "set is = I"
  shows "frees (\<lambda>a s. do { s \<leftarrow> free_entries F is a s; kfree a s }) I (Suc n)"
  unfolding frees_def
proof (intro allI impI)
  fix s :: "'a kmst_scheme" and a free
  assume s: "free_list s free" "\<forall>v. length (frames s v) = PGSIZE" "tree (frames s) a I (Suc n)"
    "\<forall>b \<in> sub (frames s) a I (Suc n). usable s b \<and> b \<notin> set free"
  let ?B = "\<Union>i \<in> I. branch (frames s) a n i"
  note S = sub_Suc [OF I(1), of "frames s" a n]
  have aB: "a \<notin> ?B" using tree_Suc(1) [OF s(3) I(1)] by auto
  have pre: "\<forall>i \<in> set is. \<forall>b \<in> branch (frames s) a n i. frames s b = frames s b \<and> usable s b \<and> b \<notin> set free"
    using s(4) unfolding S I(3) by blast
  have "set is \<subseteq> I" using I(3) by simp
  note post = free_entries_post [OF F s(3) I(1) I(2) this s(1,2) refl pre, unfolded I(3)]
  obtain s1 free1 where 1: "free_entries F is a s = Some s1" "free_list s1 free1" "set free1 = set free \<union> ?B" "kframe s s1"
      "\<forall>v. length (frames s1 v) = PGSIZE" "\<forall>b. b \<notin> ?B \<longrightarrow> frames s1 b = frames s b" using post by blast
  have sub1: "sub (frames s1) a {..<512} 0 = {a}" and tr1: "tree (frames s1) a {..<512} 0" by (auto simp: sub_def tree_def paths_0)
  have us: "\<forall>b \<in> sub (frames s1) a {..<512} 0. usable s1 b \<and> b \<notin> set free1"
    unfolding sub1 using s(4) aB 1(3) kframeD(1) [OF 1(4)] S by simp
  obtain s2 free2 where 2: "kfree a s1 = Some s2" "free_list s2 free2" "set free2 = set free1 \<union> {a}" "kframe s1 s2"
      "\<forall>v. length (frames s2 v) = PGSIZE" "\<forall>b. b \<notin> {a} \<longrightarrow> frames s2 b = frames s1 b"
    using freesD [OF frees_kfree 1(2,5) tr1 us] unfolding sub1 by blast
  show "\<exists>s' free'. do { s \<leftarrow> free_entries F is a s; kfree a s } = Some s' \<and> free_list s' free' \<and> set free' = set free \<union> sub (frames s) a I (Suc n)
    \<and> kframe s s' \<and> (\<forall>v. length (frames s' v) = PGSIZE) \<and> (\<forall>b. b \<notin> sub (frames s) a I (Suc n) \<longrightarrow> frames s' b = frames s b)"
    unfolding S using 1 2 kframe_trans [OF 1(4) 2(4)] by (intro exI [of _ s2] exI [of _ free2]) auto
qed

lemma frees_freevm_tables: "frees free_pt {..<512} 1" "frees free_pd {..<512} 2" "frees free_pdp {..<512} 3"
proof -
  have I: "{..<512} \<subseteq> {..<512::nat}" "distinct [0..<512]" "set [0..<512] = {..<512::nat}" by auto
  show 1: "frees free_pt {..<512} 1" using frees_table [OF frees_kfree I] by (simp add: free_pt_def [abs_def])
  have 2: "frees free_pd {..<512} (Suc 1)" using frees_table [OF 1 I] by (simp only: free_pd_def [abs_def])
  show "frees free_pdp {..<512} 3" using frees_table [OF 2 I] by (simp add: free_pdp_def [abs_def] numeral_3_eq_3)
  show "frees free_pd {..<512} 2" using 2 by (simp add: numeral_2_eq_2)
qed

lemma freevm_post:
  assumes m: "mem_ok s R free" and p: "p \<in> R"
  shows "\<exists>s' free'. freevm p s = Some s' \<and> free_list s' free' \<and> set free' = set free \<union> pages (frames s) {p} \<and> kframe s s'
    \<and> (\<forall>v. length (frames s' v) = PGSIZE) \<and> (\<forall>b. b \<notin> pages (frames s) {p} \<longrightarrow> frames s' b = frames s b)"
proof -
  note M = mem_okD [OF m]
  have I: "{..<256} \<subseteq> {..<512::nat}" "distinct [0..<256]" "set [0..<256] = {..<256::nat}" by auto
  have sub: "sub (frames s) p {..<256} (Suc 3) = pages (frames s) {p}" by (simp add: sub_def pages_def upath_paths Bex_def)
  have tr: "tree (frames s) p {..<256} (Suc 3)"
    using forestD [OF M(3) p p] unfolding tree_def upath_paths by (simp add: eval_nat_numeral)
  have us: "\<forall>b \<in> sub (frames s) p {..<256} (Suc 3). usable s b \<and> b \<notin> set free"
    unfolding sub using M(4,5) p by (auto simp: pages_def)
  have "p \<noteq> 0" using M(4) [OF roots_pages [OF p]] usable_nonzero by blast
  then show ?thesis
    using freesD [OF frees_table [OF frees_freevm_tables(3) I] M(1) _ tr us] M(2) unfolding sub by (simp add: freevm_def)
qed

text \<open>C8. \<^verbatim>\<open>freevm\<close> gives an address space back completely: it frees every page of the page table and every page
  mapped by it, each once, so that afterwards the free pages are those that were free and those of this address space; all other
  address spaces are unchanged and well formed.\<close>

theorem freevm_returns_pages:
  assumes "mem_ok s R free" "p \<in> R"
  shows "\<exists>s' free'. freevm p s = Some s' \<and> mem_ok s' (R - {p}) free'
    \<and> set free' = set free \<union> pages (frames s) {p} \<and> length free' = length free + card (pages (frames s) {p})
    \<and> (\<forall>q \<in> R - {p}. \<forall>b. user_va b \<longrightarrow> uview s' q b = uview s q b)"
proof -
  note M = mem_okD [OF assms(1)]
  obtain s' free' where f: "freevm p s = Some s'" "free_list s' free'" "set free' = set free \<union> pages (frames s) {p}" "kframe s s'"
      "\<forall>v. length (frames s' v) = PGSIZE" "\<forall>b. b \<notin> pages (frames s) {p} \<longrightarrow> frames s' b = frames s b"
    using freevm_post [OF assms] by blast
  have other: "frames s' b = frames s b" if "q \<in> R - {p}" "upath ps" "tab (frames s) q ps = Some b" for q ps b
    using f(6) forestD [OF M(3) _ assms(2), of q ps] that by (fastforce simp: pages_def)
  have tab: "tab (frames s') q ps = tab (frames s) q ps" if "q \<in> R - {p}" "upath ps" for q ps
    by (rule tab_agree) (use other that upath_append in blast)
  have pg: "pages (frames s') (R - {p}) = pages (frames s) (R - {p})" unfolding pages_def using tab by (metis (no_types, lifting))
  have sep: "usable s a \<and> a \<notin> set free'" if "a \<in> pages (frames s) (R - {p})" for a
  proof -
    have "a \<in> pages (frames s) R" using that by (auto simp: pages_def)
    moreover have "a \<notin> pages (frames s) {p}" using that forestD [OF M(3) _ assms(2)] by (fastforce simp: pages_def)
    ultimately show ?thesis using M(4,5) f(3) by simp
  qed
  have "forest (frames s') (R - {p})" unfolding forest_def using forestD [OF M(3)] tab by fastforce
  then have "mem_ok s' (R - {p}) free'"
    unfolding mem_ok_def pg using f(2,5) sep kframeD(1) [OF f(4)] by simp
  moreover have "uview s' q b = uview s q b" if "q \<in> R - {p}" "user_va b" for q b
  proof -
    have u: "upath (path b)" using upath_path(1) [OF that(2)] .
    have "upath (butlast (path b))" using u upath_append [of "butlast (path b)" "[last (path b)]"] by simp
    then have "entry (frames s') q (path b) = entry (frames s) q (path b)"
      using tab [OF that(1)] other [OF that(1)] by (auto simp: entry_def split: option.split)
    then show ?thesis using tab [OF that(1) u] other [OF that(1) u] by (cases "tab (frames s) q (path b)") (auto simp: uview_tab)
  qed
  moreover have "length free' = length free + card (pages (frames s) {p})"
  proof -
    have fin: "finite (pages (frames s) {p})" by (rule finite_subset [of _ "set free'"]) (auto simp: f(3))
    have "set free \<inter> pages (frames s) {p} = {}" using M(5) assms(2) by (auto simp: pages_def)
    then have "card (set free') = card (set free) + card (pages (frames s) {p})" unfolding f(3) by (intro card_Un_disjoint) (auto simp: fin)
    then show ?thesis using free_listD(1) [OF f(2)] free_listD(1) [OF M(1)] by (simp add: distinct_card)
  qed
  ultimately show ?thesis using f(1,3) by blast
qed

theorem freevm_returns_pages_witness:
  "\<exists>s0 p s1 s s' free'. kinit1 (k_end km_boot) (P2V PHYSTOP) km_boot = Some s0 \<and> setupkvm s0 = Some (p, s1) \<and> allocuvm p 4096 12288 s1 = Some (12288, s)
     \<and> freevm p s = Some s' \<and> mem_ok s' {} free' \<and> p \<in> set free'"
proof -
  obtain s0 p s1 s free where s: "kinit1 (k_end km_boot) (P2V PHYSTOP) km_boot = Some s0" "setupkvm s0 = Some (p, s1)"
      "allocuvm p 4096 12288 s1 = Some (12288, s)" "mem_ok s {p} free" using sample_space by blast
  then show ?thesis using freevm_returns_pages [OF s(4), of p] roots_pages [of p "{p}" "frames s"] by auto
qed

end
