(* ===== verification/Xv6_Spinlock.thy ===== *)
theory Xv6_Spinlock
  imports Xv6_Prelude
begin

text \<open>
  Spin locks, \<^verbatim>\<open>spinlock.c\<close>, on any number of processors. The other theories take a section between \<^verbatim>\<open>acquire\<close> and
  \<^verbatim>\<open>release\<close> as one step; this one shows that two processors are never in such a section of one lock, and that a processor
  in one cannot be interrupted.

  The steps of the processors are interleaved at every access to a lock: \<open>pc\<close> is where a processor is inside of
  \<^verbatim>\<open>acquire\<close> or \<^verbatim>\<open>release\<close>. A lock is a number, a \<^verbatim>\<open>struct cpu*\<close> is the number of a processor or \<open>None\<close>. Accesses to memory happen
  in the order of the program, which the barriers of the code ask for. The name of a lock and the recorded call stack are for
  debugging and left out.
\<close>

section \<open>Processors and locks\<close>

record spinlock =
  locked :: u32
  lk_cpu :: "nat option"

record cpu =
  eflags_if :: bool
  ncli :: int
  intena :: bool

definition initlock :: spinlock where
  "initlock = \<lparr>locked = 0, lk_cpu = None\<rparr>"

definition pushcli :: "cpu \<Rightarrow> cpu" where
  "pushcli cp =
     (let eflags = eflags_if cp;
          cp = cp\<lparr>eflags_if := False\<rparr>;
          cp = (if ncli cp = 0 then cp\<lparr>intena := eflags\<rparr> else cp)
      in cp\<lparr>ncli := ncli cp + 1\<rparr>)"

definition popcli :: "cpu \<Rightarrow> cpu option" where
  "popcli cp =
     (if eflags_if cp then panic ''popcli - interruptible''
      else let cp = cp\<lparr>ncli := ncli cp - 1\<rparr> in
        if ncli cp < 0 then panic ''popcli''
        else if ncli cp = 0 \<and> intena cp then Some (cp\<lparr>eflags_if := True\<rparr>)
        else Some cp)"

definition holding :: "nat \<Rightarrow> spinlock \<Rightarrow> bool" where
  "holding me lock \<longleftrightarrow> locked lock \<noteq> 0 \<and> lk_cpu lock = Some me"

text \<open>\<^verbatim>\<open>xchg(&lk->locked, 1)\<close>: the old value and the lock.\<close>

definition xchg_locked :: "spinlock \<Rightarrow> u32 \<times> spinlock" where
  "xchg_locked lock = (locked lock, lock\<lparr>locked := 1\<rparr>)"

section \<open>Steps\<close>

text \<open>
  \<open>Spin l\<close>: in the loop of \<^verbatim>\<open>acquire\<close>; \<open>Won l\<close>: behind the loop; \<open>Clear l\<close>: in \<^verbatim>\<open>release\<close>, behind the check;
  \<open>Unlock l\<close>: before the store to \<^verbatim>\<open>locked\<close>; \<open>Pop\<close>: before \<^verbatim>\<open>popcli\<close>. \<open>Out\<close> is outside of both functions.
  \<open>crit\<close> has the locks for which \<^verbatim>\<open>acquire\<close> has returned and \<^verbatim>\<open>release\<close> has not been called, \<open>nest\<close> counts the calls
  of \<^verbatim>\<open>pushcli\<close> from elsewhere (\<^verbatim>\<open>switchuvm\<close>) that are still open; they are for the specification only.
\<close>

datatype pc = Out | Spin nat | Won nat | Clear nat | Unlock nat | Pop

record machine =
  cpus :: "nat \<Rightarrow> cpu"
  lks :: "nat \<Rightarrow> spinlock"
  pcs :: "nat \<Rightarrow> pc"
  crit :: "nat \<Rightarrow> nat set"
  nest :: "nat \<Rightarrow> nat"

definition upd_cpu :: "nat \<Rightarrow> cpu \<Rightarrow> machine \<Rightarrow> machine" where
  "upd_cpu c cp m = m\<lparr>cpus := (cpus m)(c := cp)\<rparr>"

definition upd_lk :: "nat \<Rightarrow> spinlock \<Rightarrow> machine \<Rightarrow> machine" where
  "upd_lk l lk m = m\<lparr>lks := (lks m)(l := lk)\<rparr>"

definition goto :: "nat \<Rightarrow> pc \<Rightarrow> machine \<Rightarrow> machine" where
  "goto c p m = m\<lparr>pcs := (pcs m)(c := p)\<rparr>"

definition acquire_enter :: "nat \<Rightarrow> nat \<Rightarrow> machine \<Rightarrow> machine option" where
  "acquire_enter c l m =
     (let m = upd_cpu c (pushcli (cpus m c)) m in
      if holding c (lks m l) then panic ''acquire'' else Some (goto c (Spin l) m))"

definition acquire_xchg :: "nat \<Rightarrow> nat \<Rightarrow> machine \<Rightarrow> machine" where
  "acquire_xchg c l m =
     (let (old, lk) = xchg_locked (lks m l); m = upd_lk l lk m in
      if old \<noteq> 0 then m else goto c (Won l) m)"

definition acquire_record :: "nat \<Rightarrow> nat \<Rightarrow> machine \<Rightarrow> machine" where
  "acquire_record c l m =
     (goto c Out (upd_lk l ((lks m l)\<lparr>lk_cpu := Some c\<rparr>) m))\<lparr>crit := (crit m)(c := insert l (crit m c))\<rparr>"

definition release_enter :: "nat \<Rightarrow> nat \<Rightarrow> machine \<Rightarrow> machine option" where
  "release_enter c l m =
     (if \<not> holding c (lks m l) then panic ''release''
      else Some ((goto c (Clear l) m)\<lparr>crit := (crit m)(c := crit m c - {l})\<rparr>))"

definition release_clear :: "nat \<Rightarrow> nat \<Rightarrow> machine \<Rightarrow> machine" where
  "release_clear c l m = goto c (Unlock l) (upd_lk l ((lks m l)\<lparr>lk_cpu := None\<rparr>) m)"

definition release_unlock :: "nat \<Rightarrow> nat \<Rightarrow> machine \<Rightarrow> machine" where
  "release_unlock c l m = goto c Pop (upd_lk l ((lks m l)\<lparr>locked := 0\<rparr>) m)"

definition release_pop :: "nat \<Rightarrow> machine \<Rightarrow> machine option" where
  "release_pop c m = do { cp \<leftarrow> popcli (cpus m c); Some (goto c Out (upd_cpu c cp m)) }"

text \<open>
  Outside of the two functions the kernel calls \<^verbatim>\<open>pushcli\<close> and \<^verbatim>\<open>popcli\<close> in pairs, changes the interrupt flag while \<^verbatim>\<open>ncli\<close> is
  zero, and \<^verbatim>\<open>sched\<close> stores \<^verbatim>\<open>intena\<close>. A step that panics stops the machine and has no successor.
\<close>

inductive spin_step :: "machine \<Rightarrow> machine \<Rightarrow> bool" where
  acq_enter: "pcs m c = Out \<Longrightarrow> acquire_enter c l m = Some m' \<Longrightarrow> spin_step m m'"
| acq_xchg: "pcs m c = Spin l \<Longrightarrow> spin_step m (acquire_xchg c l m)"
| acq_record: "pcs m c = Won l \<Longrightarrow> spin_step m (acquire_record c l m)"
| rel_enter: "pcs m c = Out \<Longrightarrow> release_enter c l m = Some m' \<Longrightarrow> spin_step m m'"
| rel_clear: "pcs m c = Clear l \<Longrightarrow> spin_step m (release_clear c l m)"
| rel_unlock: "pcs m c = Unlock l \<Longrightarrow> spin_step m (release_unlock c l m)"
| rel_pop: "pcs m c = Pop \<Longrightarrow> release_pop c m = Some m' \<Longrightarrow> spin_step m m'"
| push: "pcs m c = Out \<Longrightarrow> spin_step m ((upd_cpu c (pushcli (cpus m c)) m)\<lparr>nest := (nest m)(c := nest m c + 1)\<rparr>)"
| pop: "pcs m c = Out \<Longrightarrow> 0 < nest m c \<Longrightarrow> popcli (cpus m c) = Some cp \<Longrightarrow>
    spin_step m ((upd_cpu c cp m)\<lparr>nest := (nest m)(c := nest m c - 1)\<rparr>)"
| set_if: "pcs m c = Out \<Longrightarrow> ncli (cpus m c) = 0 \<Longrightarrow> spin_step m (upd_cpu c ((cpus m c)\<lparr>eflags_if := b\<rparr>) m)"
| set_intena: "pcs m c = Out \<Longrightarrow> spin_step m (upd_cpu c ((cpus m c)\<lparr>intena := b\<rparr>) m)"

definition spin_boot :: machine where
  "spin_boot = \<lparr>cpus = \<lambda>_. \<lparr>eflags_if = False, ncli = 0, intena = False\<rparr>, lks = \<lambda>_. initlock, pcs = \<lambda>_. Out, crit = \<lambda>_. {}, nest = \<lambda>_. 0\<rparr>"

inductive spin_reach :: "machine \<Rightarrow> bool" where
  boot: "spin_reach spin_boot"
| step: "spin_reach m \<Longrightarrow> spin_step m m' \<Longrightarrow> spin_reach m'"

section \<open>The invariant\<close>

text \<open>The processors that own a lock: from the exchange that found it free to the store that frees it.\<close>

definition owner :: "machine \<Rightarrow> nat \<Rightarrow> nat \<Rightarrow> bool" where
  "owner m l c \<longleftrightarrow> l \<in> crit m c \<or> pcs m c \<in> {Won l, Clear l, Unlock l}"

definition lock_inv :: "machine \<Rightarrow> bool" where
  "lock_inv m \<longleftrightarrow>
     (\<forall>l c d. owner m l c \<longrightarrow> owner m l d \<longrightarrow> c = d) \<and> (\<forall>l. locked (lks m l) \<noteq> 0 \<longleftrightarrow> (\<exists>c. owner m l c))
     \<and> (\<forall>l c. l \<in> crit m c \<longrightarrow> pcs m c \<notin> {Won l, Clear l, Unlock l})
     \<and> (\<forall>l c. lk_cpu (lks m l) = Some c \<longleftrightarrow> l \<in> crit m c \<or> pcs m c = Clear l)"

definition cli_inv :: "machine \<Rightarrow> bool" where
  "cli_inv m \<longleftrightarrow>
     (\<forall>c. finite (crit m c) \<and> ncli (cpus m c) = int (card (crit m c)) + int (nest m c) + (if pcs m c = Out then 0 else 1)
        \<and> (0 < ncli (cpus m c) \<longrightarrow> \<not> eflags_if (cpus m c)))"

lemma lock_invD:
  assumes "lock_inv m"
  shows "owner m l c \<Longrightarrow> owner m l d \<Longrightarrow> c = d" "locked (lks m l) \<noteq> 0 \<longleftrightarrow> (\<exists>c. owner m l c)"
    "l \<in> crit m c \<Longrightarrow> pcs m c \<notin> {Won l, Clear l, Unlock l}" "lk_cpu (lks m l) = Some c \<longleftrightarrow> l \<in> crit m c \<or> pcs m c = Clear l"
  using assms unfolding lock_inv_def by blast+

lemma holding_owner: "lock_inv m \<Longrightarrow> holding c (lks m l) \<longleftrightarrow> l \<in> crit m c \<or> pcs m c = Clear l"
  using lock_invD(2,4) [of m l] by (auto simp: holding_def owner_def)

lemmas upd_defs = upd_cpu_def upd_lk_def goto_def

text \<open>A step that changes neither the locks nor their owners.\<close>

lemma lock_inv_same:
  assumes "lock_inv m" "lks m' = lks m" "crit m' = crit m" "\<And>c. pcs m' c = pcs m c \<or> {pcs m' c, pcs m c} \<subseteq> {Out, Pop} \<union> range Spin"
  shows "lock_inv m'"
proof -
  have p: "pcs m' c = Won l \<longleftrightarrow> pcs m c = Won l" "pcs m' c = Clear l \<longleftrightarrow> pcs m c = Clear l" "pcs m' c = Unlock l \<longleftrightarrow> pcs m c = Unlock l" for c l
    using assms(4) [of c] by auto
  then have "owner m' = owner m" using assms(3) by (auto simp: owner_def fun_eq_iff)
  then show ?thesis using assms(1) unfolding lock_inv_def assms(2,3) by (simp add: p)
qed

lemma lock_inv_enter: "lock_inv m \<Longrightarrow> pcs m c = Out \<Longrightarrow> acquire_enter c l m = Some m' \<Longrightarrow> lock_inv m'"
  by (rule lock_inv_same [of m]) (auto simp: acquire_enter_def upd_defs Let_def split: if_splits)

lemma lock_inv_xchg:
  assumes "lock_inv m" "pcs m c = Spin l"
  shows "lock_inv (acquire_xchg c l m)"
proof (cases "locked (lks m l) = 0")
  case True
  then have no: "\<not> owner m l d" for d using lock_invD(2) [OF assms(1)] by blast
  have o: "owner (acquire_xchg c l m) k d \<longleftrightarrow> owner m k d \<or> k = l \<and> d = c" for k d
    using True assms(2) by (auto simp: owner_def acquire_xchg_def xchg_locked_def upd_defs)
  have lk: "lks (acquire_xchg c l m) = (lks m)(l := (lks m l)\<lparr>locked := 1\<rparr>)" "crit (acquire_xchg c l m) = crit m"
    "pcs (acquire_xchg c l m) = (pcs m)(c := Won l)" using True by (auto simp: acquire_xchg_def xchg_locked_def upd_defs)
  show ?thesis unfolding lock_inv_def o lk using no lock_invD [OF assms(1)] assms(2) by (auto simp: owner_def)
next
  case False
  then have lk: "lks (acquire_xchg c l m) = (lks m)(l := (lks m l)\<lparr>locked := 1\<rparr>)" "crit (acquire_xchg c l m) = crit m"
    "pcs (acquire_xchg c l m) = pcs m" by (auto simp: acquire_xchg_def xchg_locked_def upd_defs)
  then have o: "owner (acquire_xchg c l m) = owner m" by (auto simp: owner_def fun_eq_iff)
  show ?thesis unfolding lock_inv_def o lk using lock_invD [OF assms(1)] False by auto
qed

lemma lock_inv_record:
  assumes "lock_inv m" "pcs m c = Won l"
  shows "lock_inv (acquire_record c l m)"
proof -
  let ?m = "acquire_record c l m"
  have lk: "lks ?m = (lks m)(l := (lks m l)\<lparr>lk_cpu := Some c\<rparr>)" "crit ?m = (crit m)(c := insert l (crit m c))" "pcs ?m = (pcs m)(c := Out)"
    by (auto simp: acquire_record_def upd_defs)
  have c: "owner m l c" using assms(2) by (simp add: owner_def)
  have o: "owner ?m = owner m" using assms(2) by (auto simp: owner_def lk fun_eq_iff)
  have "d = c" if "l \<in> crit m d \<or> pcs m d = Clear l" for d using lock_invD(1) [OF assms(1) c, of d] that by (auto simp: owner_def)
  then show ?thesis unfolding lock_inv_def o lk using lock_invD [OF assms(1)] assms(2) by (auto simp: owner_def)
qed

lemma lock_inv_release:
  assumes "lock_inv m" "pcs m c = Out" "release_enter c l m = Some m'"
  shows "lock_inv m'"
proof -
  have h: "l \<in> crit m c" using assms holding_owner [OF assms(1), of c l] by (auto simp: release_enter_def split: if_splits)
  have lk: "lks m' = lks m" "crit m' = (crit m)(c := crit m c - {l})" "pcs m' = (pcs m)(c := Clear l)"
    using assms(3) by (auto simp: release_enter_def upd_defs split: if_splits)
  have o: "owner m' = owner m" using assms(2) h by (auto simp: owner_def lk fun_eq_iff)
  show ?thesis unfolding lock_inv_def o lk using lock_invD [OF assms(1)] assms(2) h by (auto simp: owner_def)
qed

lemma lock_inv_clear:
  assumes "lock_inv m" "pcs m c = Clear l"
  shows "lock_inv (release_clear c l m)"
proof -
  let ?m = "release_clear c l m"
  have lk: "lks ?m = (lks m)(l := (lks m l)\<lparr>lk_cpu := None\<rparr>)" "crit ?m = crit m" "pcs ?m = (pcs m)(c := Unlock l)"
    by (auto simp: release_clear_def upd_defs)
  have c: "owner m l c" using assms(2) by (simp add: owner_def)
  have o: "owner ?m = owner m" using assms(2) by (auto simp: owner_def lk fun_eq_iff)
  have n: "d = c" if "l \<in> crit m d \<or> pcs m d = Clear l" for d using lock_invD(1) [OF assms(1) c, of d] that by (auto simp: owner_def)
  have l: "l \<notin> crit m d" for d using n [of d] lock_invD(3) [OF assms(1), of l c] assms(2) by blast
  have r: "pcs m d \<noteq> Clear l" if "d \<noteq> c" for d using n that by blast
  show ?thesis unfolding lock_inv_def o lk
  proof (intro conjI allI)
    fix k d
    show "lk_cpu (((lks m)(l := (lks m l)\<lparr>lk_cpu := None\<rparr>)) k) = Some d \<longleftrightarrow> k \<in> crit m d \<or> ((pcs m)(c := Unlock l)) d = Clear k"
      using l lock_invD(4) [OF assms(1), of k d] assms(2) r by (cases "k = l"; cases "d = c") auto
    show "k \<in> crit m d \<longrightarrow> ((pcs m)(c := Unlock l)) d \<notin> {Won k, Clear k, Unlock k}"
      using l [of d] lock_invD(3) [OF assms(1), of k d] by auto
    show "locked (((lks m)(l := (lks m l)\<lparr>lk_cpu := None\<rparr>)) k) \<noteq> 0 \<longleftrightarrow> (\<exists>d. owner m k d)" using lock_invD(2) [OF assms(1), of k] by (cases "k = l") auto
    show "owner m k d \<longrightarrow> owner m k e \<longrightarrow> d = e" for e using lock_invD(1) [OF assms(1)] by blast
  qed
qed

lemma lock_inv_unlock:
  assumes "lock_inv m" "pcs m c = Unlock l"
  shows "lock_inv (release_unlock c l m)"
proof -
  let ?m = "release_unlock c l m"
  have lk: "lks ?m = (lks m)(l := (lks m l)\<lparr>locked := 0\<rparr>)" "crit ?m = crit m" "pcs ?m = (pcs m)(c := Pop)"
    by (auto simp: release_unlock_def upd_defs)
  have c: "owner m l c" using assms(2) by (simp add: owner_def)
  have n: "\<not> owner m l d" if "d \<noteq> c" for d using lock_invD(1) [OF assms(1) c] that by blast
  have o: "owner ?m k d \<longleftrightarrow> owner m k d \<and> k \<noteq> l" for k d
    using n [of d] lock_invD(3) [OF assms(1), of l c] assms(2) by (cases "d = c") (auto simp: owner_def lk)
  show ?thesis unfolding lock_inv_def o lk using lock_invD [OF assms(1)] assms(2) by auto
qed

lemma cli_inv_upd:
  assumes "cli_inv m" "\<And>d. d \<noteq> c \<Longrightarrow> cpus m' d = cpus m d \<and> crit m' d = crit m d \<and> nest m' d = nest m d \<and> pcs m' d = pcs m d"
    "finite (crit m' c)" "ncli (cpus m' c) = int (card (crit m' c)) + int (nest m' c) + (if pcs m' c = Out then 0 else 1)"
    "0 < ncli (cpus m' c) \<Longrightarrow> \<not> eflags_if (cpus m' c)"
  shows "cli_inv m'"
  unfolding cli_inv_def
proof
  fix d
  show "finite (crit m' d) \<and> ncli (cpus m' d) = int (card (crit m' d)) + int (nest m' d) + (if pcs m' d = Out then 0 else 1)
        \<and> (0 < ncli (cpus m' d) \<longrightarrow> \<not> eflags_if (cpus m' d))"
    using assms unfolding cli_inv_def by (cases "d = c") auto
qed

lemma cli_invD:
  assumes "cli_inv m"
  shows "finite (crit m c)" "ncli (cpus m c) = int (card (crit m c)) + int (nest m c) + (if pcs m c = Out then 0 else 1)"
    "0 < ncli (cpus m c) \<Longrightarrow> \<not> eflags_if (cpus m c)"
  using assms unfolding cli_inv_def by blast+

lemma pushcli_simps [simp]: "ncli (pushcli cp) = ncli cp + 1" "\<not> eflags_if (pushcli cp)"
  by (auto simp: pushcli_def Let_def)

lemma popcli_post:
  assumes "popcli cp = Some cp'"
  shows "ncli cp' = ncli cp - 1" "0 < ncli cp' \<Longrightarrow> \<not> eflags_if cp'"
  using assms by (auto simp: popcli_def Let_def split: if_splits)

lemma spin_step_inv:
  assumes "spin_step m m'" "lock_inv m" "cli_inv m"
  shows "lock_inv m' \<and> cli_inv m'"
  using assms
proof (induction rule: spin_step.induct)
  case (acq_enter m c l m')
  have m': "m' = goto c (Spin l) (upd_cpu c (pushcli (cpus m c)) m)" using acq_enter(2) by (auto simp: acquire_enter_def Let_def split: if_splits)
  have "cli_inv m'" by (rule cli_inv_upd [OF acq_enter(4), of c]) (use cli_invD [OF acq_enter(4), of c] acq_enter(1) in \<open>simp_all add: m' upd_defs\<close>)
  then show ?case using lock_inv_enter acq_enter by blast
next
  case (acq_xchg m c l)
  have "cli_inv (acquire_xchg c l m)" by (rule cli_inv_upd [of m c]) (use acq_xchg cli_invD [of m c] in \<open>auto simp: acquire_xchg_def xchg_locked_def upd_defs Let_def\<close>)
  then show ?case using lock_inv_xchg acq_xchg by blast
next
  case (acq_record m c l)
  have n: "l \<notin> crit m c" using lock_invD(3) [OF acq_record(2), of l c] acq_record(1) by auto
  have "cli_inv (acquire_record c l m)" by (rule cli_inv_upd [of m c]) (use acq_record n cli_invD [of m c] in \<open>auto simp: acquire_record_def upd_defs\<close>)
  then show ?case using lock_inv_record acq_record by blast
next
  case (rel_enter m c l m')
  then have h: "l \<in> crit m c" using holding_owner [of m c l] by (auto simp: release_enter_def split: if_splits)
  then have n: "0 < card (crit m c)" using cli_invD(1) [OF rel_enter(4), of c] by (auto simp: card_gt_0_iff)
  have "cli_inv m'" by (rule cli_inv_upd [of m c m']) (use rel_enter h n cli_invD [of m c] in \<open>auto simp: release_enter_def upd_defs card_Diff_singleton split: if_splits\<close>)
  then show ?case using lock_inv_release rel_enter by blast
next
  case (rel_clear m c l)
  have "cli_inv (release_clear c l m)" by (rule cli_inv_upd [of m c]) (use rel_clear cli_invD [of m c] in \<open>auto simp: release_clear_def upd_defs\<close>)
  then show ?case using lock_inv_clear rel_clear by blast
next
  case (rel_unlock m c l)
  have "cli_inv (release_unlock c l m)" by (rule cli_inv_upd [of m c]) (use rel_unlock cli_invD [of m c] in \<open>auto simp: release_unlock_def upd_defs\<close>)
  then show ?case using lock_inv_unlock rel_unlock by blast
next
  case (rel_pop m c m')
  then obtain cp where cp: "popcli (cpus m c) = Some cp" "m' = goto c Out (upd_cpu c cp m)"
    by (auto simp: release_pop_def bind_eq_Some_conv)
  have "cli_inv m'" by (rule cli_inv_upd [of m c]) (use rel_pop cli_invD [of m c] popcli_post [OF cp(1)] in \<open>auto simp: cp(2) upd_defs\<close>)
  moreover have "lock_inv m'" by (rule lock_inv_same [OF rel_pop(3)]) (use rel_pop(1) in \<open>auto simp: cp(2) upd_defs\<close>)
  ultimately show ?case by blast
next
  case (push m c)
  let ?m = "(upd_cpu c (pushcli (cpus m c)) m)\<lparr>nest := (nest m)(c := nest m c + 1)\<rparr>"
  have "cli_inv ?m" by (rule cli_inv_upd [of m c]) (use push cli_invD [of m c] in \<open>auto simp: upd_defs\<close>)
  moreover have "lock_inv ?m" by (rule lock_inv_same [OF push(2)]) (auto simp: upd_defs)
  ultimately show ?case by blast
next
  case (pop m c cp)
  let ?m = "(upd_cpu c cp m)\<lparr>nest := (nest m)(c := nest m c - 1)\<rparr>"
  have "cli_inv ?m" by (rule cli_inv_upd [of m c]) (use pop cli_invD [of m c] popcli_post [OF pop(3)] in \<open>auto simp: upd_defs\<close>)
  moreover have "lock_inv ?m" by (rule lock_inv_same [OF pop(4)]) (auto simp: upd_defs)
  ultimately show ?case by blast
next
  case (set_if m c b)
  have "cli_inv (upd_cpu c ((cpus m c)\<lparr>eflags_if := b\<rparr>) m)" by (rule cli_inv_upd [of m c]) (use set_if cli_invD [of m c] in \<open>auto simp: upd_defs\<close>)
  moreover have "lock_inv (upd_cpu c ((cpus m c)\<lparr>eflags_if := b\<rparr>) m)" by (rule lock_inv_same [OF set_if(3)]) (auto simp: upd_defs)
  ultimately show ?case by blast
next
  case (set_intena m c b)
  have "cli_inv (upd_cpu c ((cpus m c)\<lparr>intena := b\<rparr>) m)" by (rule cli_inv_upd [of m c]) (use set_intena cli_invD [of m c] in \<open>auto simp: upd_defs\<close>)
  moreover have "lock_inv (upd_cpu c ((cpus m c)\<lparr>intena := b\<rparr>) m)" by (rule lock_inv_same [OF set_intena(2)]) (auto simp: upd_defs)
  ultimately show ?case by blast
qed

lemma spin_reach_inv: "spin_reach m \<Longrightarrow> lock_inv m \<and> cli_inv m"
proof (induction rule: spin_reach.induct)
  case boot
  show ?case by (auto simp: spin_boot_def lock_inv_def cli_inv_def owner_def initlock_def)
qed (use spin_step_inv in blast)

text \<open>C12. Spin locks exclude: whatever the processors do and however their steps are interleaved, no two of them are between \<^verbatim>\<open>acquire\<close> and
  \<^verbatim>\<open>release\<close> of one lock, and a processor there has interrupts off; \<^verbatim>\<open>holding\<close> tells exactly whether the processor that asks holds the
  lock, so \<^verbatim>\<open>acquire\<close> panics only on a lock its own processor holds and \<^verbatim>\<open>release\<close> only on one it does not hold; the \<^verbatim>\<open>popcli\<close> of
  \<^verbatim>\<open>release\<close> does not panic; and a processor that spins on a lock nobody owns gets it with its next exchange.\<close>

theorem spinlock_mutex:
  assumes "spin_reach m"
  shows "(\<forall>l c d. l \<in> crit m c \<and> l \<in> crit m d \<longrightarrow> c = d)
    \<and> (\<forall>l c. l \<in> crit m c \<longrightarrow> \<not> eflags_if (cpus m c))
    \<and> (\<forall>l c. pcs m c = Out \<longrightarrow> (holding c (lks m l) \<longleftrightarrow> l \<in> crit m c))
    \<and> (\<forall>l c. pcs m c = Out \<longrightarrow> (acquire_enter c l m = None \<longleftrightarrow> l \<in> crit m c) \<and> (release_enter c l m = None \<longleftrightarrow> l \<notin> crit m c))
    \<and> (\<forall>c. pcs m c = Pop \<longrightarrow> release_pop c m \<noteq> None)
    \<and> (\<forall>l c. pcs m c = Spin l \<longrightarrow> (\<forall>d. \<not> owner m l d) \<longrightarrow> pcs (acquire_xchg c l m) c = Won l)"
proof -
  have L: "lock_inv m" and C: "cli_inv m" using spin_reach_inv [OF assms] by auto
  have h: "holding c (lks m l) \<longleftrightarrow> l \<in> crit m c" if "pcs m c = Out" for l c using holding_owner [OF L, of c l] that by simp
  have "\<not> eflags_if (cpus m c)" if "l \<in> crit m c" for l c
  proof -
    have "0 < card (crit m c)" using cli_invD(1) [OF C, of c] that by (auto simp: card_gt_0_iff)
    then show ?thesis using cli_invD(2,3) [OF C, of c] by simp
  qed
  moreover have "release_pop c m \<noteq> None" if "pcs m c = Pop" for c
    using cli_invD(2,3) [OF C, of c] that by (simp add: release_pop_def popcli_def Let_def)
  moreover have "c = d" if "l \<in> crit m c" "l \<in> crit m d" for l c d using lock_invD(1) [OF L, of l c d] that by (simp add: owner_def)
  moreover have "pcs (acquire_xchg c l m) c = Won l" if "\<forall>d. \<not> owner m l d" for l c
    using that lock_invD(2) [OF L, of l] by (simp add: acquire_xchg_def xchg_locked_def upd_defs Let_def)
  moreover have "acquire_enter c l m = None \<longleftrightarrow> l \<in> crit m c" "release_enter c l m = None \<longleftrightarrow> l \<notin> crit m c" if "pcs m c = Out" for l c
    using h [OF that] by (simp_all add: acquire_enter_def release_enter_def upd_defs Let_def)
  ultimately show ?thesis using h by blast
qed

theorem spinlock_mutex_witness:
  "\<exists>m. spin_reach m \<and> 7 \<in> crit m 0 \<and> pcs m 1 = Spin 7 \<and> 7 \<notin> crit m 1 \<and> \<not> eflags_if (cpus m 0)"
proof -
  let ?m1 = "goto 0 (Spin 7) (upd_cpu 0 (pushcli (cpus spin_boot 0)) spin_boot)"
  let ?m2 = "acquire_xchg 0 7 ?m1"
  let ?m3 = "acquire_record 0 7 ?m2"
  let ?m4 = "goto 1 (Spin 7) (upd_cpu 1 (pushcli (cpus ?m3 1)) ?m3)"
  note defs = acquire_enter_def acquire_xchg_def xchg_locked_def acquire_record_def upd_defs spin_boot_def initlock_def holding_def
  have "spin_step spin_boot ?m1" by (rule acq_enter [of _ 0 7]) (simp_all add: defs)
  moreover have "spin_step ?m1 ?m2" by (rule acq_xchg) (simp add: defs)
  moreover have "spin_step ?m2 ?m3" by (rule acq_record) (simp add: defs)
  moreover have "spin_step ?m3 ?m4" by (rule acq_enter [of _ 1 7]) (simp_all add: defs)
  ultimately obtain m where r: "spin_reach m" "m = ?m4" using spin_reach.intros by blast
  have m: "7 \<in> crit m 0" "pcs m 1 = Spin 7" unfolding r(2) by (simp_all add: defs)
  have "(0 :: nat) \<noteq> 1" by simp
  then have "7 \<notin> crit m 1 \<and> \<not> eflags_if (cpus m 0)" using spinlock_mutex [OF r(1)] m(1) by blast
  then show ?thesis using r(1) m by blast
qed

end
