(* ===== verification/Xv6_Mkfs.thy ===== *)
theory Xv6_Mkfs
  imports Xv6_FsSpec
begin

text \<open>
  The program \<^verbatim>\<open>mkfs.c\<close>, which builds the image of a file system from a list of files. It writes the same format
  that the kernel and the file server read, so the image is judged by the meaning of blocks in \<^verbatim>\<open>Xv6_FsSpec\<close>.

  The state is the image as a list of blocks and the two counters. Reading behind the end of the image, and an assertion that fails,
  end the program: the value \<open>None\<close>. A file of the host is its name and the list of what the calls of \<^verbatim>\<open>read\<close> return
  before the one that returns 0. The host is little-endian, so that \<^verbatim>\<open>xint\<close> and \<^verbatim>\<open>xshort\<close> are the identity; messages are left out.
\<close>

abbreviation (input) FSSIZE :: nat where "FSSIZE \<equiv> 1000"
abbreviation (input) NINODES :: nat where "NINODES \<equiv> 200"

record mkst =
  img :: "block list"
  freeinode :: u32
  freeblock :: u32

section \<open>Layout\<close>

abbreviation (input) nbitmap :: nat where "nbitmap \<equiv> FSSIZE div (BSIZE * 8) + 1"
abbreviation (input) ninodeblocks :: nat where "ninodeblocks \<equiv> NINODES div IPB + 1"
abbreviation (input) nlog :: nat where "nlog \<equiv> 30"
abbreviation (input) nmeta :: nat where "nmeta \<equiv> 2 + nlog + ninodeblocks + nbitmap"

definition mkfs_sb :: superblock where
  "mkfs_sb = \<lparr>sb_size = of_nat FSSIZE, sb_nblocks = of_nat (FSSIZE - nmeta), sb_ninodes = of_nat NINODES, sb_nlog = of_nat nlog,
     sb_logstart = 2, sb_inodestart = of_nat (2 + nlog), sb_bmapstart = of_nat (2 + nlog + ninodeblocks)\<rparr>"

section \<open>Sectors and inodes\<close>

text \<open>The offset \<^verbatim>\<open>sec * BSIZE\<close> is an unsigned int. Writing behind the end of the file leaves a hole.\<close>

definition sector :: "u32 \<Rightarrow> nat" where
  "sector sec = unat (sec * 512) div BSIZE"

definition wsect :: "u32 \<Rightarrow> block \<Rightarrow> mkst \<Rightarrow> mkst" where
  "wsect sec buf s =
     (let i = sector sec in
      s\<lparr>img := if i < length (img s) then (img s)[i := buf] else img s @ replicate (i - length (img s)) zero_block @ [buf]\<rparr>)"

definition rsect :: "u32 \<Rightarrow> mkst \<Rightarrow> block option" where
  "rsect sec s = (if sector sec < length (img s) then Some (img s ! sector sec) else None)"

definition winode :: "u32 \<Rightarrow> dinode \<Rightarrow> mkst \<Rightarrow> mkst option" where
  "winode inum ip s = do {
     let bn = IBLOCK inum mkfs_sb;
     buf \<leftarrow> rsect bn s;
     Some (wsect bn (put_dinode (unat (inum mod 8)) ip buf) s)
   }"

definition rinode :: "u32 \<Rightarrow> mkst \<Rightarrow> dinode option" where
  "rinode inum s = do {
     let bn = IBLOCK inum mkfs_sb;
     buf \<leftarrow> rsect bn s;
     Some (get_dinode (unat (inum mod 8)) buf)
   }"

definition mkfs_ialloc :: "u16 \<Rightarrow> mkst \<Rightarrow> (u32 \<times> mkst) option" where
  "mkfs_ialloc type s = do {
     let inum = freeinode s;
     s \<leftarrow> winode inum (zero_dinode\<lparr>di_type := type, di_nlink := 1, di_size := 0\<rparr>) (s\<lparr>freeinode := inum + 1\<rparr>);
     Some (inum, s)
   }"

definition mkfs_bitmap :: "nat \<Rightarrow> block" where
  "mkfs_bitmap used = foldl (\<lambda>buf i. bm_set i buf) zero_block [0..<used]"

definition mkfs_balloc :: "u32 \<Rightarrow> mkst \<Rightarrow> mkst option" where
  "mkfs_balloc used s =
     (if unat used < BSIZE * 8 then Some (wsect (sb_bmapstart mkfs_sb) (mkfs_bitmap (unat used)) s) else None)"

section \<open>Appending to a file\<close>

definition take_block :: "mkst \<Rightarrow> u32 \<times> mkst" where
  "take_block s = (freeblock s, s\<lparr>freeblock := freeblock s + 1\<rparr>)"

definition iappend_block :: "nat \<Rightarrow> dinode \<Rightarrow> mkst \<Rightarrow> (u32 \<times> dinode \<times> mkst) option" where
  "iappend_block fbn din s =
     (if fbn < NDIRECT then
        let (din, s) =
          (if di_addrs din ! fbn = 0 then
             let (b, s) = take_block s in (din\<lparr>di_addrs := (di_addrs din)[fbn := b]\<rparr>, s)
           else (din, s))
        in Some (di_addrs din ! fbn, din, s)
      else do {
        let (din, s) =
          (if di_addrs din ! NDIRECT = 0 then
             let (b, s) = take_block s in (din\<lparr>di_addrs := (di_addrs din)[NDIRECT := b]\<rparr>, s)
           else (din, s));
        indirect \<leftarrow> rsect (di_addrs din ! NDIRECT) s;
        let (indirect, s) =
          (if get_addr (fbn - NDIRECT) indirect = 0 then
             let (b, s) = take_block s;
                 indirect = put_addr (fbn - NDIRECT) b indirect
             in (indirect, wsect (di_addrs din ! NDIRECT) indirect s)
           else (indirect, s));
        Some (get_addr (fbn - NDIRECT) indirect, din, s)
      })"

function iappend_loop :: "dinode \<Rightarrow> nat \<Rightarrow> byte list \<Rightarrow> mkst \<Rightarrow> (dinode \<times> nat \<times> mkst) option" where
  "iappend_loop din off p s =
     (if p = [] then Some (din, off, s)
      else let fbn = off div BSIZE in
        if \<not> fbn < MAXFILE then None
        else do {
          (x, din, s) \<leftarrow> iappend_block fbn din s;
          let n1 = min (length p) ((fbn + 1) * BSIZE - off);
          buf \<leftarrow> rsect x s;
          let s = wsect x (blit (off - fbn * BSIZE) (take n1 p) buf) s;
          iappend_loop din (off + n1) (drop n1 p) s
        })"
  by pat_completeness auto
termination
proof (relation "measure (\<lambda>(din, off, p, s). length p)")
  fix off :: nat and p :: "byte list" and d d' :: dinode and s s' :: mkst and fbn n1 :: nat
  assume "p \<noteq> []" "fbn = off div BSIZE" "n1 = min (length p) ((fbn + 1) * BSIZE - off)"
  moreover have "off div BSIZE * BSIZE + off mod BSIZE = off" "off mod BSIZE < BSIZE" by simp_all
  ultimately have "0 < n1" by simp
  then show "((d', off + n1, drop n1 p, s'), d, off, p, s) \<in> measure (\<lambda>(din, off, p, s). length p)" using \<open>p \<noteq> []\<close> by simp
qed auto

declare iappend_loop.simps [simp del]

definition iappend :: "u32 \<Rightarrow> byte list \<Rightarrow> mkst \<Rightarrow> mkst option" where
  "iappend inum p s = do {
     din \<leftarrow> rinode inum s;
     (din, off, s) \<leftarrow> iappend_loop din (unat (di_size din)) p s;
     winode inum (din\<lparr>di_size := of_nat off\<rparr>) s
   }"

section \<open>The program\<close>

definition entry_for :: "u32 \<Rightarrow> byte list \<Rightarrow> byte list" where
  "entry_for inum name = encode_dirent \<lparr>de_inum = ucast inum, de_name = take DIRSIZ (name @ replicate DIRSIZ 0)\<rparr>"

fun iappend_all :: "u32 \<Rightarrow> byte list list \<Rightarrow> mkst \<Rightarrow> mkst option" where
  "iappend_all inum [] s = Some s"
| "iappend_all inum (buf # bufs) s = do { s \<leftarrow> iappend inum buf s; iappend_all inum bufs s }"

definition skip_underscore :: "byte list \<Rightarrow> byte list" where
  "skip_underscore name = (case name of c # cs \<Rightarrow> if c = 95 then cs else name | [] \<Rightarrow> [])"

fun mkfs_files :: "(byte list \<times> byte list list) list \<Rightarrow> u32 \<Rightarrow> mkst \<Rightarrow> mkst option" where
  "mkfs_files [] rootino s = Some s"
| "mkfs_files ((name, bufs) # fs) rootino s =
     (if 47 \<in> set name then None
      else do {
        (inum, s) \<leftarrow> mkfs_ialloc T_FILE s;
        s \<leftarrow> iappend rootino (entry_for inum (skip_underscore name)) s;
        s \<leftarrow> iappend_all inum bufs s;
        mkfs_files fs rootino s
      })"

definition mkfs_empty :: mkst where
  "mkfs_empty = fold (\<lambda>i. wsect (of_nat i) zero_block) [0..<FSSIZE] \<lparr>img = [], freeinode = 1, freeblock = of_nat nmeta\<rparr>"

definition mkfs_main :: "(byte list \<times> byte list list) list \<Rightarrow> mkst option" where
  "mkfs_main fs = do {
     let s = wsect 1 (blit 0 (encode_sb mkfs_sb) zero_block) mkfs_empty;
     (rootino, s) \<leftarrow> mkfs_ialloc T_DIR s;
     s \<leftarrow> (if rootino = ROOTINO then Some s else None);
     s \<leftarrow> iappend rootino (entry_for rootino [46]) s;
     s \<leftarrow> iappend rootino (entry_for rootino [46, 46]) s;
     s \<leftarrow> mkfs_files fs rootino s;
     din \<leftarrow> rinode rootino s;
     s \<leftarrow> winode rootino (din\<lparr>di_size := (di_size din div 512 + 1) * 512\<rparr>) s;
     mkfs_balloc (freeblock s) s
   }"

end
