(* ===== verification/Xv6_Image.thy ===== *)
theory Xv6_Image
  imports Xv6_Mkfs
begin

text \<open>
  The image that \<^verbatim>\<open>mkfs\<close> builds is a well-formed file system that contains the files it was given. While it is being built
  the bitmap is not on the image yet; \<open>view\<close> is the image with the bitmap that \<^verbatim>\<open>balloc\<close> would write now, so that taking
  the next free block is an allocation in the sense of \<^verbatim>\<open>Xv6_FsSpec\<close>, and its lemmas on files apply.
\<close>

section \<open>The layout\<close>

lemma mkfs_sb_simps [simp]:
  "sb_size mkfs_sb = 1000" "sb_ninodes mkfs_sb = 200" "sb_inodestart mkfs_sb = 32" "sb_bmapstart mkfs_sb = 58"
  by (simp_all add: mkfs_sb_def)

lemma mkfs_sb_ok [simp]: "sb_ok mkfs_sb"
  by (simp add: sb_ok_def)

lemma mkfs_data_block: "data_block mkfs_sb b \<longleftrightarrow> 59 \<le> unat b \<and> unat b < FSSIZE"
  by (simp add: data_block_def)

lemma mkfs_bitmap_block: "bitmap_block mkfs_sb b \<longleftrightarrow> b = 58"
proof -
  have "bitmap_block mkfs_sb b \<longleftrightarrow> unat b = unat (58 :: u32)" by (auto simp: bitmap_block_def)
  then show ?thesis by (simp only: word_unat_eq_iff)
qed

lemma mkfs_BBLOCK: "unat b < FSSIZE \<Longrightarrow> BBLOCK b mkfs_sb = 58"
  using bitmap_BBLOCK [of mkfs_sb b] by (simp add: mkfs_bitmap_block)

lemma sector_id: "unat b < FSSIZE \<Longrightarrow> sector b = unat b"
  by (simp add: sector_def unat_word_ariths(2))

lemma length_mkfs_bitmap [simp]: "length (mkfs_bitmap n) = BSIZE"
  unfolding mkfs_bitmap_def by (induction n) simp_all

lemma mkfs_bitmap_Suc: "mkfs_bitmap (Suc n) = bm_set n (mkfs_bitmap n)"
  by (simp add: mkfs_bitmap_def)

lemma bm_free_mkfs_bitmap: "n \<le> 4096 \<Longrightarrow> i < 4096 \<Longrightarrow> bm_free i (mkfs_bitmap n) \<longleftrightarrow> n \<le> i"
proof (induction n)
  case 0
  then show ?case by (simp add: mkfs_bitmap_def bm_free_def)
next
  case (Suc n)
  then have "n div 8 < length (mkfs_bitmap n)" by (simp add: div_less_iff_less_mult)
  then show ?case using Suc bm_free_set [of n "mkfs_bitmap n" i] by (auto simp: mkfs_bitmap_Suc)
qed

section \<open>The image as it would be read now\<close>

definition view :: "mkst \<Rightarrow> u32 \<Rightarrow> block" where
  "view s b = (if b = 58 then mkfs_bitmap (unat (freeblock s)) else img s ! unat b)"

definition image_ok :: "mkst \<Rightarrow> bool" where
  "image_ok s \<longleftrightarrow> length (img s) = FSSIZE \<and> (\<forall>b \<in> set (img s). length b = BSIZE) \<and> 59 \<le> unat (freeblock s) \<and> unat (freeblock s) \<le> FSSIZE
     \<and> (\<forall>i. unat (freeblock s) \<le> i \<longrightarrow> i < FSSIZE \<longrightarrow> img s ! i = zero_block)"

lemma image_okD:
  assumes "image_ok s"
  shows "length (img s) = FSSIZE" "i < FSSIZE \<Longrightarrow> length (img s ! i) = BSIZE" "59 \<le> unat (freeblock s)" "unat (freeblock s) \<le> FSSIZE"
    "unat (freeblock s) \<le> i \<Longrightarrow> i < FSSIZE \<Longrightarrow> img s ! i = zero_block"
  using assms by (auto simp: image_ok_def)

lemma length_view: "image_ok s \<Longrightarrow> unat b < FSSIZE \<Longrightarrow> length (view s b) = BSIZE"
  by (simp add: view_def image_okD(2))

lemma view_allocated: "image_ok s \<Longrightarrow> unat b < FSSIZE \<Longrightarrow> allocated mkfs_sb (view s) b \<longleftrightarrow> unat b < unat (freeblock s)"
  using bm_free_mkfs_bitmap [of "unat (freeblock s)" "unat b"] image_okD(4) [of s]
  by (auto simp: allocated_def mkfs_BBLOCK view_def)

lemma view_meta: "image_ok s \<Longrightarrow> meta_allocated mkfs_sb (view s)"
  using image_okD(3) [of s] by (auto simp: meta_allocated_def mkfs_data_block view_allocated)

lemma rsect_view: "image_ok s \<Longrightarrow> unat b < FSSIZE \<Longrightarrow> b \<noteq> 58 \<Longrightarrow> rsect b s = Some (view s b)"
  by (simp add: rsect_def sector_id image_okD(1) view_def)

lemma unat_neq: "(b :: u32) \<noteq> c \<Longrightarrow> unat b \<noteq> unat c"
  by (metis unsigned_word_eqI)

lemma wsect_view:
  assumes "image_ok s" "unat b < FSSIZE" "b \<noteq> 58" "length y = BSIZE" "unat b < unat (freeblock s)"
  shows "view (wsect b y s) = (view s)(b := y)" "image_ok (wsect b y s)" "freeblock (wsect b y s) = freeblock s" "freeinode (wsect b y s) = freeinode s"
proof -
  note D = image_okD [OF assms(1)]
  have w: "img (wsect b y s) = (img s)[unat b := y]" using assms(2) D(1) by (simp add: wsect_def sector_id)
  show f: "freeblock (wsect b y s) = freeblock s" "freeinode (wsect b y s) = freeinode s" by (simp_all add: wsect_def Let_def)
  show "view (wsect b y s) = (view s)(b := y)"
  proof
    fix c
    show "view (wsect b y s) c = ((view s)(b := y)) c"
      using assms(2,3) D(1) w f unat_neq [of c b] by (cases "c = b") (simp_all add: view_def)
  qed
  show "image_ok (wsect b y s)" using assms D w f by (auto simp: image_ok_def nth_list_update in_set_conv_nth)
qed

lemma take_block_view:
  assumes "image_ok s" "unat (freeblock s) < FSSIZE" "take_block s = (b, t)"
  shows "view t = alloc_block mkfs_sb (view s) b" "image_ok t" "data_block mkfs_sb b" "\<not> allocated mkfs_sb (view s) b"
    "unat (freeblock t) = unat (freeblock s) + 1" "freeinode t = freeinode s" "unat b = unat (freeblock s)"
proof -
  note D = image_okD [OF assms(1)]
  have b: "b = freeblock s" "t = s\<lparr>freeblock := freeblock s + 1\<rparr>" using assms(3) by (auto simp: take_block_def)
  show u: "unat (freeblock t) = unat (freeblock s) + 1" using assms(2) b by (simp add: unat_word_ariths(1))
  show "data_block mkfs_sb b" using D(3) assms(2) b by (simp add: mkfs_data_block)
  show "\<not> allocated mkfs_sb (view s) b" using view_allocated [OF assms(1), of b] assms(2) b by simp
  show "image_ok t" using assms(1,2) u b(2) by (auto simp: image_ok_def)
  have n: "b \<noteq> 58" using D(3) b(1) by auto
  show "view t = alloc_block mkfs_sb (view s) b"
  proof
    fix c
    show "view t c = alloc_block mkfs_sb (view s) b c"
      using D(5) [of "unat b"] assms(2) n u b by (auto simp: view_def alloc_block_def mkfs_BBLOCK mkfs_bitmap_Suc)
  qed
qed (use assms in \<open>auto simp: take_block_def\<close>)

section \<open>The block of a file at an offset\<close>

text \<open>
  What \<^verbatim>\<open>iappend\<close> does to find block \<open>k\<close> of a file: \<open>n\<close> new blocks are taken, slot \<open>k\<close> is not empty afterwards, and the bytes of the
  file are as before.
\<close>

definition grown :: "mkst \<Rightarrow> u32 list \<Rightarrow> mkst \<Rightarrow> u32 list \<Rightarrow> nat set \<Rightarrow> nat \<Rightarrow> bool" where
  "grown s A s' A' K n \<longleftrightarrow> image_ok s' \<and> evolves mkfs_sb (view s) A (view s') A'
     \<and> (\<forall>y < MAXFILE * BSIZE. file_byte (view s') A' y = file_byte (view s) A y)
     \<and> (\<forall>j \<le> MAXFILE. slot (view s') A' j \<noteq> 0 \<longleftrightarrow> slot (view s) A j \<noteq> 0 \<or> j \<in> K)
     \<and> unat (freeblock s') = unat (freeblock s) + n \<and> freeinode s' = freeinode s"

lemma grown_refl:
  assumes "image_ok s" "file_ok mkfs_sb (view s) A" "\<And>j. j \<in> K \<Longrightarrow> slot (view s) A j \<noteq> 0"
  shows "grown s A s A K 0"
  using assms evolves_refl [OF assms(2) view_meta] by (auto simp: grown_def)

lemma grown_trans:
  assumes "grown s A t B K n" "grown t B u C L m" "file_ok mkfs_sb (view s) A"
  shows "grown s A u C (K \<union> L) (n + m)"
  using assms evolves_trans [of mkfs_sb "view s" A "view t" B "view u" C] by (auto simp: grown_def)

lemma take_block_grown:
  assumes s: "image_ok s" "file_ok mkfs_sb (view s) A" "unat (freeblock s) < FSSIZE" "take_block s = (b, t)"
  shows "k < NDIRECT \<Longrightarrow> A ! k = 0 \<Longrightarrow> grown s A t (A[k := b]) {k} 1"
    "A ! NDIRECT = 0 \<Longrightarrow> grown s A t (A[NDIRECT := b]) {MAXFILE} 1" "b \<noteq> 0"
proof -
  note T = take_block_view [OF s(1,3,4)] and m = view_meta [OF s(1)]
  have len: "length (view s (BBLOCK b mkfs_sb)) = BSIZE" using length_view [OF s(1), of 58] s(3) T(7) by (simp add: mkfs_BBLOCK)
  show b: "b \<noteq> 0" using T(3) by (rule data_block_nonzero)
  show "grown s A t (A[k := b]) {k} 1" if "k < NDIRECT" "A ! k = 0"
    using hook_direct [OF mkfs_sb_ok s(2) m T(3,4) len that] T(2,5,6) b unfolding T(1) [symmetric] by (auto simp: grown_def)
  show "grown s A t (A[NDIRECT := b]) {MAXFILE} 1" if "A ! NDIRECT = 0"
    using hook_indirect_block [OF mkfs_sb_ok s(2) m T(3,4) len that] T(2,5,6) b unfolding T(1) [symmetric] by (auto simp: grown_def)
qed

lemma indirect_grown:
  assumes s: "image_ok s" "file_ok mkfs_sb (view s) (di_addrs din)" and i: "di_addrs din ! NDIRECT \<noteq> 0" and k: "NDIRECT \<le> k" "k < MAXFILE"
    and cap: "slot (view s) (di_addrs din) k = 0 \<Longrightarrow> unat (freeblock s) < FSSIZE"
  shows "\<exists>x s'. iappend_block k din s = Some (x, din, s') \<and> slot (view s') (di_addrs din) k = x
    \<and> grown s (di_addrs din) s' (di_addrs din) {k} (if slot (view s) (di_addrs din) k = 0 then 1 else 0)"
proof -
  let ?A = "di_addrs din" and ?i = "di_addrs din ! NDIRECT" and ?j = "k - NDIRECT"
  have d: "data_block mkfs_sb ?i" using file_okD(2) [OF s(2), of MAXFILE] slot_simps(2) [of "view s" ?A] i by simp
  have ib: "unat ?i < FSSIZE" "?i \<noteq> 58" "unat ?i < unat (freeblock s)"
    using d file_okD(3) [OF s(2), of MAXFILE] slot_simps(2) [of "view s" ?A] i view_allocated [OF s(1), of ?i] by (auto simp: mkfs_data_block)
  have r: "rsect ?i s = Some (view s ?i)" by (rule rsect_view [OF s(1) ib(1,2)])
  have sl: "slot v ?A k = get_addr ?j (v ?i)" for v using i k by (simp add: slot_def)
  show ?thesis
  proof (cases "slot (view s) ?A k = 0")
    case False
    then have "iappend_block k din s = Some (slot (view s) ?A k, din, s)" using k i r sl by (simp add: iappend_block_def)
    moreover have "grown s ?A s ?A {k} 0" by (rule grown_refl [OF s]) (use False in simp)
    ultimately show ?thesis using False by auto
  next
    case True
    obtain b t where t: "take_block s = (b, t)" by fastforce
    note T = take_block_view [OF s(1) cap [OF True] t]
    let ?y = "put_addr ?j b (view s ?i)" and ?u = "wsect ?i (put_addr ?j b (view s ?i)) t"
    have ly: "length (view s ?i) = BSIZE" "length ?y = BSIZE" using length_view [OF s(1) ib(1)] k by simp_all
    have lb: "length (view s (BBLOCK b mkfs_sb)) = BSIZE" using length_view [OF s(1), of 58] cap [OF True] T(7) by (simp add: mkfs_BBLOCK)
    note W = wsect_view [OF T(2) ib(1,2) ly(2)]
    have ft: "unat ?i < unat (freeblock t)" using ib(3) T(5) by simp
    have v: "view ?u = (alloc_block mkfs_sb (view s) b)(?i := ?y)" using W(1) [OF ft] T(1) by simp
    have g: "get_addr ?j (view s ?i) = 0" "?j < NINDIRECT" using True sl k by auto
    note H = hook_indirect [OF mkfs_sb_ok s(2) view_meta [OF s(1)] T(3,4) lb ly(1) g(2) i g(1), folded v]
    have run: "iappend_block k din s = Some (b, din, ?u)"
      using k i r g t get_put_addr_same [OF g(2) ly(1), of b] by (simp add: iappend_block_def Let_def)
    have "b \<noteq> 0" using T(3) by (rule data_block_nonzero)
    then have "grown s ?A ?u ?A {k} 1"
      using H(1,2,4) W(2,3,4) [OF ft] T(5,6) k by (auto simp: grown_def)
    then show ?thesis using run H(3) k True by auto
  qed
qed

text \<open>A file of \<open>n\<close> blocks, and the number of blocks it takes with its indirect block.\<close>

definition filled :: "(u32 \<Rightarrow> block) \<Rightarrow> u32 list \<Rightarrow> nat \<Rightarrow> bool" where
  "filled v A n \<longleftrightarrow> (\<forall>k < MAXFILE. slot v A k \<noteq> 0 \<longleftrightarrow> k < n) \<and> (slot v A MAXFILE \<noteq> 0 \<longleftrightarrow> NDIRECT < n)"

definition blocks_of :: "nat \<Rightarrow> nat" where
  "blocks_of n = n + (if NDIRECT < n then 1 else 0)"

lemma iappend_block_post:
  assumes s: "image_ok s" "file_ok mkfs_sb (view s) (di_addrs din)" and f: "filled (view s) (di_addrs din) n" and k: "k \<le> n" "k < MAXFILE"
    and cap: "unat (freeblock s) + blocks_of (max n (Suc k)) \<le> FSSIZE + blocks_of n"
  shows "\<exists>x A' s'. iappend_block k din s = Some (x, din\<lparr>di_addrs := A'\<rparr>, s') \<and> slot (view s') A' k = x \<and> x \<noteq> 0
    \<and> (\<exists>K m. grown s (di_addrs din) s' A' K m \<and> m + blocks_of n = blocks_of (max n (Suc k))) \<and> filled (view s') A' (max n (Suc k))"
proof -
  let ?A = "di_addrs din"
  have sl: "slot (view s) ?A j \<noteq> 0 \<longleftrightarrow> j < n" if "j < MAXFILE" for j using f that by (simp add: filled_def)
  have si: "?A ! NDIRECT \<noteq> 0 \<longleftrightarrow> NDIRECT < n" using f slot_simps(2) [of "view s" ?A] by (simp add: filled_def)
  have fill: "filled (view s') A' (max n (Suc k)) \<and> slot (view s') A' k \<noteq> 0"
    if "grown s ?A s' A' K m" "k \<in> K" "K \<subseteq> {k, MAXFILE}" "MAXFILE \<in> K \<longrightarrow> NDIRECT < max n (Suc k)" "NDIRECT < max n (Suc k) \<longrightarrow> NDIRECT < n \<or> MAXFILE \<in> K" for s' A' K m
  proof -
    have "slot (view s') A' j \<noteq> 0 \<longleftrightarrow> j < max n (Suc k)" if "j < MAXFILE" for j
    proof -
      have "j < max n (Suc k) \<longleftrightarrow> j < n \<or> j = k" using k(1) by auto
      then show ?thesis using \<open>grown s ?A s' A' K m\<close> \<open>k \<in> K\<close> \<open>K \<subseteq> {k, MAXFILE}\<close> that sl [OF that] by (auto simp: grown_def)
    qed
    moreover have "slot (view s') A' MAXFILE \<noteq> 0 \<longleftrightarrow> NDIRECT < max n (Suc k)"
      using that f by (auto simp: grown_def filled_def)
    ultimately show ?thesis using k(2) by (simp add: filled_def)
  qed
  show ?thesis
  proof (cases "k < NDIRECT")
    case dir: True
    then have sk: "slot v ?A k = ?A ! k" for v by (simp add: slot_def)
    show ?thesis
    proof (cases "k < n")
      case True
      then have nz: "?A ! k \<noteq> 0" using sl [OF k(2)] sk by simp
      have g: "grown s ?A s ?A {k} 0" by (rule grown_refl [OF s]) (use nz sk in simp)
      have run: "iappend_block k din s = Some (?A ! k, din\<lparr>di_addrs := ?A\<rparr>, s)" using dir nz by (simp add: iappend_block_def)
      have mx: "max n (Suc k) = n" using True by simp
      show ?thesis unfolding mx using run g f nz sk by (intro exI conjI) auto
    next
      case False
      then have n: "k = n" "?A ! k = 0" using k(1) sl [OF k(2)] sk by auto
      obtain b t where t: "take_block s = (b, t)" by fastforce
      have c: "unat (freeblock s) < FSSIZE" using cap n(1) dir by (simp add: blocks_of_def split: if_splits)
      note G = take_block_grown [OF s c t]
      have len: "length ?A = NDIRECT + 1" by (rule file_okD(1) [OF s(2)])
      have g: "grown s ?A t (?A[k := b]) {k} 1" by (rule G(1) [OF dir n(2)])
      have sb: "slot v (?A[k := b]) k = b" for v using dir len by (simp add: slot_def)
      have run: "iappend_block k din s = Some (b, din\<lparr>di_addrs := ?A[k := b]\<rparr>, t)" using dir n(2) t len by (simp add: iappend_block_def)
      have "1 + blocks_of n = blocks_of (max n (Suc k))" using n(1) dir by (simp add: blocks_of_def)
      then show ?thesis using run g fill [OF g] sb G(3) n(1) dir
        by (intro exI [of _ b] exI [of _ "?A[k := b]"] exI [of _ t] conjI exI [of _ "{k}"] exI [of _ 1]) auto
    qed
  next
    case ind: False
    then have k12: "NDIRECT \<le> k" by simp
    show ?thesis
    proof (cases "?A ! NDIRECT = 0")
      case False
      then have n: "NDIRECT < n" using si by simp
      have "unat (freeblock s) < FSSIZE" if "slot (view s) ?A k = 0"
        using that sl [OF k(2)] cap k(1) n by (simp add: blocks_of_def max_def split: if_splits)
      then obtain x s' where x: "iappend_block k din s = Some (x, din, s')" "slot (view s') ?A k = x"
          "grown s ?A s' ?A {k} (if slot (view s) ?A k = 0 then 1 else 0)" using indirect_grown [OF s False k12 k(2)] by blast
      have "(if slot (view s) ?A k = 0 then 1 else 0) + blocks_of n = blocks_of (max n (Suc k))"
        using sl [OF k(2)] k(1) n by (auto simp: blocks_of_def max_def)
      then show ?thesis using x fill [OF x(3)] k(2) n
        by (intro exI [of _ x] exI [of _ ?A] exI [of _ s'] conjI exI [of _ "{k}"]) (auto simp: less_max_iff_disj)
    next
      case True
      then have n: "n = NDIRECT" "k = NDIRECT" using si k12 k(1) by auto
      obtain b t where t: "take_block s = (b, t)" by fastforce
      have c: "unat (freeblock s) + 2 \<le> FSSIZE" using cap n by (simp add: blocks_of_def)
      then have c1: "unat (freeblock s) < FSSIZE" by simp
      note G = take_block_grown [OF s c1 t]
      let ?d = "din\<lparr>di_addrs := ?A[NDIRECT := b]\<rparr>"
      have len: "length ?A = NDIRECT + 1" by (rule file_okD(1) [OF s(2)])
      have g: "grown s ?A t (?A[NDIRECT := b]) {MAXFILE} 1" by (rule G(2) [OF True])
      have t': "image_ok t" "file_ok mkfs_sb (view t) (di_addrs ?d)" "di_addrs ?d ! NDIRECT \<noteq> 0" using g G(3) len by (auto simp: grown_def evolves_def)
      have "\<forall>j \<le> MAXFILE. slot (view t) (?A[NDIRECT := b]) j \<noteq> 0 \<longleftrightarrow> slot (view s) ?A j \<noteq> 0 \<or> j \<in> {MAXFILE}" using g unfolding grown_def by blast
      from this [rule_format, of k] have z: "slot (view t) (?A[NDIRECT := b]) k = 0" using sl [OF k(2)] n by simp
      have "unat (freeblock t) < FSSIZE" using g c by (simp add: grown_def)
      then obtain x s' where x: "iappend_block k ?d t = Some (x, ?d, s')" "slot (view s') (di_addrs ?d) k = x" "grown t (di_addrs ?d) s' (di_addrs ?d) {k} 1"
        using indirect_grown [OF t' k12 k(2)] z by auto
      have g2: "grown s ?A s' (?A[NDIRECT := b]) {MAXFILE, k} 2" using grown_trans [OF g, of s' "?A[NDIRECT := b]" "{k}" 1] x(3) s(2) by (simp add: insert_commute numeral_2_eq_2)
      have run: "iappend_block k din s = iappend_block k ?d t" using ind True t t'(3) len by (simp add: iappend_block_def)
      have "2 + blocks_of n = blocks_of (max n (Suc k))" using n by (simp add: blocks_of_def)
      then show ?thesis using x(1,2) run g2 fill [OF g2] n
        by (intro exI [of _ x] exI [of _ "?A[NDIRECT := b]"] exI [of _ s'] conjI exI [of _ "{MAXFILE, k}"] exI [of _ 2]) auto
    qed
  qed
qed

section \<open>Appending\<close>

definition nblocks_of :: "nat \<Rightarrow> nat" where
  "nblocks_of n = (n + 511) div BSIZE"

lemma nblocks_of_step:
  assumes "0 < n" "n \<le> (off div BSIZE + 1) * BSIZE - off"
  shows "nblocks_of (off + n) = Suc (off div BSIZE)" "off div BSIZE \<le> nblocks_of off" "max (nblocks_of off) (Suc (off div BSIZE)) = Suc (off div BSIZE)"
proof -
  have o: "off div BSIZE * BSIZE + off mod BSIZE = off" "off mod BSIZE < BSIZE" by simp_all
  have "n \<le> (off div BSIZE * BSIZE + BSIZE) - off" using assms(2) by simp
  moreover have "off \<le> off div BSIZE * BSIZE + BSIZE" using o by linarith
  ultimately have "n + off \<le> off div BSIZE * BSIZE + BSIZE" by (simp only: le_diff_conv2)
  then have r: "off + n + 511 = (off mod BSIZE + n - 1) + Suc (off div BSIZE) * BSIZE" "off mod BSIZE + n - 1 < BSIZE"
    using o assms(1) unfolding mult_Suc by linarith+
  show "nblocks_of (off + n) = Suc (off div BSIZE)" unfolding nblocks_of_def r(1) using r(2) by simp
  show "off div BSIZE \<le> nblocks_of off" unfolding nblocks_of_def by (intro div_le_mono) simp
  have "nblocks_of off \<le> nblocks_of (off + n)" unfolding nblocks_of_def by (intro div_le_mono) simp
  then show "max (nblocks_of off) (Suc (off div BSIZE)) = Suc (off div BSIZE)" using \<open>nblocks_of (off + n) = Suc (off div BSIZE)\<close> by simp
qed

lemma blocks_of_mono: "m \<le> n \<Longrightarrow> blocks_of m \<le> blocks_of n"
  by (simp add: blocks_of_def)

lemma nblocks_of_mono: "m \<le> n \<Longrightarrow> nblocks_of m \<le> nblocks_of n"
  unfolding nblocks_of_def by (intro div_le_mono) simp

text \<open>The state and the file after appending \<open>p\<close> at \<open>off\<close>.\<close>

definition appended :: "mkst \<Rightarrow> u32 list \<Rightarrow> nat \<Rightarrow> byte list \<Rightarrow> mkst \<Rightarrow> u32 list \<Rightarrow> bool" where
  "appended s A off p s' A' \<longleftrightarrow> image_ok s' \<and> evolves mkfs_sb (view s) A (view s') A'
     \<and> (\<forall>x < MAXFILE * BSIZE. file_byte (view s') A' x = (if off \<le> x \<and> x < off + length p then p ! (x - off) else file_byte (view s) A x))
     \<and> filled (view s') A' (nblocks_of (off + length p))
     \<and> unat (freeblock s') + blocks_of (nblocks_of off) = unat (freeblock s) + blocks_of (nblocks_of (off + length p)) \<and> freeinode s' = freeinode s"

lemma append_piece:
  assumes s: "image_ok s" "file_ok mkfs_sb (view s) A" and f: "filled (view s) A n" and k: "off div BSIZE < MAXFILE" "slot (view s) A (off div BSIZE) \<noteq> 0"
    and bs: "length bs \<le> BSIZE - off mod BSIZE"
  defines "x \<equiv> slot (view s) A (off div BSIZE)"
  defines "t \<equiv> wsect x (blit (off mod BSIZE) bs (view s x)) s"
  shows "rsect x s = Some (view s x)" "image_ok t" "evolves mkfs_sb (view s) A (view t) A" "filled (view t) A n"
    "y < MAXFILE * BSIZE \<Longrightarrow> file_byte (view t) A y = (if off \<le> y \<and> y < off + length bs then bs ! (y - off) else file_byte (view s) A y)"
    "freeblock t = freeblock s" "freeinode t = freeinode s"
proof -
  let ?k = "off div BSIZE" and ?y = "blit (off mod BSIZE) bs (view s x)"
  have d: "data_block mkfs_sb x" "allocated mkfs_sb (view s) x" using file_okD(2,3) [OF s(2), of ?k] k by (simp_all add: x_def)
  then have xb: "unat x < FSSIZE" "x \<noteq> 58" by (auto simp: mkfs_data_block)
  have xf: "unat x < unat (freeblock s)" using d(2) view_allocated [OF s(1) xb(1)] by simp
  show "rsect x s = Some (view s x)" by (rule rsect_view [OF s(1) xb])
  have l: "length (view s x) = BSIZE" "length ?y = BSIZE" using length_view [OF s(1) xb(1)] bs by (simp_all add: le_diff_conv2 add.commute)
  note W = wsect_view [OF s(1) xb l(2) xf, folded t_def]
  show "image_ok t" "freeblock t = freeblock s" "freeinode t = freeinode s" using W by simp_all
  have v: "view t = (view s)(slot (view s) A ?k := ?y)" using W(1) by (simp add: x_def)
  note O = overwrite [OF mkfs_sb_ok s(2) view_meta [OF s(1)] k l(2), folded v]
  show "evolves mkfs_sb (view s) A (view t) A" by (rule O(1))
  show "filled (view t) A n" using f by (simp add: filled_def O(3))
  show "file_byte (view t) A y = (if off \<le> y \<and> y < off + length bs then bs ! (y - off) else file_byte (view s) A y)" if "y < MAXFILE * BSIZE"
  proof (cases "y div BSIZE = ?k")
    case True
    then show ?thesis using O(2) [OF that] file_byte_blit [of "view s" A off bs y] k(2) l(1) bs by (simp add: x_def)
  next
    case False
    have "y - off < BSIZE - off mod BSIZE" if "off \<le> y" "y < off + length bs" using that bs by linarith
    then have "\<not> (off \<le> y \<and> y < off + length bs)" using chunk_div(1) [of "y - off" off] False by auto
    then show ?thesis using O(2) [OF that] False by auto
  qed
qed

lemma iappend_loop_post:
  assumes "image_ok s" "file_ok mkfs_sb (view s) (di_addrs din)" "filled (view s) (di_addrs din) (nblocks_of off)" "off + length p \<le> MAXFILE * BSIZE"
    "unat (freeblock s) + blocks_of (nblocks_of (off + length p)) \<le> FSSIZE + blocks_of (nblocks_of off)"
  shows "\<exists>A' s'. iappend_loop din off p s = Some (din\<lparr>di_addrs := A'\<rparr>, off + length p, s') \<and> appended s (di_addrs din) off p s' A'"
  using assms
proof (induction "length p" arbitrary: din off p s rule: less_induct)
  case less
  let ?A = "di_addrs din" and ?k = "off div BSIZE"
  show ?case
  proof (cases "p = []")
    case True
    then show ?thesis using less.prems evolves_refl [OF less.prems(2) view_meta [OF less.prems(1)]]
      by (intro exI [of _ ?A] exI [of _ s]) (auto simp: iappend_loop.simps appended_def)
  next
    case False
    define n1 where "n1 = min (length p) ((?k + 1) * BSIZE - off)"
    have o: "?k * BSIZE + off mod BSIZE = off" "off mod BSIZE < BSIZE" by simp_all
    have pos: "0 < length p" using False by simp
    have "off < MAXFILE * BSIZE" using less.prems(4) pos by linarith
    then have k: "?k < MAXFILE" by (simp add: div_less_iff_less_mult)
    have room: "(?k + 1) * BSIZE - off = BSIZE - off mod BSIZE"
      using Nat.diff_cancel [of "?k * BSIZE" BSIZE "off mod BSIZE"] unfolding o(1) by (simp add: add.commute)
    have n1: "0 < n1" "n1 \<le> (?k + 1) * BSIZE - off" "n1 \<le> length p" "n1 \<le> BSIZE - off mod BSIZE" using pos o(2) unfolding n1_def room by auto
    note N = nblocks_of_step [OF n1(1,2)]
    have mono: "blocks_of (nblocks_of (off + n1)) \<le> blocks_of (nblocks_of (off + length p))"
      using n1(3) by (intro blocks_of_mono nblocks_of_mono) simp
    have cap: "unat (freeblock s) + blocks_of (max (nblocks_of off) (Suc ?k)) \<le> FSSIZE + blocks_of (nblocks_of off)"
      using mono less.prems(5) unfolding N(1) N(3) by linarith
    obtain x A1 s1 K m where x: "iappend_block ?k din s = Some (x, din\<lparr>di_addrs := A1\<rparr>, s1)" "slot (view s1) A1 ?k = x" "x \<noteq> 0"
        "grown s ?A s1 A1 K m" "m + blocks_of (nblocks_of off) = blocks_of (Suc ?k)" "filled (view s1) A1 (Suc ?k)"
      using iappend_block_post [OF less.prems(1-3) N(2) k cap] unfolding N(3) by blast
    have s1: "image_ok s1" "file_ok mkfs_sb (view s1) A1" "evolves mkfs_sb (view s) ?A (view s1) A1" "freeinode s1 = freeinode s"
        "unat (freeblock s1) = unat (freeblock s) + m" "\<forall>y < MAXFILE * BSIZE. file_byte (view s1) A1 y = file_byte (view s) ?A y"
      using x(4) unfolding grown_def evolves_def by blast+
    have sx: "slot (view s1) A1 ?k \<noteq> 0" and lb: "length (take n1 p) \<le> BSIZE - off mod BSIZE" using x(2,3) n1(4) by simp_all
    let ?t = "wsect x (blit (off mod BSIZE) (take n1 p) (view s1 x)) s1"
    note P = append_piece [OF s1(1,2) x(6) k sx lb, unfolded x(2)]
    have lt: "length (take n1 p) = n1" using n1(3) by simp
    have t: "file_ok mkfs_sb (view ?t) A1" "filled (view ?t) A1 (nblocks_of (off + n1))" using P(3,4) unfolding N(1) by (auto simp: evolves_def)
    have IH: "\<exists>A' s'. iappend_loop (din\<lparr>di_addrs := A1\<rparr>) (off + n1) (drop n1 p) ?t = Some (din\<lparr>di_addrs := A1\<rparr>\<lparr>di_addrs := A'\<rparr>, off + n1 + length (drop n1 p), s')
        \<and> appended ?t (di_addrs (din\<lparr>di_addrs := A1\<rparr>)) (off + n1) (drop n1 p) s' A'"
    proof (rule less.hyps)
      show "length (drop n1 p) < length p" using n1(1) pos by simp
      show "unat (freeblock ?t) + blocks_of (nblocks_of (off + n1 + length (drop n1 p))) \<le> FSSIZE + blocks_of (nblocks_of (off + n1))"
        using P(6) s1(5) x(5) less.prems(5) n1(3) unfolding N(1) by simp
    qed (use P(2) t less.prems(4) n1(3) in simp_all)
    obtain A' s' where r: "iappend_loop (din\<lparr>di_addrs := A1\<rparr>) (off + n1) (drop n1 p) ?t = Some (din\<lparr>di_addrs := A'\<rparr>, off + length p, s')"
        "appended ?t A1 (off + n1) (drop n1 p) s' A'" using IH n1(3) by auto
    have off: "off - ?k * BSIZE = off mod BSIZE" by (rule minus_div_mult_eq_mod)
    have run: "iappend_loop din off p s = Some (din\<lparr>di_addrs := A'\<rparr>, off + length p, s')"
      using False k x(1) P(1) r(1) unfolding n1_def by (subst iappend_loop.simps) (simp add: Let_def off)
    have "appended s ?A off p s' A'" unfolding appended_def
    proof (intro conjI allI impI)
      have "evolves mkfs_sb (view s) ?A (view ?t) A1" by (rule evolves_trans [OF s1(3) P(3) less.prems(2)])
      then show "evolves mkfs_sb (view s) ?A (view s') A'" using evolves_trans [OF _ _ less.prems(2)] r(2) unfolding appended_def by blast
      show "unat (freeblock s') + blocks_of (nblocks_of off) = unat (freeblock s) + blocks_of (nblocks_of (off + length p))"
        using r(2) P(6) s1(5) x(5) n1(3) unfolding appended_def N(1) by simp
      fix y :: nat
      assume y: "y < MAXFILE * BSIZE"
      have e: "file_byte (view s') A' y = (if off + n1 \<le> y \<and> y < off + n1 + length (drop n1 p) then drop n1 p ! (y - (off + n1)) else file_byte (view ?t) A1 y)"
        using r(2) y unfolding appended_def by blast
      show "file_byte (view s') A' y = (if off \<le> y \<and> y < off + length p then p ! (y - off) else file_byte (view s) ?A y)"
        unfolding e P(5) [OF y] lt using s1(6) y n1(3) by auto
    qed (use r(2) P(7) s1(4) n1(3) in \<open>auto simp: appended_def\<close>)
    then show ?thesis using run by blast
  qed
qed

section \<open>Inodes\<close>

definition inode_at :: "(u32 \<Rightarrow> block) \<Rightarrow> u32 \<Rightarrow> dinode" where
  "inode_at v inum = get_dinode (unat (inum mod 8)) (v (IBLOCK inum mkfs_sb))"

lemma mkfs_IBLOCK:
  assumes "unat inum < NINODES"
  shows "unat (IBLOCK inum mkfs_sb) = unat inum div IPB + 32" "unat (IBLOCK inum mkfs_sb) < 58"
    "\<not> data_block mkfs_sb (IBLOCK inum mkfs_sb)" "IBLOCK inum mkfs_sb \<noteq> 58" "IBLOCK inum mkfs_sb \<noteq> 1"
proof -
  show u: "unat (IBLOCK inum mkfs_sb) = unat inum div IPB + 32" "unat (IBLOCK inum mkfs_sb) < 58"
    using unat_IBLOCK [of mkfs_sb inum] assms by simp_all
  then show "\<not> data_block mkfs_sb (IBLOCK inum mkfs_sb)" "IBLOCK inum mkfs_sb \<noteq> 58" "IBLOCK inum mkfs_sb \<noteq> 1" by (auto simp: mkfs_data_block)
qed

lemma inode_at_put:
  assumes "unat inum < NINODES" "unat j < NINODES" "length (di_addrs din) = 13" "length (v (IBLOCK inum mkfs_sb)) = BSIZE"
  shows "inode_at (v(IBLOCK inum mkfs_sb := put_dinode (unat (inum mod 8)) din (v (IBLOCK inum mkfs_sb)))) j = (if j = inum then din else inode_at v j)"
proof -
  have m: "unat (i mod 8) = unat i mod IPB" "unat (i mod 8) < IPB" for i :: u32 by (simp_all add: unat_mod)
  show ?thesis
  proof (cases "IBLOCK j mkfs_sb = IBLOCK inum mkfs_sb")
    case True
    then have d: "unat j div IPB = unat inum div IPB" using mkfs_IBLOCK(1) [OF assms(1)] mkfs_IBLOCK(1) [OF assms(2)] by simp
    have "unat (j mod 8) = unat (inum mod 8) \<longleftrightarrow> j = inum"
    proof
      assume "unat (j mod 8) = unat (inum mod 8)"
      then have "unat j = unat inum" using d unfolding m by (metis div_mult_mod_eq)
      then show "j = inum" by (rule unsigned_word_eqI)
    qed simp
    then show ?thesis
      using True get_put_dinode_same [OF m(2) assms(3,4)] get_put_dinode_other [OF m(2) m(2) _ assms(3,4)] by (auto simp: inode_at_def)
  qed (auto simp: inode_at_def)
qed

lemma rinode_view: "image_ok s \<Longrightarrow> unat inum < NINODES \<Longrightarrow> rinode inum s = Some (inode_at (view s) inum)"
  using mkfs_IBLOCK(2,4) [of inum] by (simp add: rinode_def rsect_view inode_at_def)

lemma winode_view:
  assumes s: "image_ok s" and i: "unat inum < NINODES" and d: "length (di_addrs din) = 13"
  defines "y \<equiv> put_dinode (unat (inum mod 8)) din (view s (IBLOCK inum mkfs_sb))"
  shows "\<exists>s'. winode inum din s = Some s' \<and> image_ok s' \<and> view s' = (view s)(IBLOCK inum mkfs_sb := y) \<and> freeblock s' = freeblock s \<and> freeinode s' = freeinode s"
proof -
  note I = mkfs_IBLOCK [OF i]
  have l: "length (view s (IBLOCK inum mkfs_sb)) = BSIZE" using length_view [OF s] I(2) by simp
  have "unat (inum mod 8) < IPB" by (simp add: unat_mod)
  then have "length y = BSIZE" unfolding y_def using l d by simp
  moreover have "unat (IBLOCK inum mkfs_sb) < unat (freeblock s)" using I(2) image_okD(3) [OF s] by simp
  ultimately show ?thesis
    using wsect_view [OF s _ I(4), of y] I(2) rsect_view [OF s _ I(4)] by (simp add: winode_def y_def Let_def)
qed

section \<open>The files of an image\<close>

text \<open>An inode with its type and contents.\<close>

definition has_file :: "(u32 \<Rightarrow> block) \<Rightarrow> dinode \<Rightarrow> u16 \<times> byte list \<Rightarrow> bool" where
  "has_file v d f \<longleftrightarrow> di_type d = fst f \<and> di_nlink d = 1 \<and> unat (di_size d) = length (snd f) \<and> length (snd f) \<le> MAXFILE * BSIZE
     \<and> file_ok mkfs_sb v (di_addrs d) \<and> filled v (di_addrs d) (nblocks_of (length (snd f)))
     \<and> (\<forall>x < MAXFILE * BSIZE. file_byte v (di_addrs d) x = (if x < length (snd f) then snd f ! x else 0))"

definition inum_of :: "nat \<Rightarrow> u32" where
  "inum_of i = of_nat (i + 1)"

definition blocks_used :: "(u16 \<times> byte list) list \<Rightarrow> nat" where
  "blocks_used fs = (\<Sum>f \<leftarrow> fs. blocks_of (nblocks_of (length (snd f))))"

definition contains :: "mkst \<Rightarrow> (u16 \<times> byte list) list \<Rightarrow> bool" where
  "contains s fs \<longleftrightarrow> image_ok s \<and> length fs < NINODES \<and> unat (freeinode s) = length fs + 1 \<and> unat (freeblock s) = 59 + blocks_used fs
     \<and> view s 1 = blit 0 (encode_sb mkfs_sb) zero_block
     \<and> (\<forall>i < length fs. has_file (view s) (inode_at (view s) (inum_of i)) (fs ! i))
     \<and> (\<forall>i < length fs. \<forall>j < length fs. i \<noteq> j \<longrightarrow>
          slots (view s) (di_addrs (inode_at (view s) (inum_of i))) \<inter> slots (view s) (di_addrs (inode_at (view s) (inum_of j))) = {})"

lemma blocks_used_update: "i < length fs \<Longrightarrow> blocks_used (fs[i := f]) + blocks_of (nblocks_of (length (snd (fs ! i)))) = blocks_used fs + blocks_of (nblocks_of (length (snd f)))"
  unfolding blocks_used_def by (induction fs arbitrary: i) (auto split: nat.split simp: nth_Cons)

lemma inum_of_inj: "i < NINODES \<Longrightarrow> unat (inum_of i) = i + 1"
  by (simp add: inum_of_def unat_of_nat take_bit_nat_eq_self del: of_nat_Suc of_nat_add)

text \<open>Writing an inode does not matter for the meaning of any list of block numbers.\<close>

lemma has_file_other:
  assumes "has_file v d f" "\<not> data_block mkfs_sb c" "c \<noteq> 58"
  shows "has_file (v(c := y)) d f" "slots (v(c := y)) (di_addrs d) = slots v (di_addrs d)"
proof -
  have ok: "file_ok mkfs_sb v (di_addrs d)" using assms(1) by (simp add: has_file_def)
  have "\<not> bitmap_block mkfs_sb c" using assms(3) by (simp add: mkfs_bitmap_block)
  note O = other_block [where y = y, OF mkfs_sb_ok ok assms(2) this]
  show "slots (v(c := y)) (di_addrs d) = slots v (di_addrs d)" by (simp add: slots_def O(2))
  show "has_file (v(c := y)) d f" using assms(1) O(1,2,4) by (simp add: has_file_def filled_def)
qed

lemma inode_at_evolves:
  assumes "evolves mkfs_sb v A w B" "unat j < NINODES"
  shows "inode_at w j = inode_at v j" "w 1 = v 1"
  using assms(1) mkfs_IBLOCK(3,4) [OF assms(2)] by (auto simp: evolves_def inode_at_def mkfs_bitmap_block mkfs_data_block)

lemma has_file_evolves:
  assumes "evolves mkfs_sb v A w B" "has_file v d f" "slots v (di_addrs d) \<inter> slots v A = {}"
  shows "has_file w d f" "slots w (di_addrs d) = slots v (di_addrs d)" "slots w (di_addrs d) \<inter> slots w B = {}"
proof -
  have ok: "file_ok mkfs_sb v (di_addrs d)" using assms(2) by (simp add: has_file_def)
  note O = evolves_other [OF assms(1) ok assms(3)]
  show sl: "slots w (di_addrs d) = slots v (di_addrs d)" by (simp add: slots_def O(3))
  show "has_file w d f" using assms(2) O(1,2,3) by (simp add: has_file_def filled_def)
  show "slots w (di_addrs d) \<inter> slots w B = {}"
    using assms(1,3) slots_data [OF ok] unfolding sl by (auto simp: evolves_def)
qed

lemma containsD:
  assumes "contains s fs"
  shows "image_ok s" "length fs < NINODES" "unat (freeinode s) = length fs + 1" "unat (freeblock s) = 59 + blocks_used fs"
    "view s 1 = blit 0 (encode_sb mkfs_sb) zero_block"
    "i < length fs \<Longrightarrow> has_file (view s) (inode_at (view s) (inum_of i)) (fs ! i)"
    "i < length fs \<Longrightarrow> j < length fs \<Longrightarrow> i \<noteq> j \<Longrightarrow>
      slots (view s) (di_addrs (inode_at (view s) (inum_of i))) \<inter> slots (view s) (di_addrs (inode_at (view s) (inum_of j))) = {}"
  using assms unfolding contains_def by blast+

text \<open>Replacing the inode of one file, once its blocks are in place.\<close>

lemma contains_winode:
  assumes s: "image_ok s" and n: "length fs < NINODES" "unat (freeinode s) = length fs + 1" "unat (freeblock s) = 59 + blocks_used fs"
      "view s 1 = blit 0 (encode_sb mkfs_sb) zero_block"
    and i: "i < length fs" and d: "has_file (view s) d (fs ! i)"
    and other: "\<And>j. j < length fs \<Longrightarrow> j \<noteq> i \<Longrightarrow> has_file (view s) (inode_at (view s) (inum_of j)) (fs ! j)
        \<and> slots (view s) (di_addrs (inode_at (view s) (inum_of j))) \<inter> slots (view s) (di_addrs d) = {}"
    and pair: "\<And>j k. j < length fs \<Longrightarrow> k < length fs \<Longrightarrow> j \<noteq> k \<Longrightarrow> j \<noteq> i \<Longrightarrow> k \<noteq> i \<Longrightarrow>
      slots (view s) (di_addrs (inode_at (view s) (inum_of j))) \<inter> slots (view s) (di_addrs (inode_at (view s) (inum_of k))) = {}"
  shows "\<exists>s'. winode (inum_of i) d s = Some s' \<and> contains s' fs"
proof -
  have u: "unat (inum_of j) = j + 1" "unat (inum_of j) < NINODES" if "j < length fs" for j
  proof -
    show "unat (inum_of j) = j + 1" by (rule inum_of_inj) (use that n(1) in simp)
    then show "unat (inum_of j) < NINODES" using that n(1) by simp
  qed
  have la: "length (di_addrs d) = 13" using d file_okD(1) by (fastforce simp: has_file_def)
  let ?c = "IBLOCK (inum_of i) mkfs_sb"
  note I = mkfs_IBLOCK [OF u(2) [OF i]]
  obtain s' where s': "winode (inum_of i) d s = Some s'" "image_ok s'" "freeblock s' = freeblock s" "freeinode s' = freeinode s"
      "view s' = (view s)(?c := put_dinode (unat (inum_of i mod 8)) d (view s ?c))"
    using winode_view [OF s u(2) [OF i] la] by blast
  have l: "length (view s ?c) = BSIZE" using length_view [OF s] I(2) by simp
  have at: "inode_at (view s') (inum_of j) = (if j = i then d else inode_at (view s) (inum_of j))" if "j < length fs" for j
  proof -
    have "inum_of j = inum_of i \<longleftrightarrow> j = i" using u(1) [OF that] u(1) [OF i] by (metis add_right_cancel)
    then show ?thesis unfolding s'(5) inode_at_put [where v = "view s", OF u(2) [OF i] u(2) [OF that] la l] by (simp only:)
  qed
  have f: "has_file (view s) (if j = i then d else inode_at (view s) (inum_of j)) (fs ! j)" if "j < length fs" for j
    using d other [OF that] by simp
  note O = has_file_other [where y = "put_dinode (unat (inum_of i mod 8)) d (view s ?c)", OF f I(3,4), folded s'(5)]
  have "contains s' fs" unfolding contains_def
  proof (intro conjI allI impI)
    show "view s' 1 = blit 0 (encode_sb mkfs_sb) zero_block" unfolding s'(5) using n(4) I(5) by simp
    show "has_file (view s') (inode_at (view s') (inum_of j)) (fs ! j)" if "j < length fs" for j
      unfolding at [OF that] by (rule O(1) [OF that])
    show "slots (view s') (di_addrs (inode_at (view s') (inum_of j))) \<inter> slots (view s') (di_addrs (inode_at (view s') (inum_of k))) = {}"
      if "j < length fs" "k < length fs" "j \<noteq> k" for j k
      unfolding at [OF that(1)] at [OF that(2)] O(2) [OF that(1)] O(2) [OF that(2)]
      using other [OF that(1)] other [OF that(2)] pair [OF that] that(3) by auto
  qed (use s' n in simp_all)
  then show ?thesis using s'(1) by blast
qed

lemma iappend_post:
  assumes C: "contains s fs" and i: "i < length fs" "fs ! i = (ty, c)" and p: "length c + length p \<le> MAXFILE * BSIZE"
    and cap: "59 + blocks_used (fs[i := (ty, c @ p)]) \<le> FSSIZE"
  shows "\<exists>s'. iappend (inum_of i) p s = Some s' \<and> contains s' (fs[i := (ty, c @ p)])"
proof -
  note D = containsD [OF C]
  let ?fs = "fs[i := (ty, c @ p)]" and ?d = "inode_at (view s) (inum_of i)"
  let ?A = "di_addrs ?d"
  have u: "unat (inum_of j) < NINODES" if "j < length fs" for j using inum_of_inj [of j] that D(2) by simp
  have f: "has_file (view s) ?d (ty, c)" using D(6) [OF i(1)] i(2) by simp
  then have F: "di_type ?d = ty" "di_nlink ?d = 1" "unat (di_size ?d) = length c" "file_ok mkfs_sb (view s) ?A" "filled (view s) ?A (nblocks_of (length c))"
      "\<forall>x < MAXFILE * BSIZE. file_byte (view s) ?A x = (if x < length c then c ! x else 0)" unfolding has_file_def by simp_all
  have b: "blocks_used ?fs + blocks_of (nblocks_of (length c)) = blocks_used fs + blocks_of (nblocks_of (length c + length p))"
    using blocks_used_update [OF i(1), of "(ty, c @ p)"] i(2) by simp
  then obtain A' s1 where r: "iappend_loop ?d (length c) p s = Some (?d\<lparr>di_addrs := A'\<rparr>, length c + length p, s1)" "appended s ?A (length c) p s1 A'"
    using iappend_loop_post [OF D(1) F(4,5) p] cap D(4) by auto
  have a: "image_ok s1" "evolves mkfs_sb (view s) ?A (view s1) A'" "filled (view s1) A' (nblocks_of (length c + length p))" "freeinode s1 = freeinode s"
      "unat (freeblock s1) + blocks_of (nblocks_of (length c)) = unat (freeblock s) + blocks_of (nblocks_of (length c + length p))"
      "\<forall>x < MAXFILE * BSIZE. file_byte (view s1) A' x = (if length c \<le> x \<and> x < length c + length p then p ! (x - length c) else file_byte (view s) ?A x)"
    using r(2) unfolding appended_def by simp_all
  let ?d1 = "?d\<lparr>di_addrs := A', di_size := of_nat (length c + length p)\<rparr>"
  have sz: "unat (of_nat (length c + length p) :: u32) = length c + length p"
    using p by (simp add: unat_of_nat take_bit_nat_eq_self del: of_nat_add)
  have ok: "file_ok mkfs_sb (view s1) A'" using a(2) by (simp add: evolves_def)
  have d1: "has_file (view s1) ?d1 (?fs ! i)"
    using i F(1,2,6) sz p ok a(3,6) by (simp add: has_file_def nth_append del: of_nat_add)
  have same: "inode_at (view s1) (inum_of j) = inode_at (view s) (inum_of j)" if "j < length fs" for j
    by (rule inode_at_evolves(1) [OF a(2) u [OF that]])
  have run: "iappend (inum_of i) p s = winode (inum_of i) ?d1 s1"
    using rinode_view [OF D(1) u [OF i(1)]] r(1) F(3) by (simp add: iappend_def)
  have "\<exists>s'. winode (inum_of i) ?d1 s1 = Some s' \<and> contains s' ?fs"
  proof (rule contains_winode)
    show "view s1 1 = blit 0 (encode_sb mkfs_sb) zero_block" using inode_at_evolves(2) [OF a(2) u [OF i(1)]] D(5) by simp
    show "unat (freeblock s1) = 59 + blocks_used ?fs" using a(5) D(4) b by simp
    show "has_file (view s1) ?d1 (?fs ! i)" by (rule d1)
    show "has_file (view s1) (inode_at (view s1) (inum_of j)) (?fs ! j)
        \<and> slots (view s1) (di_addrs (inode_at (view s1) (inum_of j))) \<inter> slots (view s1) (di_addrs ?d1) = {}" if "j < length ?fs" "j \<noteq> i" for j
    proof -
      have j: "j < length fs" using that(1) by simp
      note E = has_file_evolves [OF a(2) D(6) [OF j] D(7) [OF j i(1) that(2)]]
      show ?thesis unfolding same [OF j] using E(1,3) that(2) by simp
    qed
    show "slots (view s1) (di_addrs (inode_at (view s1) (inum_of j))) \<inter> slots (view s1) (di_addrs (inode_at (view s1) (inum_of k))) = {}"
      if "j < length ?fs" "k < length ?fs" "j \<noteq> k" "j \<noteq> i" "k \<noteq> i" for j k
    proof -
      have j: "j < length fs" "k < length fs" using that(1,2) by simp_all
      note E = has_file_evolves [OF a(2) D(6) [OF j(1)] D(7) [OF j(1) i(1) that(4)]] has_file_evolves [OF a(2) D(6) [OF j(2)] D(7) [OF j(2) i(1) that(5)]]
      show ?thesis unfolding same [OF j(1)] same [OF j(2)] E(2,5) by (rule D(7) [OF j that(3)])
    qed
  qed (use a D i in simp_all)
  then show ?thesis unfolding run .
qed

lemma slot_zeros: "k \<le> MAXFILE \<Longrightarrow> slot v (replicate 13 0) k = 0"
  by (auto simp: slot_def nth_append)

lemma ialloc_post:
  assumes C: "contains s fs" and n: "length fs + 1 < NINODES"
  shows "\<exists>s'. mkfs_ialloc ty s = Some (inum_of (length fs), s') \<and> contains s' (fs @ [(ty, [])])"
proof -
  note D = containsD [OF C]
  let ?t = "s\<lparr>freeinode := freeinode s + 1\<rparr>" and ?d = "zero_dinode\<lparr>di_type := ty, di_nlink := 1, di_size := 0\<rparr>"
  have v: "view ?t = view s" by (simp add: view_def fun_eq_iff)
  have inum: "freeinode s = inum_of (length fs)"
  proof -
    have "unat (freeinode s) = unat (inum_of (length fs))" using D(2,3) inum_of_inj [of "length fs"] by simp
    then show ?thesis by (rule unsigned_word_eqI)
  qed
  have z: "di_addrs ?d = replicate 13 0" by (simp add: zero_dinode_def)
  have f: "has_file (view s) ?d (ty, [])"
    unfolding has_file_def z by (simp add: file_ok_def filled_def nblocks_of_def slot_zeros file_byte_def div_less_iff_less_mult less_imp_le)
  have sl: "slots (view s) (replicate 13 0) = {}" by (auto simp: slots_def slot_zeros)
  have "\<exists>s'. winode (inum_of (length fs)) ?d ?t = Some s' \<and> contains s' (fs @ [(ty, [])])"
  proof (rule contains_winode)
    show "image_ok ?t" using D(1) by (simp add: image_ok_def)
    show "unat (freeinode ?t) = length (fs @ [(ty, [])]) + 1" using D(3) n by (simp add: unat_word_ariths(1))
    show "unat (freeblock ?t) = 59 + blocks_used (fs @ [(ty, [])])" using D(4) by (simp add: blocks_used_def blocks_of_def nblocks_of_def)
    show "has_file (view ?t) (inode_at (view ?t) (inum_of j)) ((fs @ [(ty, [])]) ! j)
        \<and> slots (view ?t) (di_addrs (inode_at (view ?t) (inum_of j))) \<inter> slots (view ?t) (di_addrs ?d) = {}"
      if "j < length (fs @ [(ty, [])])" "j \<noteq> length fs" for j
      using D(6) [of j] that sl unfolding v z by (simp add: nth_append)
    show "slots (view ?t) (di_addrs (inode_at (view ?t) (inum_of j))) \<inter> slots (view ?t) (di_addrs (inode_at (view ?t) (inum_of k))) = {}"
      if "j < length (fs @ [(ty, [])])" "k < length (fs @ [(ty, [])])" "j \<noteq> k" "j \<noteq> length fs" "k \<noteq> length fs" for j k
      unfolding v by (rule D(7)) (use that in simp_all)
  qed (use f n D(5) in \<open>simp_all add: v\<close>)
  then show ?thesis by (auto simp: mkfs_ialloc_def inum Let_def)
qed

section \<open>All files\<close>

lemma blocks_used_simps [simp]:
  "blocks_used [] = 0" "blocks_used (f # fs) = blocks_of (nblocks_of (length (snd f))) + blocks_used fs"
  "blocks_used (fs @ gs) = blocks_used fs + blocks_used gs"
  by (simp_all add: blocks_used_def)

lemma blocks_mono: "m \<le> n \<Longrightarrow> blocks_of (nblocks_of m) \<le> blocks_of (nblocks_of n)"
  by (intro blocks_of_mono nblocks_of_mono)

lemma iappend_all_post:
  "contains s fs \<Longrightarrow> i < length fs \<Longrightarrow> fs ! i = (ty, c) \<Longrightarrow> length c + length (concat bufs) \<le> MAXFILE * BSIZE \<Longrightarrow>
   59 + blocks_used (fs[i := (ty, c @ concat bufs)]) \<le> FSSIZE \<Longrightarrow>
   \<exists>s'. iappend_all (inum_of i) bufs s = Some s' \<and> contains s' (fs[i := (ty, c @ concat bufs)])"
proof (induction bufs arbitrary: s fs c)
  case Nil
  then show ?case using list_update_id [of fs i] by simp
next
  case (Cons p bufs)
  let ?fs = "fs[i := (ty, c @ p)]"
  have "blocks_of (nblocks_of (length (c @ p))) \<le> blocks_of (nblocks_of (length (c @ p @ concat bufs)))" by (intro blocks_mono) simp
  then have "59 + blocks_used ?fs \<le> FSSIZE"
    using Cons.prems(5) blocks_used_update [OF Cons.prems(2), of "(ty, c @ p)"] blocks_used_update [OF Cons.prems(2), of "(ty, c @ p @ concat bufs)"]
    by simp
  then obtain s1 where 1: "iappend (inum_of i) p s = Some s1" "contains s1 ?fs"
    using iappend_post [OF Cons.prems(1-3), of p] Cons.prems(4) by auto
  have "\<exists>s'. iappend_all (inum_of i) bufs s1 = Some s' \<and> contains s' (?fs[i := (ty, (c @ p) @ concat bufs)])"
    by (rule Cons.IH [OF 1(2)]) (use Cons.prems in simp_all)
  then show ?case using 1(1) by simp
qed

text \<open>The entries of the root directory for files whose inodes have numbers from \<open>k + 1\<close> on.\<close>

fun entries :: "nat \<Rightarrow> (byte list \<times> byte list list) list \<Rightarrow> byte list" where
  "entries k [] = []"
| "entries k (f # fs) = entry_for (inum_of k) (skip_underscore (fst f)) @ entries (Suc k) fs"

lemma length_entry_for [simp]: "length (entry_for inum name) = dirent_size"
  by (simp add: entry_for_def encode_dirent_def le16_def)

lemma length_entries [simp]: "length (entries k fs) = dirent_size * length fs"
  by (induction fs arbitrary: k) simp_all

abbreviation (input) file_of :: "byte list \<times> byte list list \<Rightarrow> u16 \<times> byte list" where
  "file_of f \<equiv> (T_FILE, concat (snd f))"

lemma mkfs_files_post:
  "contains s ((ty, r) # gs) \<Longrightarrow> \<forall>f \<in> set fs. 47 \<notin> set (fst f) \<and> length (concat (snd f)) \<le> MAXFILE * BSIZE \<Longrightarrow>
   1 + length gs + length fs < NINODES \<Longrightarrow> length r + dirent_size * length fs \<le> MAXFILE * BSIZE \<Longrightarrow>
   59 + blocks_used ((ty, r @ entries (Suc (length gs)) fs) # gs @ map file_of fs) \<le> FSSIZE \<Longrightarrow>
   \<exists>s'. mkfs_files fs 1 s = Some s' \<and> contains s' ((ty, r @ entries (Suc (length gs)) fs) # gs @ map file_of fs)"
proof (induction fs arbitrary: s r gs)
  case (Cons f fs)
  obtain name bufs where f: "f = (name, bufs)" by (cases f)
  let ?n = "Suc (length gs)" and ?e = "entry_for (inum_of (Suc (length gs))) (skip_underscore name)"
  have one: "(1 :: u32) = inum_of 0" by (simp add: inum_of_def)
  obtain s1 where 1: "mkfs_ialloc T_FILE s = Some (inum_of ?n, s1)" "contains s1 ((ty, r) # gs @ [(T_FILE, [])])"
    using ialloc_post [OF Cons.prems(1), of T_FILE] Cons.prems(3) by auto
  have m: "blocks_of (nblocks_of (length (r @ ?e))) \<le> blocks_of (nblocks_of (length (r @ entries ?n (f # fs))))" by (intro blocks_mono) simp
  have c: "59 + blocks_used ((ty, r @ ?e) # gs @ [(T_FILE, concat bufs)]) \<le> FSSIZE" using m Cons.prems(5) f by simp
  have "\<exists>s'. iappend (inum_of 0) ?e s1 = Some s' \<and> contains s' (((ty, r) # gs @ [(T_FILE, [])])[0 := (ty, r @ ?e)])"
    by (rule iappend_post [OF 1(2)]) (use Cons.prems(4) c in \<open>simp_all add: blocks_of_def nblocks_of_def\<close>)
  then obtain s2 where 2: "iappend 1 ?e s1 = Some s2" "contains s2 ((ty, r @ ?e) # gs @ [(T_FILE, [])])" unfolding one by auto
  have up: "((ty, r @ ?e) # gs @ [(T_FILE, [])])[?n := (T_FILE, [] @ concat bufs)] = (ty, r @ ?e) # gs @ [(T_FILE, concat bufs)]" by simp
  have "\<exists>s'. iappend_all (inum_of ?n) bufs s2 = Some s' \<and> contains s' (((ty, r @ ?e) # gs @ [(T_FILE, [])])[?n := (T_FILE, [] @ concat bufs)])"
    by (rule iappend_all_post [OF 2(2)]) (use Cons.prems(2) f c in \<open>simp_all only: up\<close>, simp_all)
  then obtain s3 where 3: "iappend_all (inum_of ?n) bufs s2 = Some s3" "contains s3 ((ty, r @ ?e) # gs @ [(T_FILE, concat bufs)])" unfolding up by blast
  have "\<exists>s'. mkfs_files fs 1 s3 = Some s' \<and> contains s' ((ty, (r @ ?e) @ entries (Suc (length (gs @ [(T_FILE, concat bufs)]))) fs) # (gs @ [(T_FILE, concat bufs)]) @ map file_of fs)"
    by (rule Cons.IH [OF 3(2)]) (use Cons.prems(2-5) f in simp_all)
  then show ?case using 1(1) 2(1) 3(1) Cons.prems(2) f by simp
qed simp

section \<open>The whole image\<close>

lemma wsect_zeroes: "n \<le> FSSIZE \<Longrightarrow> fold (\<lambda>i. wsect (of_nat i) zero_block) [0..<n] \<lparr>img = [], freeinode = 1, freeblock = b\<rparr>
    = \<lparr>img = replicate n zero_block, freeinode = 1, freeblock = b\<rparr>"
proof (induction n)
  case (Suc n)
  have "sector (of_nat n) = n" using Suc.prems sector_id [of "of_nat n"] by (simp add: unat_of_nat take_bit_nat_eq_self)
  then show ?case using Suc by (simp add: wsect_def replicate_append_same)
qed simp

lemma contains_start: "contains (wsect 1 (blit 0 (encode_sb mkfs_sb) zero_block) mkfs_empty) []"
proof -
  let ?b = "blit 0 (encode_sb mkfs_sb) zero_block"
  have e: "mkfs_empty = \<lparr>img = replicate FSSIZE zero_block, freeinode = 1, freeblock = 59\<rparr>"
    unfolding mkfs_empty_def using wsect_zeroes [of FSSIZE "of_nat nmeta"] by simp
  have ok: "image_ok mkfs_empty" unfolding e by (simp add: image_ok_def)
  have l: "length ?b = BSIZE" by (simp add: encode_sb_def le32_def)
  have "unat (1 :: u32) < FSSIZE" "(1 :: u32) \<noteq> 58" "unat (1 :: u32) < unat (freeblock mkfs_empty)" by (simp_all add: e)
  note W = wsect_view [OF ok this(1,2) l this(3)]
  show ?thesis unfolding contains_def using W by (simp add: e)
qed

definition root_bytes :: "(byte list \<times> byte list list) list \<Rightarrow> byte list" where
  "root_bytes fs = entry_for 1 [46] @ entry_for 1 [46, 46] @ entries 1 fs"

definition mkfs_spec :: "(byte list \<times> byte list list) list \<Rightarrow> (u16 \<times> byte list) list" where
  "mkfs_spec fs = (T_DIR, root_bytes fs) # map file_of fs"

lemma mkfs_build:
  assumes f: "\<forall>f \<in> set fs. 47 \<notin> set (fst f) \<and> length (concat (snd f)) \<le> MAXFILE * BSIZE"
    and n: "length fs + 1 < NINODES" and cap: "59 + blocks_used (mkfs_spec fs) \<le> FSSIZE"
  shows "\<exists>s. contains s (mkfs_spec fs) \<and> mkfs_main fs = do {
     din \<leftarrow> rinode 1 s;
     s \<leftarrow> winode 1 (din\<lparr>di_size := (di_size din div 512 + 1) * 512\<rparr>) s;
     mkfs_balloc (freeblock s) s }"
proof -
  let ?d = "entry_for 1 [46]" and ?dd = "entry_for 1 [46, 46]"
  let ?s = "wsect 1 (blit 0 (encode_sb mkfs_sb) zero_block) mkfs_empty"
  have one: "inum_of 0 = 1" by (simp add: inum_of_def)
  have m: "blocks_of (nblocks_of 16) \<le> blocks_of (nblocks_of (length (root_bytes fs)))" "blocks_of (nblocks_of 32) \<le> blocks_of (nblocks_of (length (root_bytes fs)))"
    by (intro blocks_mono; simp add: root_bytes_def)+
  have c: "59 + blocks_of (nblocks_of 16) \<le> FSSIZE" "59 + blocks_of (nblocks_of 32) \<le> FSSIZE" using m cap by (simp_all add: mkfs_spec_def)
  obtain s1 where 1: "mkfs_ialloc T_DIR ?s = Some (1, s1)" "contains s1 [(T_DIR, [])]"
    using ialloc_post [OF contains_start, of T_DIR] one by auto
  obtain s2 where 2: "iappend 1 ?d s1 = Some s2" "contains s2 [(T_DIR, ?d)]"
    using iappend_post [OF 1(2), of 0 T_DIR "[]" ?d] c(1) one by auto
  obtain s3 where 3: "iappend 1 ?dd s2 = Some s3" "contains s3 [(T_DIR, ?d @ ?dd)]"
    using iappend_post [OF 2(2), of 0 T_DIR ?d ?dd] c(2) one by auto
  have "1 + length ([] :: (u16 \<times> byte list) list) + length fs < NINODES" "length (?d @ ?dd) + dirent_size * length fs \<le> MAXFILE * BSIZE"
      "59 + blocks_used ((T_DIR, (?d @ ?dd) @ entries (Suc (length ([] :: (u16 \<times> byte list) list))) fs) # [] @ map file_of fs) \<le> FSSIZE"
    using n cap by (simp_all add: mkfs_spec_def root_bytes_def)
  note mkfs_files_post [OF 3(2) f this]
  then obtain s4 where 4: "mkfs_files fs 1 s3 = Some s4" "contains s4 (mkfs_spec fs)" by (auto simp: mkfs_spec_def root_bytes_def)
  then show ?thesis using 1(1) 2(1) 3(1) by (intro exI [of _ s4]) (simp add: mkfs_main_def)
qed

text \<open>The contents of a block of a finished image.\<close>

definition block_of :: "mkst \<Rightarrow> u32 \<Rightarrow> block" where
  "block_of s b = img s ! unat b"

lemma mkfs_finish:
  assumes C: "contains s (mkfs_spec fs)"
  defines "d \<equiv> inode_at (view s) 1"
  defines "d' \<equiv> d\<lparr>di_size := (di_size d div 512 + 1) * 512\<rparr>"
  shows "\<exists>t. do { din \<leftarrow> rinode 1 s; s \<leftarrow> winode 1 (din\<lparr>di_size := (di_size din div 512 + 1) * 512\<rparr>) s; mkfs_balloc (freeblock s) s } = Some t
    \<and> length (img t) = FSSIZE
    \<and> block_of t = (view s)(IBLOCK 1 mkfs_sb := put_dinode (unat ((1 :: u32) mod 8)) d' (view s (IBLOCK 1 mkfs_sb)))"
proof -
  note D = containsD [OF C]
  have u: "unat (1 :: u32) < NINODES" by simp
  have f: "has_file (view s) d (T_DIR, root_bytes fs)" using D(6) [of 0] by (simp add: mkfs_spec_def inum_of_def d_def)
  then have "length (di_addrs d') = 13" using file_okD(1) by (fastforce simp: has_file_def d'_def)
  then obtain t where t: "winode 1 d' s = Some t" "image_ok t" "freeblock t = freeblock s"
      "view t = (view s)(IBLOCK 1 mkfs_sb := put_dinode (unat ((1 :: u32) mod 8)) d' (view s (IBLOCK 1 mkfs_sb)))"
    using winode_view [OF D(1) u] by blast
  let ?m = "mkfs_bitmap (unat (freeblock t))"
  have "sector 58 = 58" using sector_id [of 58] by simp
  then have w: "img (wsect 58 ?m t) = (img t)[58 := ?m]" using image_okD(1) [OF t(2)] by (simp add: wsect_def)
  have "block_of (wsect 58 ?m t) = view t"
  proof
    fix b :: u32
    have "unat b = 58 \<longleftrightarrow> b = 58" using unat_neq [of b 58] by auto
    then show "block_of (wsect 58 ?m t) b = view t b" using image_okD(1) [OF t(2)] by (auto simp: block_of_def view_def w nth_list_update)
  qed
  moreover have "mkfs_balloc (freeblock t) t = Some (wsect 58 ?m t)" using image_okD(4) [OF t(2)] by (simp add: mkfs_balloc_def)
  ultimately show ?thesis
    using rinode_view [OF D(1) u] t(1,4) image_okD(1) [OF t(2)] w by (intro exI [of _ "wsect 58 ?m t"]) (simp add: d_def d'_def)
qed

text \<open>C11. \<^verbatim>\<open>mkfs\<close> builds a correct file system: given files whose names have no slash, that are not larger than the largest file and that fit
  on the disk with the root directory (at most 198 of them), it succeeds; block 1 of the image is the super block; exactly the blocks below the first unused one are
  marked as allocated, among them everything that is not a data block; inode \<open>i + 2\<close> is a well-formed file with the type, size and bytes of file
  \<open>i\<close>; the root directory has the entries for \<^verbatim>\<open>.\<close>, \<^verbatim>\<open>..\<close> and every file in order, followed by empty ones up to the end of its block; and no block belongs
  to two of them.\<close>

theorem mkfs_image:
  assumes "\<forall>f \<in> set fs. 47 \<notin> set (fst f) \<and> length (concat (snd f)) \<le> MAXFILE * BSIZE"
    and "length fs + 1 < NINODES" and "59 + blocks_used (mkfs_spec fs) \<le> FSSIZE"
  shows "\<exists>t. mkfs_main fs = Some t \<and> length (img t) = FSSIZE \<and> decode_sb (block_of t 1) = mkfs_sb \<and> sb_ok mkfs_sb
    \<and> meta_allocated mkfs_sb (block_of t)
    \<and> (\<forall>b. unat b < FSSIZE \<longrightarrow> (allocated mkfs_sb (block_of t) b \<longleftrightarrow> unat b < 59 + blocks_used (mkfs_spec fs)))
    \<and> (\<forall>i < length fs. has_file (block_of t) (inode_at (block_of t) (inum_of (i + 1))) (T_FILE, concat (snd (fs ! i))))
    \<and> (let d = inode_at (block_of t) ROOTINO in di_type d = T_DIR \<and> file_ok mkfs_sb (block_of t) (di_addrs d)
         \<and> unat (di_size d) = (length (root_bytes fs) div BSIZE + 1) * BSIZE
         \<and> (\<forall>x < MAXFILE * BSIZE. file_byte (block_of t) (di_addrs d) x = (if x < length (root_bytes fs) then root_bytes fs ! x else 0)))
    \<and> (\<forall>i \<le> length fs. \<forall>j \<le> length fs. i \<noteq> j \<longrightarrow>
         slots (block_of t) (di_addrs (inode_at (block_of t) (inum_of i))) \<inter> slots (block_of t) (di_addrs (inode_at (block_of t) (inum_of j))) = {})"
proof -
  obtain s where C: "contains s (mkfs_spec fs)" and run: "mkfs_main fs = do { din \<leftarrow> rinode 1 s;
      s \<leftarrow> winode 1 (din\<lparr>di_size := (di_size din div 512 + 1) * 512\<rparr>) s; mkfs_balloc (freeblock s) s }"
    using mkfs_build [OF assms] by blast
  note D = containsD [OF C]
  define d where "d = inode_at (view s) 1"
  define d' where "d' = d\<lparr>di_size := (di_size d div 512 + 1) * 512\<rparr>"
  let ?c = "IBLOCK 1 mkfs_sb"
  define y where "y = put_dinode (unat ((1 :: u32) mod 8)) d' (view s ?c)"
  obtain t where t: "mkfs_main fs = Some t" "length (img t) = FSSIZE" "block_of t = (view s)(?c := y)"
    using mkfs_finish [OF C] unfolding run d_def d'_def y_def by blast
  have u: "unat (1 :: u32) < NINODES" by simp
  note I = mkfs_IBLOCK [OF u]
  have len: "length (mkfs_spec fs) = length fs + 1" by (simp add: mkfs_spec_def)
  have f: "has_file (view s) (inode_at (view s) (inum_of i)) (mkfs_spec fs ! i)" if "i \<le> length fs" for i using D(6) that len by simp
  note O = has_file_other [OF f I(3,4), where y = y, folded t(3)]
  have r: "has_file (view s) d (T_DIR, root_bytes fs)" using f [of 0] by (simp add: mkfs_spec_def inum_of_def d_def)
  have r': "has_file (block_of t) d (T_DIR, root_bytes fs)" unfolding t(3) by (rule has_file_other(1) [OF r I(3,4)])
  have la: "length (di_addrs d') = 13" using r file_okD(1) by (fastforce simp: has_file_def d'_def)
  have l: "length (view s ?c) = BSIZE" using length_view [OF D(1)] I(2) by simp
  have un: "unat (inum_of i) = i + 1" "unat (inum_of i) < NINODES" if "i \<le> length fs" for i
    using inum_of_inj [of i] that assms(2) by simp_all
  have at: "inode_at (block_of t) (inum_of i) = (if i = 0 then d' else inode_at (view s) (inum_of i))" if "i \<le> length fs" for i
  proof -
    have "inum_of i = 1 \<longleftrightarrow> i = 0" using un(1) [OF that] by (metis add_0 add_right_cancel unsigned_1 inum_of_def of_nat_1)
    then show ?thesis unfolding t(3) y_def inode_at_put [where v = "view s", OF u un(2) [OF that] la l] by (simp only:)
  qed
  have ad: "di_addrs (inode_at (block_of t) (inum_of i)) = di_addrs (inode_at (view s) (inum_of i))" if "i \<le> length fs" for i
    unfolding at [OF that] by (simp add: d'_def d_def inum_of_def)
  have root: "inode_at (block_of t) 1 = d'" using at [of 0] by (simp add: inum_of_def)
  have sz: "unat (di_size d') = (length (root_bytes fs) div BSIZE + 1) * BSIZE"
  proof -
    have "unat (di_size d) = length (root_bytes fs)" "length (root_bytes fs) \<le> MAXFILE * BSIZE" using r by (simp_all add: has_file_def)
    moreover from this(2) have "length (root_bytes fs) div BSIZE \<le> MAXFILE" using div_le_mono [of "length (root_bytes fs)" "MAXFILE * BSIZE" BSIZE] by simp
    ultimately show ?thesis by (simp add: d'_def unat_word_ariths unat_div)
  qed
  have al: "allocated mkfs_sb (block_of t) b = allocated mkfs_sb (view s) b" if "unat b < FSSIZE" for b
    unfolding t(3) using that I(4) by (simp add: allocated_def mkfs_BBLOCK)
  have "has_file (block_of t) (inode_at (block_of t) (inum_of (i + 1))) (T_FILE, concat (snd (fs ! i)))" if "i < length fs" for i
    using O(1) [of "i + 1"] that at [of "i + 1"] by (simp add: mkfs_spec_def)
  moreover have "slots (block_of t) (di_addrs (inode_at (block_of t) (inum_of i))) \<inter> slots (block_of t) (di_addrs (inode_at (block_of t) (inum_of j))) = {}"
    if "i \<le> length fs" "j \<le> length fs" "i \<noteq> j" for i j
    unfolding ad [OF that(1)] ad [OF that(2)] O(2) [OF that(1)] O(2) [OF that(2)] by (rule D(7)) (use that len in simp_all)
  moreover have "decode_sb (block_of t 1) = mkfs_sb" unfolding t(3) using I(5) D(5) by simp code_simp
  moreover have "meta_allocated mkfs_sb (block_of t)" using view_meta [OF D(1)] al by (simp add: meta_allocated_def)
  moreover have "di_type d' = T_DIR \<and> file_ok mkfs_sb (block_of t) (di_addrs d')
      \<and> (\<forall>x < MAXFILE * BSIZE. file_byte (block_of t) (di_addrs d') x = (if x < length (root_bytes fs) then root_bytes fs ! x else 0))"
    using r' by (simp add: has_file_def d'_def)
  ultimately show ?thesis using t(1,2) sz al view_allocated [OF D(1)] D(4) by (intro exI [of _ t]) (simp add: root)
qed

theorem mkfs_image_witness:
  "\<exists>t. mkfs_main [([95, 99, 97, 116], [replicate 512 7, [1, 2, 3]])] = Some t
     \<and> has_file (block_of t) (inode_at (block_of t) 2) (T_FILE, replicate 512 7 @ [1, 2, 3])
     \<and> (\<forall>b. unat b < FSSIZE \<longrightarrow> (allocated mkfs_sb (block_of t) b \<longleftrightarrow> unat b < 62))"
proof -
  let ?fs = "[([95, 99, 97, 116], [replicate 512 7, [1, 2, 3]])] :: (byte list \<times> byte list list) list"
  have b: "blocks_used (mkfs_spec ?fs) = 3" by (simp add: mkfs_spec_def root_bytes_def nblocks_of_def blocks_of_def)
  have "\<forall>f \<in> set ?fs. 47 \<notin> set (fst f) \<and> length (concat (snd f)) \<le> MAXFILE * BSIZE" "length ?fs + 1 < NINODES" "59 + blocks_used (mkfs_spec ?fs) \<le> FSSIZE"
    unfolding b by simp_all
  note T = mkfs_image [OF this, unfolded b]
  obtain t where t: "mkfs_main ?fs = Some t" "\<forall>i < length ?fs. has_file (block_of t) (inode_at (block_of t) (inum_of (i + 1))) (T_FILE, concat (snd (?fs ! i)))"
      "\<forall>b. unat b < FSSIZE \<longrightarrow> (allocated mkfs_sb (block_of t) b \<longleftrightarrow> unat b < 59 + 3)" using T by blast
  have "inum_of (0 + 1) = 2" by (simp add: inum_of_def)
  then have "has_file (block_of t) (inode_at (block_of t) 2) (T_FILE, replicate 512 7 @ [1, 2, 3])" using t(2) [rule_format, of 0] by simp
  then show ?thesis using t(1,3) by auto
qed

end
