(* ===== verification/Spec2Isabelle.thy ===== *)
theory Spec2Isabelle
  imports Xv6_Prelude Xv6_String Xv6_Disk Xv6_Bio Xv6_Log Xv6_Txn Xv6_Printf Xv6_Console
    Xv6_Fs Xv6_Msg Xv6_Server Xv6_Vm Xv6_Proc Xv6_File Xv6_Process Xv6_Syscall Xv6_Sysfile Xv6_Sysproc
    Xv6_Fifo Xv6_Ipc Xv6_Pipe Xv6_ServerFd Xv6_FsRw Xv6_Grep Xv6_Shell Xv6_FreeVm Xv6_Spinlock Xv6_Image
begin

text \<open>
  Verification of xv6-fs-server: the 64-bit xv6 kernel with message passing between processes, a file server that runs as a user
  process, and the programs around them.

  \<^bold>\<open>The program.\<close> The kernel keeps files on a disk behind a buffer cache (\<^verbatim>\<open>bio.c\<close>, \<^verbatim>\<open>memide.c\<close>) and a write-ahead log (\<^verbatim>\<open>log.c\<close>); \<^verbatim>\<open>fs.c\<close>
  has inodes, directories and paths on top, \<^verbatim>\<open>file.c\<close> and \<^verbatim>\<open>pipe.c\<close> open files, \<^verbatim>\<open>sysfile.c\<close> the system calls. \<^verbatim>\<open>kalloc.c\<close> and \<^verbatim>\<open>vm.c\<close> manage
  memory, \<^verbatim>\<open>proc.c\<close> and \<^verbatim>\<open>exec.c\<close> processes. \<^verbatim>\<open>proc.c\<close> also gives every process a mailbox for one message. When a process has
  registered as the file server, \<^verbatim>\<open>open\<close>, \<^verbatim>\<open>read\<close>, \<^verbatim>\<open>write\<close> and \<^verbatim>\<open>close\<close> of \<^verbatim>\<open>sysfile.c\<close> become messages to it; \<^verbatim>\<open>fsserver.c\<close> answers
  them with its own inode and block layer over the system call \<^verbatim>\<open>disk_request\<close>. \<^verbatim>\<open>mkfs.c\<close> builds the disk they all read.

  \<^bold>\<open>How code becomes definitions.\<close> A function of the source is a function with the same name where possible (a prefix \<open>srv_\<close>, \<open>mkfs_\<close> or \<open>ulib_\<close>
  where two sources use one name). State is passed explicitly: the kernel's state is a chain of extensible records, each component
  adding its variables to those of the components it calls (\<open>bio\<close>, \<open>logst\<close>, \<open>consst\<close>, \<open>fsst\<close>, \<open>kmst\<close>, \<open>filest\<close>, \<open>sysst\<close>,
  \<open>tickst\<close>); the server's state \<open>srvst\<close> extends the buffer cache. The value \<open>None\<close> is an execution that does not return: \<^verbatim>\<open>panic\<close>, an
  access outside of an object, or waiting for something nobody will do. Error codes are ordinary results. Integers have their width; a pointer
  into an array is an index. A section under a spin lock is one step, which \<open>spinlock_mutex\<close> justifies.

  \<^bold>\<open>Theories and what they show.\<close>
  \<^item> \<^verbatim>\<open>Xv6_Prelude\<close>: types, scans of tables, byte arrays, and the calculus \<open>post\<close> for functions that may not return.
  \<^item> \<^verbatim>\<open>Xv6_String\<close> (\<^verbatim>\<open>string.c\<close>, \<^verbatim>\<open>ulib.c\<close>) and \<^verbatim>\<open>Xv6_Printf\<close> (\<^verbatim>\<open>printf.c\<close>, \<^verbatim>\<open>cprintf\<close>): copying is right for overlapping ranges in the
    kernel and not in the user library; round trips of names and numbers.
  \<^item> \<^verbatim>\<open>Xv6_Disk\<close> (\<^verbatim>\<open>fs.h\<close>): byte layout of super block, inodes, directory entries, bitmap, with round trips.
  \<^item> \<^verbatim>\<open>Xv6_Bio\<close> (\<^verbatim>\<open>bio.c\<close>, \<^verbatim>\<open>memide.c\<close>): the cache is transparent: a read returns the current contents of a block, whatever is evicted.
  \<^item> \<^verbatim>\<open>Xv6_Log\<close>, \<^verbatim>\<open>Xv6_Txn\<close> (\<^verbatim>\<open>log.c\<close>): a crash at any write of a commit or of a recovery leaves all blocks old or all new; the last \<^verbatim>\<open>end_op\<close>
    makes a transaction durable; when the reservation of \<^verbatim>\<open>begin_op\<close> suffices, and that with the log of \<^verbatim>\<open>mkfs\<close> it does not.
  \<^item> \<^verbatim>\<open>Xv6_Fs\<close> (\<^verbatim>\<open>fs.c\<close>) with \<^verbatim>\<open>Xv6_FsSpec\<close>, \<^verbatim>\<open>Xv6_FsFile\<close>, \<^verbatim>\<open>Xv6_FsRw\<close>: the meaning of blocks as files, and that \<^verbatim>\<open>balloc\<close>, \<^verbatim>\<open>readi\<close>,
    \<^verbatim>\<open>writei\<close>, \<^verbatim>\<open>iupdate\<close> and \<^verbatim>\<open>ilock\<close> return and do to this meaning what they should, without touching other files.
  \<^item> \<^verbatim>\<open>Xv6_Mkfs\<close>, \<^verbatim>\<open>Xv6_Image\<close> (\<^verbatim>\<open>mkfs.c\<close>): the image is well formed in the sense of \<^verbatim>\<open>Xv6_FsSpec\<close> and contains the files given.
  \<^item> \<^verbatim>\<open>Xv6_Console\<close> (\<^verbatim>\<open>console.c\<close>): line editing on the ring buffer refines editing on lists.
  \<^item> \<^verbatim>\<open>Xv6_Vm\<close> (\<^verbatim>\<open>kalloc.c\<close>, \<^verbatim>\<open>vm.c\<close>) with \<^verbatim>\<open>Xv6_Kalloc\<close>, \<^verbatim>\<open>Xv6_PageTable\<close>, \<^verbatim>\<open>Xv6_UserMem\<close>, \<^verbatim>\<open>Xv6_CopyMem\<close>, \<^verbatim>\<open>Xv6_AddrSpace\<close>,
    \<^verbatim>\<open>Xv6_FreeVm\<close>: the allocator owns every page once; page tables are trees that share no page; growing, copying and freeing an
    address space and copying bytes in and out do what they should and leave other address spaces alone.
  \<^item> \<^verbatim>\<open>Xv6_Spinlock\<close> (\<^verbatim>\<open>spinlock.c\<close>): mutual exclusion on any number of processors, by an inductive step relation.
  \<^item> \<^verbatim>\<open>Xv6_Msg\<close>, \<^verbatim>\<open>Xv6_Proc\<close>, \<^verbatim>\<open>Xv6_Ipc\<close> (\<^verbatim>\<open>ipc.h\<close>, \<^verbatim>\<open>proc.c\<close>): in every interleaving messages are delivered once, in order, with the
    true sender; no wakeup is lost; pids are unique; a sleeping sender makes progress; what happens when the receiver exits.
  \<^item> \<^verbatim>\<open>Xv6_File\<close>, \<^verbatim>\<open>Xv6_Pipe\<close> (\<^verbatim>\<open>file.c\<close>, \<^verbatim>\<open>pipe.c\<close>) over the contract of a bounded buffer in \<^verbatim>\<open>Xv6_Fifo\<close>: pipes transmit bytes in order.
  \<^item> \<^verbatim>\<open>Xv6_Process\<close> (\<^verbatim>\<open>proc.c\<close>, \<^verbatim>\<open>exec.c\<close>), \<^verbatim>\<open>Xv6_Syscall\<close>, \<^verbatim>\<open>Xv6_Sysfile\<close>, \<^verbatim>\<open>Xv6_Sysproc\<close> (\<^verbatim>\<open>syscall.c\<close>, \<^verbatim>\<open>sysfile.c\<close>, \<^verbatim>\<open>sysproc.c\<close>):
    executable definitions of process creation, program loading and all system calls, with few lemmas of their own.
  \<^item> \<^verbatim>\<open>Xv6_Server\<close>, \<^verbatim>\<open>Xv6_ServerFd\<close> (\<^verbatim>\<open>fsserver.c\<close>): requests refine an abstract descriptor service; reference counts are exact;
    other processes cannot change a descriptor.
  \<^item> \<^verbatim>\<open>Xv6_Grep\<close> (\<^verbatim>\<open>grep.c\<close>) and \<^verbatim>\<open>Xv6_Shell\<close> (\<^verbatim>\<open>sh.c\<close>): the matcher decides its regular expressions; the parser of the shell returns on
    every line, stays in its buffer and cuts out the right words.

  \<^bold>\<open>Interfaces.\<close> The contracts of a block cache (interpreted by the buffer cache, on its own and below the log), of a bounded buffer (by pipes and
  mailboxes) and of a page allocator (by \<^verbatim>\<open>kalloc\<close> and \<^verbatim>\<open>kfree\<close>) are locales; what follows for sequences of operations by several clients is proved in them once.

  \<^bold>\<open>Bounds and fuel.\<close> Loops over ranges and lists recurse on them; other loops have termination proofs. Loops that wait are functions for one
  evaluation of their condition, up to the next \<^verbatim>\<open>sleep\<close>. The parser of the shell has fuel \<open>4 n + 5\<close> for a line of \<open>n\<close> bytes, and
  \<open>parsecmd_returns\<close> shows that this is enough. The theorems on file contents assume room in the buffer cache and the log, those
  on memory enough free pages, as stated in each; \<open>copyout_then_copyin\<close> is for addresses below 4 GB because \<^verbatim>\<open>copyin\<close> truncates them.

  \<^bold>\<open>Not modelled.\<close> Assembly, boot code, and the drivers that program hardware (\<^verbatim>\<open>ide.c\<close>, \<^verbatim>\<open>lapic.c\<close>, \<^verbatim>\<open>ioapic.c\<close>, \<^verbatim>\<open>mp.c\<close>, \<^verbatim>\<open>kbd.c\<close>, \<^verbatim>\<open>uart.c\<close>
  beyond its output): their correctness depends on devices that are not described in the sources. The memory disk \<^verbatim>\<open>memide.c\<close> stands for the
  disk. The dispatch of traps beyond timer ticks, segment setup and the loading of control registers have no effect on the state modelled.
  Test programs (\<^verbatim>\<open>usertests.c\<close> and others) and small user programs only call what is modelled; of the shell, \<^verbatim>\<open>runcmd\<close> and \<^verbatim>\<open>main\<close> are sequences of
  system calls of several processes. Memory is sequentially consistent.
\<close>

end
